(* ===== verification/Prelude.thy ===== *)
theory Prelude
  imports Main "HOL-Library.Word" "HOL-Library.Multiset" "HOL-Library.Code_Target_Nat"
begin

text \<open>
  What every component of the development shares: the fixed-width integers of the code, Rust's
  checked and saturating arithmetic on them, the outcome type of code that may panic, and the
  lemma collections the component proofs run on.

  A \<open>u64\<close> is a \<open>64 word\<close>; \<open>usize\<close> is that of a 64-bit target. The length of a vector is the
  \<open>nat\<close> length of a list and is compared with a \<open>usize\<close> through \<open>unat\<close>, so no comparison
  with a capacity wraps.
\<close>

section \<open>Machine integers\<close>

type_synonym u8 = "8 word"
type_synonym u16 = "16 word"
type_synonym u32 = "32 word"
type_synonym u64 = "64 word"
type_synonym usize = "64 word"

named_theorems checked "what Rust's checked arithmetic returns, case by case"

definition checked_add :: "'a::len word \<Rightarrow> 'a word \<Rightarrow> 'a word option" where
  "checked_add x y = (if unat x + unat y < 2 ^ LENGTH('a) then Some (x + y) else None)"

definition checked_sub :: "'a::len word \<Rightarrow> 'a word \<Rightarrow> 'a word option" where
  "checked_sub x y = (if y \<le> x then Some (x - y) else None)"

definition checked_mul :: "'a::len word \<Rightarrow> 'a word \<Rightarrow> 'a word option" where
  "checked_mul x y = (if unat x * unat y < 2 ^ LENGTH('a) then Some (x * y) else None)"

definition saturating_add :: "'a::len word \<Rightarrow> 'a word \<Rightarrow> 'a word" where
  "saturating_add x y = (case checked_add x y of Some z \<Rightarrow> z | None \<Rightarrow> - 1)"

definition saturating_sub :: "'a::len word \<Rightarrow> 'a word \<Rightarrow> 'a word" where
  "saturating_sub x y = (case checked_sub x y of Some z \<Rightarrow> z | None \<Rightarrow> 0)"

lemma word_unat_eqI: "unat x = unat y \<Longrightarrow> x = y"
  by (simp add: word_unat_eq_iff)

lemma unat_less_exp: "unat x < 2 ^ LENGTH('a)" for x :: "'a::len word"
  by (rule unsigned_less)

lemma checked_add_SomeD [checked]:
  "checked_add x y = Some z \<Longrightarrow> unat z = unat x + unat y"
  by (auto simp: checked_add_def unat_word_ariths split: if_splits)

lemma checked_add_None_iff [checked]:
  "checked_add x y = None \<longleftrightarrow> 2 ^ LENGTH('a) \<le> unat x + unat y" for x y :: "'a::len word"
  by (auto simp: checked_add_def)

lemma checked_add_Some_iff:
  "checked_add x y = Some z \<longleftrightarrow> unat z = unat x + unat y" for x y z :: "'a::len word"
proof
  assume "unat z = unat x + unat y"
  moreover from this have "unat x + unat y < 2 ^ LENGTH('a)"
    using unat_less_exp [of z] by simp
  ultimately show "checked_add x y = Some z"
    by (auto simp: checked_add_def unat_word_ariths intro!: word_unat_eqI)
qed (rule checked_add_SomeD)

lemma checked_sub_SomeD [checked]:
  "checked_sub x y = Some z \<Longrightarrow> unat y \<le> unat x \<and> unat z = unat x - unat y"
  by (auto simp: checked_sub_def unat_sub word_le_nat_alt split: if_splits)

lemma checked_sub_None_iff [checked]: "checked_sub x y = None \<longleftrightarrow> x < y"
  by (auto simp: checked_sub_def)

lemma checked_sub_ge [simp]: "y \<le> x \<Longrightarrow> checked_sub x y = Some (x - y)"
  by (simp add: checked_sub_def)

lemma unat_minus_one_full: "unat (- 1 :: 'a::len word) = 2 ^ LENGTH('a) - 1"
  by (simp add: unsigned_minus_1_eq_mask mask_eq_exp_minus_1)

lemma unat_saturating_add:
  "unat (saturating_add x y) = min (unat x + unat y) (2 ^ LENGTH('a) - 1)"
  for x y :: "'a::len word"
proof (cases "checked_add x y")
  case None
  then show ?thesis
    using checked_add_None_iff [of x y]
    by (simp add: saturating_add_def unat_minus_one_full min_absorb2)
next
  case (Some z)
  then have "unat z = unat x + unat y"
    by (rule checked_add_SomeD)
  moreover have "unat z \<le> 2 ^ LENGTH('a) - 1"
    using unat_less_exp [of z] by arith
  ultimately show ?thesis
    using Some by (simp add: saturating_add_def min_def)
qed

lemma min_add_cap: "min (min a m + b) m = min (a + min b m) m" for a b m :: nat
  by (simp add: min_def)

lemma saturating_add_comm: "saturating_add x y = saturating_add y x"
  by (rule word_unat_eqI) (simp add: unat_saturating_add add.commute)

lemma saturating_add_assoc:
  "saturating_add (saturating_add x y) z = saturating_add x (saturating_add y z)"
  by (rule word_unat_eqI) (simp add: unat_saturating_add add.assoc min_add_cap)

lemma saturating_add_zero [simp]: "saturating_add 0 y = y" "saturating_add x 0 = x"
  by (simp_all add: saturating_add_def checked_add_def)

lemma unat_saturating_sub: "unat (saturating_sub x y) = unat x - unat y"
  by (auto simp: saturating_sub_def checked_sub_def unat_sub word_le_nat_alt)

section \<open>Code that may panic\<close>

text \<open>
  An operation that can panic returns a \<open>run\<close>: \<open>Panic\<close> is unwinding, \<open>Ret\<close> a
  normal return. \<open>expect\<close> is \<open>unwrap_or_else(|| panic!(..))\<close>.
\<close>

datatype 'a run = Panic | Ret (returned: 'a)

definition expect :: "'a option \<Rightarrow> 'a run" where
  "expect x = (case x of None \<Rightarrow> Panic | Some v \<Rightarrow> Ret v)"

definition and_then :: "'a run \<Rightarrow> ('a \<Rightarrow> 'b run) \<Rightarrow> 'b run" where
  "and_then r f = (case r of Panic \<Rightarrow> Panic | Ret v \<Rightarrow> f v)"

lemma expect_simps [simp]: "expect None = Panic" "expect (Some v) = Ret v"
  by (simp_all add: expect_def)

lemma and_then_simps [simp]: "and_then Panic f = Panic" "and_then (Ret v) f = f v"
  by (simp_all add: and_then_def)

lemma expect_Ret_iff [simp]: "expect x = Ret v \<longleftrightarrow> x = Some v"
  by (cases x) simp_all

lemma expect_Panic_iff [simp]: "expect x = Panic \<longleftrightarrow> x = None"
  by (cases x) simp_all

lemma and_then_Ret_iff: "and_then r f = Ret v \<longleftrightarrow> (\<exists>u. r = Ret u \<and> f u = Ret v)"
  by (cases r) simp_all

section \<open>Retained bytes of a list of measured entries\<close>

definition total_bytes :: "'a::len word multiset \<Rightarrow> nat" where
  "total_bytes M = (\<Sum>b\<in>#M. unat b)"

lemma total_bytes_simps [simp]:
  "total_bytes {#} = 0"
  "total_bytes (add_mset b M) = unat b + total_bytes M"
  "total_bytes (M + N) = total_bytes M + total_bytes N"
  by (simp_all add: total_bytes_def)

lemma total_bytes_member: "b \<in># M \<Longrightarrow> unat b \<le> total_bytes M"
  by (auto dest!: multi_member_split)

lemma total_bytes_remove:
  "b \<in># M \<Longrightarrow> total_bytes (M - {#b#}) = total_bytes M - unat b"
  by (auto dest!: multi_member_split)

section \<open>Searching and updating vectors\<close>

text \<open>\<open>Iterator::find_map\<close>; over \<open>enumerate()\<close> it is applied to \<open>List.enumerate 0\<close>.\<close>

fun find_map :: "('a \<Rightarrow> 'b option) \<Rightarrow> 'a list \<Rightarrow> 'b option" where
  "find_map f [] = None"
| "find_map f (x # xs) = (case f x of Some y \<Rightarrow> Some y | None \<Rightarrow> find_map f xs)"

lemma find_map_SomeD: "find_map f xs = Some y \<Longrightarrow> \<exists>x\<in>set xs. f x = Some y"
  by (induction xs) (auto split: option.splits)

lemma find_map_None_iff: "find_map f xs = None \<longleftrightarrow> (\<forall>x\<in>set xs. f x = None)"
  by (induction xs) (auto split: option.splits)

lemma find_map_unique:
  assumes "x \<in> set xs" "f x = Some y" "\<And>z v. z \<in> set xs \<Longrightarrow> f z = Some v \<Longrightarrow> v = y"
  shows "find_map f xs = Some y"
proof (cases "find_map f xs")
  case None
  then show ?thesis
    using assms(1,2) by (simp add: find_map_None_iff)
next
  case (Some v)
  then show ?thesis
    using find_map_SomeD [of f xs v] assms(3) by blast
qed

lemma find_map_enumerate_SomeD:
  "find_map f (enumerate 0 xs) = Some y \<Longrightarrow> \<exists>i<length xs. f (i, xs ! i) = Some y"
  by (force simp: in_set_enumerate_eq dest!: find_map_SomeD)

lemma find_map_enumerate_None_iff:
  "find_map f (enumerate 0 xs) = None \<longleftrightarrow> (\<forall>i<length xs. f (i, xs ! i) = None)"
  by (force simp: in_set_enumerate_eq find_map_None_iff)

lemma length_filter_update:
  assumes "i < length xs"
  shows "length (filter P (xs[i := y])) + of_bool (P (xs ! i)) = length (filter P xs) + of_bool (P y)"
  using assms
proof (induction xs arbitrary: i)
  case (Cons x xs)
  then show ?case by (cases i) auto
qed simp

lemma filter_update_pos: "i < length xs \<Longrightarrow> P (xs ! i) \<Longrightarrow> 0 < length (filter P xs)"
  using nth_mem [of i xs] by (auto simp: filter_empty_conv)

lemma distinct_map_mset_cong:
  "mset xs = mset ys \<Longrightarrow> distinct (map f xs) \<longleftrightarrow> distinct (map f ys)"
  by (metis mset_map mset_eq_imp_distinct_iff)

lemma map_filter_mem_iff: "y \<in> set (List.map_filter f xs) \<longleftrightarrow> (\<exists>x\<in>set xs. f x = Some y)"
  by (induction xs) (auto simp: map_filter_simps split: option.splits)

lemma map_filter_enumerate_iff:
  "y \<in> set (List.map_filter f (enumerate 0 xs)) \<longleftrightarrow> (\<exists>i<length xs. f (i, xs ! i) = Some y)"
  by (force simp: map_filter_mem_iff in_set_enumerate_eq)

lemma total_bytes_mono: "M \<subseteq># N \<Longrightarrow> total_bytes M \<le> total_bytes N"
  by (auto simp: mset_subset_eq_exists_conv)

lemma run_case_Ret:
  "(case x of Panic \<Rightarrow> False | Ret (s, r) \<Rightarrow> P s r) \<Longrightarrow> \<exists>s r. x = Ret (s, r) \<and> P s r"
  by (cases x) (auto split: prod.splits)

end
