(* ===== verification/Ledger.thy ===== *)
theory Ledger
  imports Prelude
begin

text \<open>
  Memory accounting (\<open>retained.rs\<close>) and the interface of every bounded container of the crate.

  Each container keeps one running total of the bytes its entries retain, with checked arithmetic
  on every insertion and removal. \<open>byte_ledger\<close> states what such a container promises (the
  total is the sum of the retained sizes, under its byte limit, with no more entries than its
  count limit), and the lemmas proved inside it are what the containers' own proofs use: releasing
  an entry that is present cannot underflow, and admission fails exactly where the sum says so.
\<close>

section \<open>Retained bytes\<close>

type_synonym retained_bytes = u64

definition RetainedBytes_ZERO :: retained_bytes where
  "RetainedBytes_ZERO = 0"

definition RetainedBytes_checked_add :: "retained_bytes \<Rightarrow> retained_bytes \<Rightarrow> retained_bytes option" where
  "RetainedBytes_checked_add self other = checked_add self other"

definition RetainedBytes_checked_sub :: "retained_bytes \<Rightarrow> retained_bytes \<Rightarrow> retained_bytes option" where
  "RetainedBytes_checked_sub self other = checked_sub self other"

definition RetainedBytes_from_u32 :: "u32 \<Rightarrow> retained_bytes" where
  "RetainedBytes_from_u32 value = ucast value"

text \<open>
  \<open>TryFrom<usize>\<close> goes through \<open>u64::try_from\<close>, which succeeds on every \<open>usize\<close> of a 64-bit
  target; \<open>RetainedBytesOverflow\<close> is the error of wider ones.
\<close>

definition RetainedBytes_try_from_usize :: "usize \<Rightarrow> retained_bytes option" where
  "RetainedBytes_try_from_usize value = (if unat value < 2 ^ 64 then Some (ucast value) else None)"

lemmas retained_ops = RetainedBytes_ZERO_def RetainedBytes_checked_add_def
  RetainedBytes_checked_sub_def

lemma RetainedBytes_try_from_usize_total: "RetainedBytes_try_from_usize n = Some n"
  using unat_less_exp [of n] by (simp add: RetainedBytes_try_from_usize_def)

lemma RetainedBytes_from_u32_unat: "unat (RetainedBytes_from_u32 n) = unat n"
  by (simp add: RetainedBytes_from_u32_def unsigned_ucast_eq take_bit_nat_eq_self_iff)
    (rule less_trans [OF unat_less_exp], simp)

lemma RetainedBytes_add_sub:
  "RetainedBytes_checked_add a b = Some c \<Longrightarrow> RetainedBytes_checked_sub c b = Some a"
  by (auto simp: retained_ops checked_sub_def checked_add_def word_le_nat_alt unat_word_ariths
      split: if_splits)

section \<open>The contract of a bounded container\<close>

locale byte_ledger =
  fixes inv :: "'s \<Rightarrow> bool"
    and total :: "'s \<Rightarrow> retained_bytes"
    and sizes :: "'s \<Rightarrow> retained_bytes multiset"
    and byte_cap :: "'s \<Rightarrow> retained_bytes"
    and count_cap :: "'s \<Rightarrow> nat"
  assumes balanced: "inv s \<Longrightarrow> unat (total s) = total_bytes (sizes s)"
    and within_bytes: "inv s \<Longrightarrow> total s \<le> byte_cap s"
    and within_count: "inv s \<Longrightarrow> size (sizes s) \<le> count_cap s"
begin

text \<open>Giving back the bytes of an entry that is present never underflows.\<close>

lemma entry_le: "inv s \<Longrightarrow> b \<in># sizes s \<Longrightarrow> b \<le> total s"
  using total_bytes_member [of b "sizes s"] by (simp add: balanced word_le_nat_alt)

lemma release: "inv s \<Longrightarrow> b \<in># sizes s \<Longrightarrow> RetainedBytes_checked_sub (total s) b = Some (total s - b)"
  by (simp add: RetainedBytes_checked_sub_def entry_le)

lemma release_balanced:
  "inv s \<Longrightarrow> b \<in># sizes s \<Longrightarrow> unat (total s - b) = total_bytes (sizes s - {#b#})"
  using entry_le [of s b] by (simp add: total_bytes_remove balanced unat_sub word_le_nat_alt)

lemma release_within: "inv s \<Longrightarrow> b \<in># sizes s \<Longrightarrow> total s - b \<le> byte_cap s"
  using within_bytes [of s] entry_le [of s b] by (simp add: word_le_nat_alt unat_sub)

text \<open>Taking bytes in fails exactly when the exact sum leaves the accounting domain.\<close>

lemma admit_overflow_iff:
  "inv s \<Longrightarrow> RetainedBytes_checked_add (total s) b = None \<longleftrightarrow> 2 ^ 64 \<le> total_bytes (add_mset b (sizes s))"
  unfolding RetainedBytes_checked_add_def checked_add_None_iff total_bytes_simps
    add.commute [of "unat b"]
  by (simp add: balanced)

lemma admit_balanced:
  "inv s \<Longrightarrow> RetainedBytes_checked_add (total s) b = Some t \<Longrightarrow> unat t = total_bytes (add_mset b (sizes s))"
  by (simp add: RetainedBytes_checked_add_def balanced checked_add_SomeD)

lemma empty_total: "inv s \<Longrightarrow> sizes s = {#} \<Longrightarrow> total s = 0"
  by (metis balanced total_bytes_simps(1) unat_eq_zero)

lemma sizes_bounded: "inv s \<Longrightarrow> total_bytes (sizes s) \<le> unat (byte_cap s)"
  using within_bytes [of s] by (simp add: balanced [symmetric] word_le_nat_alt)

end

end
