(* ===== verification/Clock_Time.thy ===== *)
theory Clock_Time
  imports Prelude
begin

text \<open>
  Fixed-width monotonic time (\<open>time.rs\<close>): \<open>Moment\<close>, \<open>Span\<close> and \<open>Deadline\<close> are transparent
  wrappers of a \<open>u64\<close> of nanoseconds, so each is the word itself here and the derived order is
  the order of words. The standard library's \<open>Duration\<close> is a number of seconds and a number of
  nanoseconds below one second.
\<close>

section \<open>Moments, spans and deadlines\<close>

type_synonym moment = u64
type_synonym span = u64
type_synonym deadline = moment

definition Moment_ORIGIN :: moment where
  "Moment_ORIGIN = 0"

definition Moment_checked_add :: "moment \<Rightarrow> span \<Rightarrow> moment option" where
  "Moment_checked_add self sp = checked_add self sp"

definition Moment_duration_since :: "moment \<Rightarrow> moment \<Rightarrow> span option" where
  "Moment_duration_since self earlier = checked_sub self earlier"

definition Span_ZERO :: span where
  "Span_ZERO = 0"

definition Span_checked_from_millis :: "u64 \<Rightarrow> span option" where
  "Span_checked_from_millis milliseconds = checked_mul milliseconds 1000000"

definition Span_checked_add :: "span \<Rightarrow> span \<Rightarrow> span option" where
  "Span_checked_add self other = checked_add self other"

definition Span_min :: "span \<Rightarrow> span \<Rightarrow> span" where
  "Span_min self other = (if self \<le> other then self else other)"

definition Deadline_is_elapsed_at :: "deadline \<Rightarrow> moment \<Rightarrow> bool" where
  "Deadline_is_elapsed_at self now \<longleftrightarrow> self \<le> now"

definition Deadline_remaining_at :: "deadline \<Rightarrow> moment \<Rightarrow> span" where
  "Deadline_remaining_at self now =
     (case checked_sub self now of Some value \<Rightarrow> value | None \<Rightarrow> Span_ZERO)"

section \<open>Durations\<close>

record duration =
  secs :: u64
  nanos :: u32

definition duration_ok :: "duration \<Rightarrow> bool" where
  "duration_ok d \<longleftrightarrow> unat (nanos d) < 1000000000"

text \<open>\<open>Duration::as_nanos\<close> is a \<open>u128\<close> that never overflows: a natural number.\<close>

definition Duration_as_nanos :: "duration \<Rightarrow> nat" where
  "Duration_as_nanos d = unat (secs d) * 1000000000 + unat (nanos d)"

definition Duration_from_nanos :: "u64 \<Rightarrow> duration" where
  "Duration_from_nanos n =
     \<lparr> secs = n div 1000000000, nanos = ucast (n mod 1000000000) \<rparr>"

definition Span_as_duration :: "span \<Rightarrow> duration" where
  "Span_as_duration self = Duration_from_nanos self"

datatype duration_overflow = DurationOverflow (overflowed: duration)

definition Span_try_from :: "duration \<Rightarrow> duration_overflow + span" where
  "Span_try_from d =
     (if Duration_as_nanos d < 2 ^ 64 then Inr (of_nat (Duration_as_nanos d))
      else Inl (DurationOverflow d))"

section \<open>Properties\<close>

lemma Moment_checked_add_mono:
  "Moment_checked_add m sp = Some m' \<Longrightarrow> m \<le> m'"
  by (auto simp: Moment_checked_add_def word_le_nat_alt dest!: checked_add_SomeD)

lemma Moment_add_duration_since:
  "Moment_checked_add m sp = Some m' \<longleftrightarrow> m \<le> m' \<and> Moment_duration_since m' m = Some sp"
proof -
  have "unat sp = unat m' - unat m \<and> m \<le> m' \<longleftrightarrow> m \<le> m' \<and> m' - m = sp"
    by (auto simp: word_le_nat_alt unat_sub intro!: word_unat_eqI)
  then show ?thesis
    by (auto simp: Moment_checked_add_def Moment_duration_since_def checked_add_Some_iff
        word_le_nat_alt checked_sub_def split: if_splits)
qed

lemma Span_min_eq_min: "Span_min a b = min a b"
  by (simp add: Span_min_def min_def)

lemma Deadline_remaining_at_unat: "unat (Deadline_remaining_at d now) = unat d - unat now"
  unfolding unat_saturating_sub [symmetric] Deadline_remaining_at_def saturating_sub_def
    Span_ZERO_def by (rule refl)

lemma Deadline_elapsed_iff_no_remaining:
  "Deadline_is_elapsed_at d now \<longleftrightarrow> Deadline_remaining_at d now = 0"
  by (simp add: Deadline_is_elapsed_at_def word_le_nat_alt unat_eq_zero [symmetric]
      Deadline_remaining_at_unat del: unat_eq_zero)

text \<open>Waiting out what remains reaches the deadline, and not earlier.\<close>

lemma Deadline_remaining_exact:
  assumes "now \<le> d"
  shows "Moment_checked_add now (Deadline_remaining_at d now) = Some d"
  using assms by (simp add: Moment_checked_add_def checked_add_Some_iff
      Deadline_remaining_at_unat word_le_nat_alt)

lemma Span_as_duration_nanos:
  "duration_ok (Span_as_duration sp) \<and> Duration_as_nanos (Span_as_duration sp) = unat sp"
proof -
  have small: "unat sp mod 1000000000 < 2 ^ 32"
    by (rule less_trans [OF mod_less_divisor]) simp_all
  have "unat (ucast (sp mod 1000000000) :: u32) = unat sp mod 1000000000"
    using small by (simp add: unsigned_ucast_eq unat_mod take_bit_eq_mod)
  then show ?thesis
    by (simp add: Span_as_duration_def Duration_from_nanos_def duration_ok_def
        Duration_as_nanos_def unat_div)
qed

text \<open>
  C40. Durations and spans convert back and forth exactly: a span survives the round trip, a valid
  duration that fits the nanosecond domain comes back as itself, and any other one is refused.
\<close>

theorem span_duration_roundtrip:
  "Span_try_from (Span_as_duration sp) = Inr sp \<and>
   (duration_ok d \<longrightarrow>
      (case Span_try_from d of
         Inr s \<Rightarrow> unat s = Duration_as_nanos d \<and> Span_as_duration s = d
       | Inl e \<Rightarrow> overflowed e = d \<and> 2 ^ 64 \<le> Duration_as_nanos d))"
proof
  show "Span_try_from (Span_as_duration sp) = Inr sp"
    using Span_as_duration_nanos [of sp] unat_less_exp [of sp] by (simp add: Span_try_from_def)
  show "duration_ok d \<longrightarrow> (case Span_try_from d of
         Inr s \<Rightarrow> unat s = Duration_as_nanos d \<and> Span_as_duration s = d
       | Inl e \<Rightarrow> overflowed e = d \<and> 2 ^ 64 \<le> Duration_as_nanos d)"
  proof (cases "Duration_as_nanos d < 2 ^ 64 \<and> duration_ok d")
    case True
    then have ok: "duration_ok d" and small: "Duration_as_nanos d < 2 ^ 64"
      by simp_all
    let ?s = "of_nat (Duration_as_nanos d) :: span"
    have s: "unat ?s = Duration_as_nanos d"
      using small by (simp add: unat_of_nat take_bit_nat_eq_self_iff)
    have "unat (secs (Span_as_duration ?s)) = unat (secs d)"
      using s ok by (simp add: Span_as_duration_def Duration_from_nanos_def unat_div
          Duration_as_nanos_def duration_ok_def)
    moreover have "unat (nanos (Span_as_duration ?s)) = unat (nanos d)"
      using Span_as_duration_nanos [of ?s] s ok calculation
      by (simp add: Duration_as_nanos_def)
    ultimately have "Span_as_duration ?s = d"
      by (cases d; cases "Span_as_duration ?s") (simp add: word_unat_eq_iff)
    then show ?thesis
      using small s by (simp add: Span_try_from_def)
  qed (auto simp: Span_try_from_def)
qed

theorem span_duration_roundtrip_witness:
  "Span_try_from \<lparr> secs = 1, nanos = 500000000 \<rparr> = Inr 1500000000 \<and>
   Span_as_duration 1500000000 = \<lparr> secs = 1, nanos = 500000000 \<rparr>"
  using span_duration_roundtrip [of 0 "\<lparr> secs = 1, nanos = 500000000 \<rparr>"]
  by (simp add: duration_ok_def Duration_as_nanos_def Span_try_from_def)

end
