(* ===== verification/Next_Turn.thy ===== *)
theory Next_Turn
  imports Clock_Time
begin

text \<open>
  The scheduling facts one bounded owner turn returns (\<open>turn.rs\<close>): \<open>WorkCount\<close>, \<open>Next\<close> and
  \<open>Turn\<close>, their merge, and the wait a host derives from them. Merging is a bounded semilattice
  with \<open>Stop\<close> as its unit and \<open>Now\<close> as its top, so the order in which an owner's parts report
  does not matter, and the wait of a merge is the smaller of the waits.
\<close>

section \<open>Definitions\<close>

type_synonym work_count = u64

definition WorkCount_ZERO :: work_count where
  "WorkCount_ZERO = 0"

definition WorkCount_saturating_add :: "work_count \<Rightarrow> work_count \<Rightarrow> work_count" where
  "WorkCount_saturating_add self other = saturating_add self other"

datatype next_run = Now | Wake | WakeOr deadline | Stop

fun Next_merge :: "next_run \<Rightarrow> next_run \<Rightarrow> next_run" where
  "Next_merge Now _ = Now"
| "Next_merge _ Now = Now"
| "Next_merge (WakeOr left) (WakeOr right) =
     (if left \<le> right then WakeOr left else WakeOr right)"
| "Next_merge (WakeOr deadline) Wake = WakeOr deadline"
| "Next_merge (WakeOr deadline) Stop = WakeOr deadline"
| "Next_merge Wake (WakeOr deadline) = WakeOr deadline"
| "Next_merge Stop (WakeOr deadline) = WakeOr deadline"
| "Next_merge Wake Wake = Wake"
| "Next_merge Wake Stop = Wake"
| "Next_merge Stop Wake = Wake"
| "Next_merge Stop Stop = Stop"

fun Next_bounded_wait :: "next_run \<Rightarrow> moment \<Rightarrow> span \<Rightarrow> span" where
  "Next_bounded_wait Now now ceiling = Span_ZERO"
| "Next_bounded_wait Wake now ceiling = ceiling"
| "Next_bounded_wait Stop now ceiling = ceiling"
| "Next_bounded_wait (WakeOr deadline) now ceiling =
     Span_min (Deadline_remaining_at deadline now) ceiling"

record turn =
  turn_work :: work_count
  turn_next :: next_run

definition Turn_new :: "work_count \<Rightarrow> next_run \<Rightarrow> turn" where
  "Turn_new work nxt = \<lparr> turn_work = work, turn_next = nxt \<rparr>"

definition Turn_waiting :: turn where
  "Turn_waiting = Turn_new WorkCount_ZERO Wake"

definition Turn_runnable :: "work_count \<Rightarrow> turn" where
  "Turn_runnable work = Turn_new work Now"

definition Turn_until :: "work_count \<Rightarrow> deadline \<Rightarrow> turn" where
  "Turn_until work deadline = Turn_new work (WakeOr deadline)"

definition Turn_stopped :: "work_count \<Rightarrow> turn" where
  "Turn_stopped work = Turn_new work Stop"

definition Turn_merge :: "turn \<Rightarrow> turn \<Rightarrow> turn" where
  "Turn_merge self other =
     \<lparr> turn_work = WorkCount_saturating_add (turn_work self) (turn_work other),
       turn_next = Next_merge (turn_next self) (turn_next other) \<rparr>"

lemmas turn_ctors = Turn_new_def Turn_waiting_def Turn_runnable_def Turn_until_def Turn_stopped_def

section \<open>Merging is a bounded semilattice\<close>

text \<open>
  The specification: the urgency of an action as an extended wait. \<open>Now\<close> waits for nothing, a
  deadline for itself, \<open>Wake\<close> for an external signal and \<open>Stop\<close> for nothing at all; merging
  keeps the more urgent of the two.
\<close>

definition urgency :: "next_run \<Rightarrow> nat \<times> nat" where
  "urgency n = (case n of Now \<Rightarrow> (0, 0) | WakeOr d \<Rightarrow> (1, unat d) | Wake \<Rightarrow> (2, 0) | Stop \<Rightarrow> (3, 0))"

definition more_urgent :: "next_run \<Rightarrow> next_run \<Rightarrow> bool" where
  "more_urgent a b \<longleftrightarrow> fst (urgency a) < fst (urgency b) \<or>
     fst (urgency a) = fst (urgency b) \<and> snd (urgency a) \<le> snd (urgency b)"

lemma urgency_inject: "urgency a = urgency b \<longleftrightarrow> a = b"
  by (cases a; cases b) (simp_all add: urgency_def word_unat_eq_iff)

lemma Next_merge_least: "Next_merge a b = (if more_urgent a b then a else b)"
  by (cases a; cases b) (simp_all add: more_urgent_def urgency_def word_le_nat_alt)

lemma more_urgent_total: "more_urgent a b \<or> more_urgent b a"
  by (auto simp: more_urgent_def)

lemma more_urgent_antisym: "more_urgent a b \<Longrightarrow> more_urgent b a \<Longrightarrow> a = b"
  using urgency_inject [of a b] by (auto simp: more_urgent_def prod_eq_iff)

lemma more_urgent_trans: "more_urgent a b \<Longrightarrow> more_urgent b c \<Longrightarrow> more_urgent a c"
  by (auto simp: more_urgent_def)

interpretation merge: semilattice_neutr Next_merge Stop
proof
  show "Next_merge (Next_merge a b) c = Next_merge a (Next_merge b c)" for a b c
    by (cases a; cases b; cases c) auto
  show "Next_merge a b = Next_merge b a" for a b
    using more_urgent_total more_urgent_antisym by (auto simp: Next_merge_least)
  show "Next_merge a a = a" for a
    by (simp add: Next_merge_least)
  show "Next_merge a Stop = a" for a
    by (cases a) simp_all
qed

lemma Next_merge_Now [simp]: "Next_merge a Now = Now"
  by (cases a) simp_all

lemma Next_merge_Stop_iff: "Next_merge a b = Stop \<longleftrightarrow> a = Stop \<and> b = Stop"
  by (cases a; cases b) simp_all

lemma Turn_merge_algebra:
  "Turn_merge (Turn_merge a b) c = Turn_merge a (Turn_merge b c) \<and> Turn_merge a b = Turn_merge b a"
proof
  show "Turn_merge (Turn_merge a b) c = Turn_merge a (Turn_merge b c)"
    by (simp add: Turn_merge_def WorkCount_saturating_add_def merge.assoc saturating_add_assoc)
  show "Turn_merge a b = Turn_merge b a"
    unfolding Turn_merge_def WorkCount_saturating_add_def
    by (simp only: merge.commute [of "turn_next a"] saturating_add_comm [of "turn_work a"])
qed

section \<open>The bounded wait\<close>

lemma bounded_wait_le_ceiling: "Next_bounded_wait n now ceiling \<le> ceiling"
  by (cases n) (simp_all add: Span_min_eq_min Span_ZERO_def)

lemma remaining_mono: "a \<le> b \<Longrightarrow> Deadline_remaining_at a now \<le> Deadline_remaining_at b now"
  by (simp add: word_le_nat_alt Deadline_remaining_at_unat)

lemma min_min_cap: "min (min x c) (min y c) = min (min x y) c" for x y c :: "'a::linorder"
  by (metis min.assoc min.commute min.idem)

lemma bounded_wait_merge_min:
  "Next_bounded_wait (Next_merge a b) now ceiling =
     min (Next_bounded_wait a now ceiling) (Next_bounded_wait b now ceiling)"
proof (cases "\<exists>d e. a = WakeOr d \<and> b = WakeOr e")
  case True
  then obtain d e where ab: "a = WakeOr d" "b = WakeOr e"
    by blast
  then show ?thesis
    using remaining_mono [of d e now] remaining_mono [of e d now]
    by (cases "d \<le> e") (simp_all add: Span_min_eq_min min_min_cap min.absorb1 min.absorb2)
next
  case False
  then show ?thesis
    by (cases a; cases b) (auto simp: Span_min_eq_min Span_ZERO_def min_def)
qed

text \<open>A wait derived from a deadline never sleeps past it.\<close>

lemma bounded_wait_before_deadline:
  "now \<le> d \<Longrightarrow> unat now + unat (Next_bounded_wait (WakeOr d) now ceiling) \<le> unat d"
  by (auto simp: Span_min_def Deadline_remaining_at_unat word_le_nat_alt)

section \<open>Theorems\<close>

fun merge_all :: "next_run list \<Rightarrow> next_run" where
  "merge_all [] = Stop"
| "merge_all (n # ns) = Next_merge n (merge_all ns)"

lemma merge_all_append: "merge_all (ns @ ms) = Next_merge (merge_all ns) (merge_all ms)"
  by (induction ns) (simp_all add: merge.assoc merge.left_neutral)

text \<open>
  C39. The wait a host derives from everything its owner's parts reported is the least of the
  waits the parts asked for, capped by the ceiling, in whatever order the reports are merged.
\<close>

theorem merged_wait_is_least:
  "Next_bounded_wait (merge_all ns) now ceiling =
     Min (insert ceiling ((\<lambda>n. Next_bounded_wait n now ceiling) ` set ns))"
proof (induction ns)
  case (Cons n ns)
  then show ?case
    using bounded_wait_le_ceiling [of n now ceiling]
    by (cases "ns = []")
      (simp_all add: bounded_wait_merge_min insert_commute [of ceiling] min_absorb1)
qed simp

text \<open>
  Merging turns is associative and commutative, saturates the work counters instead of
  wrapping, and asks to stop only when both turns do.
\<close>

theorem turn_merge_laws:
  "Turn_merge (Turn_merge a b) c = Turn_merge a (Turn_merge b c) \<and>
   Turn_merge a b = Turn_merge b a \<and>
   unat (turn_work (Turn_merge a b)) = min (unat (turn_work a) + unat (turn_work b)) (2 ^ 64 - 1) \<and>
   (turn_next (Turn_merge a b) = Stop \<longleftrightarrow> turn_next a = Stop \<and> turn_next b = Stop)"
proof -
  have "turn_next (Turn_merge a b) = Stop \<longleftrightarrow> turn_next a = Stop \<and> turn_next b = Stop"
    by (simp add: Turn_merge_def Next_merge_Stop_iff)
  moreover have "unat (turn_work (Turn_merge a b)) =
      min (unat (turn_work a) + unat (turn_work b)) (2 ^ 64 - 1)"
    using unat_saturating_add [of "turn_work a" "turn_work b"]
    by (simp add: Turn_merge_def WorkCount_saturating_add_def)
  ultimately show ?thesis
    using Turn_merge_algebra [of a b c] by blast
qed

end
