(* ===== verification/Batch.thy ===== *)
theory Batch
  imports Ledger
begin

text \<open>
  The bounded event batch (\<open>batch/\<close>): a vector of measured events with a hard count limit and a
  hard limit on the bytes they retain. A rejected push returns the event with its failure; every
  other operation keeps the running byte total equal to the sum of the measured entries.
\<close>

section \<open>State\<close>

record event_batch_limits =
  bl_events :: usize
  bl_retained_bytes :: retained_bytes

record 'e batch_entry =
  be_event :: 'e
  be_retained :: retained_bytes

record 'e event_batch =
  eb_limits :: event_batch_limits
  eb_measure :: "'e \<Rightarrow> retained_bytes"
  eb_events :: "'e batch_entry list"
  eb_retained :: retained_bytes

record event_batch_snapshot =
  ebs_limits :: event_batch_limits
  ebs_events :: nat
  ebs_retained_bytes :: retained_bytes

datatype event_batch_failure =
  EventCapacity (batch_limit: usize)
| BatchRetainedOverflow (batch_current: retained_bytes) (batch_bytes: retained_bytes)
| BatchRetainedCapacity (batch_byte_limit: retained_bytes) (batch_current: retained_bytes)
    (batch_bytes: retained_bytes)

text \<open>An \<open>EventBatchError\<close> owns the rejected event.\<close>

record 'e event_batch_error =
  ebe_event :: 'e
  ebe_failure :: event_batch_failure

section \<open>Operations\<close>

definition EventBatch_with_measure ::
  "event_batch_limits \<Rightarrow> ('e \<Rightarrow> retained_bytes) \<Rightarrow> 'e event_batch" where
  "EventBatch_with_measure limits size_of =
     \<lparr> eb_limits = limits, eb_measure = size_of, eb_events = [], eb_retained = RetainedBytes_ZERO \<rparr>"

definition EventBatch_is_empty :: "'e event_batch \<Rightarrow> bool" where
  "EventBatch_is_empty self \<longleftrightarrow> eb_events self = []"

definition EventBatch_len :: "'e event_batch \<Rightarrow> nat" where
  "EventBatch_len self = length (eb_events self)"

definition EventBatch_iter :: "'e event_batch \<Rightarrow> 'e list" where
  "EventBatch_iter self = map be_event (eb_events self)"

definition EventBatch_first :: "'e event_batch \<Rightarrow> 'e option" where
  "EventBatch_first self =
     (case eb_events self of [] \<Rightarrow> None | entry # _ \<Rightarrow> Some (be_event entry))"

definition EventBatch_try_push ::
  "'e event_batch \<Rightarrow> 'e \<Rightarrow> 'e event_batch \<times> ('e event_batch_error + unit)" where
  "EventBatch_try_push self event =
     (if unat (bl_events (eb_limits self)) \<le> length (eb_events self)
      then (self, Inl \<lparr> ebe_event = event, ebe_failure = EventCapacity (bl_events (eb_limits self)) \<rparr>)
      else let retained = eb_measure self event in
        case RetainedBytes_checked_add (eb_retained self) retained of
          None \<Rightarrow> (self, Inl \<lparr> ebe_event = event,
                              ebe_failure = BatchRetainedOverflow (eb_retained self) retained \<rparr>)
        | Some next_retained \<Rightarrow>
            if bl_retained_bytes (eb_limits self) < next_retained
            then (self, Inl \<lparr> ebe_event = event,
                              ebe_failure = BatchRetainedCapacity (bl_retained_bytes (eb_limits self))
                                (eb_retained self) retained \<rparr>)
            else (self \<lparr> eb_events := eb_events self @ [\<lparr> be_event = event, be_retained = retained \<rparr>],
                         eb_retained := next_retained \<rparr>, Inr ()))"

definition batch_subtract_retained :: "retained_bytes \<Rightarrow> retained_bytes \<Rightarrow> retained_bytes run" where
  "batch_subtract_retained current removed = expect (RetainedBytes_checked_sub current removed)"

definition EventBatch_pop :: "'e event_batch \<Rightarrow> ('e event_batch \<times> 'e option) run" where
  "EventBatch_pop self =
     (if eb_events self = [] then Ret (self, None)
      else let entry = last (eb_events self) in
        and_then (batch_subtract_retained (eb_retained self) (be_retained entry)) (\<lambda>retained.
          Ret (self \<lparr> eb_events := butlast (eb_events self), eb_retained := retained \<rparr>,
               Some (be_event entry))))"

definition EventBatch_clear :: "'e event_batch \<Rightarrow> 'e event_batch" where
  "EventBatch_clear self = self \<lparr> eb_events := [], eb_retained := RetainedBytes_ZERO \<rparr>"

text \<open>
  \<open>drain\<close> hands out an iterator over the entries and leaves the batch empty once it is dropped,
  whatever part of it was consumed.
\<close>

definition EventBatch_drain :: "'e event_batch \<Rightarrow> 'e event_batch \<times> 'e batch_entry list" where
  "EventBatch_drain self =
     (self \<lparr> eb_events := [], eb_retained := RetainedBytes_ZERO \<rparr>, eb_events self)"

definition EventBatchDrain_next :: "'e batch_entry list \<Rightarrow> 'e batch_entry list \<times> 'e option" where
  "EventBatchDrain_next entries =
     (case entries of [] \<Rightarrow> ([], None) | entry # rest \<Rightarrow> (rest, Some (be_event entry)))"

definition EventBatchDrain_next_back :: "'e batch_entry list \<Rightarrow> 'e batch_entry list \<times> 'e option" where
  "EventBatchDrain_next_back entries =
     (if entries = [] then ([], None) else (butlast entries, Some (be_event (last entries))))"

definition EventBatch_snapshot :: "'e event_batch \<Rightarrow> event_batch_snapshot" where
  "EventBatch_snapshot self = \<lparr> ebs_limits = eb_limits self, ebs_events = length (eb_events self),
     ebs_retained_bytes = eb_retained self \<rparr>"

section \<open>Invariant\<close>

definition batch_sizes :: "'e event_batch \<Rightarrow> retained_bytes multiset" where
  "batch_sizes b = mset (map be_retained (eb_events b))"

definition batch_inv :: "'e event_batch \<Rightarrow> bool" where
  "batch_inv b \<longleftrightarrow>
     length (eb_events b) \<le> unat (bl_events (eb_limits b)) \<and>
     eb_retained b \<le> bl_retained_bytes (eb_limits b) \<and>
     unat (eb_retained b) = total_bytes (batch_sizes b) \<and>
     (\<forall>e\<in>set (eb_events b). be_retained e = eb_measure b (be_event e))"

interpretation batch: byte_ledger batch_inv eb_retained batch_sizes
  "\<lambda>b. bl_retained_bytes (eb_limits b)" "\<lambda>b. unat (bl_events (eb_limits b))"
  by unfold_locales (auto simp: batch_inv_def batch_sizes_def)

lemma batch_last_size: "eb_events b \<noteq> [] \<Longrightarrow> be_retained (last (eb_events b)) \<in># batch_sizes b"
  by (simp add: batch_sizes_def)

lemma batch_butlast_sizes:
  "eb_events b \<noteq> [] \<Longrightarrow>
   mset (map be_retained (butlast (eb_events b))) = batch_sizes b - {#be_retained (last (eb_events b))#}"
  by (cases "eb_events b" rule: rev_cases) (simp_all add: batch_sizes_def)

lemma batch_pop_eq:
  assumes "batch_inv b" "eb_events b \<noteq> []"
  shows "EventBatch_pop b = Ret
    (b \<lparr> eb_events := butlast (eb_events b),
         eb_retained := eb_retained b - be_retained (last (eb_events b)) \<rparr>,
     Some (be_event (last (eb_events b))))"
  using assms batch.release [OF _ batch_last_size, of b]
  by (simp add: EventBatch_pop_def batch_subtract_retained_def Let_def)

section \<open>Properties\<close>

lemma batch_inv_new: "batch_inv (EventBatch_with_measure limits size_of)"
  by (simp add: batch_inv_def EventBatch_with_measure_def batch_sizes_def RetainedBytes_ZERO_def)

text \<open>The exact conditions under which a push is accepted.\<close>

definition batch_admits :: "'e event_batch \<Rightarrow> 'e \<Rightarrow> bool" where
  "batch_admits b e \<longleftrightarrow>
     length (eb_events b) < unat (bl_events (eb_limits b)) \<and>
     unat (eb_retained b) + unat (eb_measure b e) \<le> unat (bl_retained_bytes (eb_limits b))"

lemma try_push_admitted:
  assumes "batch_admits b e"
  shows "EventBatch_try_push b e =
    (b \<lparr> eb_events := eb_events b @ [\<lparr> be_event = e, be_retained = eb_measure b e \<rparr>],
         eb_retained := eb_retained b + eb_measure b e \<rparr>, Inr ())"
proof -
  have small: "unat (eb_retained b) + unat (eb_measure b e) < 2 ^ 64"
    using assms unat_less_exp [of "bl_retained_bytes (eb_limits b)"]
    by (simp add: batch_admits_def)
  then have "unat (eb_retained b + eb_measure b e) = unat (eb_retained b) + unat (eb_measure b e)"
    by (simp add: unat_word_ariths)
  then have "\<not> bl_retained_bytes (eb_limits b) < eb_retained b + eb_measure b e"
    using assms by (simp add: batch_admits_def word_less_nat_alt)
  then show ?thesis
    using assms small
    by (simp add: EventBatch_try_push_def batch_admits_def RetainedBytes_checked_add_def
        checked_add_def Let_def)
qed

lemma try_push_rejected:
  assumes "\<not> batch_admits b e"
  shows "\<exists>f. EventBatch_try_push b e = (b, Inl \<lparr> ebe_event = e, ebe_failure = f \<rparr>)"
  using assms checked_add_SomeD [of "eb_retained b" "eb_measure b e"]
  by (auto simp: EventBatch_try_push_def batch_admits_def RetainedBytes_checked_add_def Let_def
      word_less_nat_alt split: option.split)

lemma batch_inv_try_push:
  assumes "batch_inv b"
  shows "batch_inv (fst (EventBatch_try_push b e))"
proof (cases "batch_admits b e")
  case True
  then have "unat (eb_retained b + eb_measure b e) = unat (eb_retained b) + unat (eb_measure b e)"
    using unat_less_exp [of "bl_retained_bytes (eb_limits b)"]
    by (simp add: batch_admits_def unat_word_ariths)
  then show ?thesis
    using assms True
    by (auto simp: try_push_admitted batch_inv_def batch_sizes_def batch_admits_def word_le_nat_alt)
next
  case False
  then show ?thesis
    using assms try_push_rejected [of b e] by auto
qed

lemma batch_inv_pop:
  assumes "batch_inv b"
  shows "\<exists>b' r. EventBatch_pop b = Ret (b', r) \<and> batch_inv b' \<and>
    EventBatch_iter b = EventBatch_iter b' @ (case r of None \<Rightarrow> [] | Some e \<Rightarrow> [e])"
proof (cases "eb_events b = []")
  case True
  then show ?thesis
    using assms by (simp add: EventBatch_pop_def EventBatch_iter_def)
next
  case False
  let ?b = "b \<lparr> eb_events := butlast (eb_events b),
    eb_retained := eb_retained b - be_retained (last (eb_events b)) \<rparr>"
  have "unat (eb_retained ?b) = total_bytes (batch_sizes ?b)"
    using batch.release_balanced [OF assms batch_last_size [OF False]] batch_butlast_sizes [OF False]
    by (simp add: batch_sizes_def)
  moreover have "eb_retained ?b \<le> bl_retained_bytes (eb_limits b)"
    using batch.release_within [OF assms batch_last_size [OF False]] by simp
  ultimately have "batch_inv ?b"
    using assms by (auto simp: batch_inv_def dest: in_set_butlastD)
  moreover have "EventBatch_iter b = EventBatch_iter ?b @ [be_event (last (eb_events b))]"
    using False by (cases "eb_events b" rule: rev_cases) (simp_all add: EventBatch_iter_def)
  ultimately show ?thesis
    using batch_pop_eq [OF assms False] by auto
qed

lemma batch_inv_empty:
  "batch_inv (EventBatch_clear b)" "batch_inv (fst (EventBatch_drain b))"
  by (simp_all add: batch_inv_def EventBatch_clear_def EventBatch_drain_def batch_sizes_def
      RetainedBytes_ZERO_def)

text \<open>Draining from either end returns the pushed events in order, each exactly once.\<close>

fun drain_front :: "nat \<Rightarrow> 'e batch_entry list \<Rightarrow> 'e list" where
  "drain_front 0 entries = []"
| "drain_front (Suc n) entries =
     (case EventBatchDrain_next entries of
        (_, None) \<Rightarrow> []
      | (rest, Some e) \<Rightarrow> e # drain_front n rest)"

lemma drain_front_take: "drain_front n es = take n (map be_event es)"
  by (induction n arbitrary: es) (auto simp: EventBatchDrain_next_def split: list.split)

text \<open>A drain taken from both ends: each step says which end, and yields what that end hands out.\<close>

fun drain_ends :: "bool list \<Rightarrow> 'e batch_entry list \<Rightarrow> 'e list \<times> 'e batch_entry list \<times> 'e list" where
  "drain_ends [] entries = ([], entries, [])"
| "drain_ends (from_front # steps) entries =
     (let (rest, event) = (if from_front then EventBatchDrain_next entries else EventBatchDrain_next_back entries);
          (fronts, left, backs) = drain_ends steps rest in
      case event of
        None \<Rightarrow> (fronts, left, backs)
      | Some e \<Rightarrow> if from_front then (e # fronts, left, backs) else (fronts, left, backs @ [e]))"

lemma drain_ends_meet:
  "case drain_ends steps es of (fronts, left, backs) \<Rightarrow>
     fronts @ map be_event left @ backs = map be_event es \<and>
     length fronts + length backs = min (length steps) (length es)"
proof (induction steps arbitrary: es)
  case (Cons from_front steps)
  show ?case
  proof (cases "es = []")
    case True
    then show ?thesis
      using Cons.IH [of "[]"]
      by (auto simp: EventBatchDrain_next_def EventBatchDrain_next_back_def split: prod.splits)
  next
    case False
    show ?thesis
    proof (cases from_front)
      case True
      with False show ?thesis
        using Cons.IH [of "tl es"]
        by (cases es) (auto simp: EventBatchDrain_next_def split: prod.splits)
    next
      case from_end: False
      obtain fronts left backs where rest: "drain_ends steps (butlast es) = (fronts, left, backs)"
        by (rule prod_cases3)
      have "map be_event es = map be_event (butlast es) @ [be_event (last es)]"
        using arg_cong [OF append_butlast_last_id [OF False], of "map be_event"] by simp
      also have "map be_event (butlast es) = fronts @ map be_event left @ backs"
        using Cons.IH [of "butlast es"] rest by simp
      finally have "fronts @ map be_event left @ backs @ [be_event (last es)] = map be_event es"
        by simp
      moreover have "Suc (min (length steps) (length es - Suc 0)) = min (Suc (length steps)) (length es)"
        using False by (cases es) simp_all
      ultimately show ?thesis
        using False from_end rest Cons.IH [of "butlast es"]
        by (auto simp: EventBatchDrain_next_back_def)
    qed
  qed
qed simp

section \<open>Theorems\<close>

text \<open>
  C28. A push into a bounded batch is accepted exactly when both limits leave room for it; then
  the event is appended and the invariant (limits, byte total equal to the sum of the measured
  entries) still holds. Otherwise the batch is unchanged and the error owns the event.
\<close>

theorem batch_push_exact:
  assumes "batch_inv b"
  shows "case EventBatch_try_push b e of
      (b', Inr _) \<Rightarrow> batch_admits b e \<and> batch_inv b' \<and> EventBatch_iter b' = EventBatch_iter b @ [e]
    | (b', Inl error) \<Rightarrow> \<not> batch_admits b e \<and> b' = b \<and> ebe_event error = e"
proof (cases "batch_admits b e")
  case True
  then show ?thesis
    using batch_inv_try_push [OF assms, of e] by (simp add: try_push_admitted EventBatch_iter_def)
next
  case False
  then show ?thesis
    using try_push_rejected [of b e] by auto
qed

definition batch_demo :: "nat event_batch" where
  "batch_demo = EventBatch_with_measure \<lparr> bl_events = 2, bl_retained_bytes = 10 \<rparr> of_nat"

theorem batch_push_exact_witness:
  "case EventBatch_try_push batch_demo 7 of
      (b', Inr _) \<Rightarrow> batch_admits batch_demo 7 \<and> batch_inv b' \<and>
        EventBatch_iter b' = EventBatch_iter batch_demo @ [7]
    | (b', Inl error) \<Rightarrow> \<not> batch_admits batch_demo 7 \<and> b' = batch_demo \<and> ebe_event error = 7"
  by (rule batch_push_exact) (simp add: batch_demo_def batch_inv_new)

text \<open>
  C29. Popping and draining never hit the accounting panic: a pop returns the newest event and
  keeps the invariant, and a drain hands out every event in order and leaves an empty batch. Taken from
  both ends in any order, what came from the front, what is left and what came from the end are the
  batch's events in order, and each step takes one while there is one. Clearing empties the batch too.
\<close>

theorem batch_pop_drain_exact:
  assumes "batch_inv b"
  shows "(\<exists>b' r. EventBatch_pop b = Ret (b', r) \<and> batch_inv b' \<and>
       EventBatch_iter b = EventBatch_iter b' @ (case r of None \<Rightarrow> [] | Some e \<Rightarrow> [e]) \<and>
       (r = None \<longleftrightarrow> EventBatch_is_empty b)) \<and>
     (\<forall>n. drain_front n (snd (EventBatch_drain b)) = take n (EventBatch_iter b)) \<and>
     batch_inv (fst (EventBatch_drain b)) \<and> EventBatch_is_empty (fst (EventBatch_drain b)) \<and>
     eb_retained (fst (EventBatch_drain b)) = 0 \<and>
     (\<forall>steps. case drain_ends steps (snd (EventBatch_drain b)) of (fronts, left, backs) \<Rightarrow>
        fronts @ map be_event left @ backs = EventBatch_iter b \<and>
        length fronts + length backs = min (length steps) (length (EventBatch_iter b))) \<and>
     batch_inv (EventBatch_clear b) \<and> EventBatch_is_empty (EventBatch_clear b) \<and> eb_retained (EventBatch_clear b) = 0"
proof -
  obtain b' r where pop: "EventBatch_pop b = Ret (b', r)" "batch_inv b'"
      "EventBatch_iter b = EventBatch_iter b' @ (case r of None \<Rightarrow> [] | Some e \<Rightarrow> [e])"
    using batch_inv_pop [OF assms] by blast
  moreover have "r = None \<longleftrightarrow> EventBatch_is_empty b"
    using pop(1) batch_pop_eq [OF assms] by (cases "eb_events b = []")
      (auto simp: EventBatch_is_empty_def EventBatch_pop_def)
  moreover have "\<forall>n. drain_front n (snd (EventBatch_drain b)) = take n (EventBatch_iter b)"
    by (simp add: EventBatch_drain_def drain_front_take EventBatch_iter_def)
  moreover have "\<forall>steps. case drain_ends steps (snd (EventBatch_drain b)) of (fronts, left, backs) \<Rightarrow>
        fronts @ map be_event left @ backs = EventBatch_iter b \<and>
        length fronts + length backs = min (length steps) (length (EventBatch_iter b))"
    using drain_ends_meet [where es = "eb_events b"] by (simp add: EventBatch_drain_def EventBatch_iter_def)
  moreover have "EventBatch_is_empty (fst (EventBatch_drain b))" "eb_retained (fst (EventBatch_drain b)) = 0"
    "EventBatch_is_empty (EventBatch_clear b)" "eb_retained (EventBatch_clear b) = 0"
    by (simp_all add: EventBatch_drain_def EventBatch_clear_def EventBatch_is_empty_def RetainedBytes_ZERO_def)
  ultimately show ?thesis
    using batch_inv_empty [of b] by blast
qed

theorem batch_pop_drain_exact_witness:
  "\<exists>b'. EventBatch_pop (fst (EventBatch_try_push batch_demo 7)) = Ret (b', Some 7) \<and> EventBatch_is_empty b'"
proof -
  let ?b = "fst (EventBatch_try_push batch_demo 7)"
  have demo: "batch_inv batch_demo"
    by (simp add: batch_demo_def batch_inv_new)
  have held: "EventBatch_iter ?b = [7]"
    by (simp add: batch_demo_def EventBatch_with_measure_def EventBatch_try_push_def EventBatch_iter_def
        RetainedBytes_checked_add_def RetainedBytes_ZERO_def checked_add_def Let_def)
  have "batch_inv ?b"
    by (rule batch_inv_try_push [OF demo])
  then obtain b' r where "EventBatch_pop ?b = Ret (b', r)" "[7] = EventBatch_iter b' @ (case r of None \<Rightarrow> [] | Some e \<Rightarrow> [e])"
      "r = None \<longleftrightarrow> EventBatch_is_empty ?b"
    using batch_pop_drain_exact [of ?b] unfolding held by blast
  then show ?thesis
    using held by (cases r) (auto simp: EventBatch_is_empty_def EventBatch_iter_def append_eq_Cons_conv)
qed

end
