(* ===== verification/Resource.thy ===== *)
theory Resource
  imports Prelude
begin

text \<open>
  The bounded resource table (\<open>resource/\<close>): preallocated slots, each vacant at a generation,
  occupied at a generation, or retired for good, and tokens that name an owner, a slot and a
  generation. The table refines a finite map from tokens to (identity, resource) pairs; a token
  that was removed is never accepted again, whatever is admitted afterwards.
\<close>

section \<open>Tokens and slots\<close>

type_synonym resource_owner_id = u64
type_synonym resource_slot_id = u64
type_synonym resource_generation = u64

definition ResourceGeneration_INITIAL :: resource_generation where
  "ResourceGeneration_INITIAL = 0"

definition ResourceGeneration_MAX :: resource_generation where
  "ResourceGeneration_MAX = - 1"

definition ResourceGeneration_checked_next :: "resource_generation \<Rightarrow> resource_generation option" where
  "ResourceGeneration_checked_next self = checked_add self 1"

datatype resource_token = ResourceToken (token_owner: resource_owner_id)
  (token_slot: resource_slot_id) (token_generation: resource_generation)

datatype ('k, 'r) slot =
  Vacant resource_generation
| Occupied resource_generation 'k 'r
| Exhausted

datatype resource_token_failure =
  OwnerMismatch resource_owner_id resource_owner_id
| SlotOutOfBounds resource_slot_id usize
| SlotVacant resource_slot_id resource_generation
| GenerationMismatch resource_slot_id resource_generation resource_generation
| SlotExhausted resource_slot_id

datatype resource_admission_failure =
  IdentityInUse
| CapacityReached usize
| TokenSpaceExhausted

record ('k, 'r) resource_admission_error =
  rae_identity :: 'k
  rae_resource :: 'r
  rae_failure :: resource_admission_failure

record ('k, 'r) resource_table =
  rt_owner :: resource_owner_id
  rt_capacity :: usize
  rt_slots :: "('k, 'r) slot list"
  rt_active :: usize
  rt_exhausted :: usize

record resource_table_snapshot =
  rts_owner :: resource_owner_id
  rts_capacity :: usize
  rts_active :: usize
  rts_vacant :: usize
  rts_exhausted :: usize

fun slot_token_failure :: "('k, 'r) slot \<Rightarrow> resource_token \<Rightarrow> resource_token_failure" where
  "slot_token_failure (Vacant generation) token = SlotVacant (token_slot token) generation"
| "slot_token_failure (Occupied generation _ _) token =
     GenerationMismatch (token_slot token) generation (token_generation token)"
| "slot_token_failure Exhausted token = SlotExhausted (token_slot token)"

section \<open>Operations\<close>

definition ResourceTable_starting_at ::
  "resource_owner_id \<Rightarrow> usize \<Rightarrow> resource_generation \<Rightarrow> ('k, 'r) resource_table" where
  "ResourceTable_starting_at owner capacity generation =
     \<lparr> rt_owner = owner, rt_capacity = capacity,
       rt_slots = replicate (unat capacity) (Vacant generation), rt_active = 0, rt_exhausted = 0 \<rparr>"

definition ResourceTable_new :: "resource_owner_id \<Rightarrow> usize \<Rightarrow> ('k, 'r) resource_table" where
  "ResourceTable_new owner capacity =
     ResourceTable_starting_at owner capacity ResourceGeneration_INITIAL"

definition ResourceTable_is_empty :: "('k, 'r) resource_table \<Rightarrow> bool" where
  "ResourceTable_is_empty self \<longleftrightarrow> rt_active self = 0"

text \<open>
  An index is a \<open>usize\<close>, which always fits the \<open>u64\<close> of a slot identity on a 64-bit target, so
  the panic of \<open>slot_id\<close> is unreachable and the conversion is a plain \<open>of_nat\<close>.
\<close>

definition slot_id :: "nat \<Rightarrow> resource_slot_id" where
  "slot_id index = of_nat index"

definition ResourceTable_iter :: "('k, 'r) resource_table \<Rightarrow> (resource_token \<times> 'k \<times> 'r) list" where
  "ResourceTable_iter self =
     List.map_filter (\<lambda>(index, slot). case slot of
         Occupied generation identity resource \<Rightarrow>
           Some (ResourceToken (rt_owner self) (slot_id index) generation, identity, resource)
       | Vacant _ \<Rightarrow> None | Exhausted \<Rightarrow> None) (enumerate 0 (rt_slots self))"

definition ResourceTable_contains_identity :: "('k, 'r) resource_table \<Rightarrow> 'k \<Rightarrow> bool" where
  "ResourceTable_contains_identity self identity \<longleftrightarrow>
     list_ex (\<lambda>slot. case slot of Occupied _ current _ \<Rightarrow> current = identity | _ \<Rightarrow> False)
       (rt_slots self)"

definition ResourceTable_next_vacant ::
  "('k, 'r) resource_table \<Rightarrow> (nat \<times> resource_generation) option" where
  "ResourceTable_next_vacant self =
     find_map (\<lambda>(index, slot). case slot of
         Vacant generation \<Rightarrow> Some (index, generation)
       | Occupied _ _ _ \<Rightarrow> None | Exhausted \<Rightarrow> None) (enumerate 0 (rt_slots self))"

definition ResourceTable_admit ::
  "('k, 'r) resource_table \<Rightarrow> 'k \<Rightarrow> 'r \<Rightarrow>
   (('k, 'r) resource_table \<times> (('k, 'r) resource_admission_error + resource_token)) run" where
  "ResourceTable_admit self identity resource =
     (let rejected = (\<lambda>failure. Ret (self, Inl \<lparr> rae_identity = identity,
            rae_resource = resource, rae_failure = failure \<rparr>)) in
      if ResourceTable_contains_identity self identity then rejected IdentityInUse
      else if rt_active self = rt_capacity self then rejected (CapacityReached (rt_capacity self))
      else case ResourceTable_next_vacant self of
        None \<Rightarrow> rejected TokenSpaceExhausted
      | Some (index, generation) \<Rightarrow>
          and_then (expect (checked_add (rt_active self) 1)) (\<lambda>active.
            Ret (self \<lparr> rt_slots := (rt_slots self)[index := Occupied generation identity resource],
                        rt_active := active \<rparr>,
                 Inr (ResourceToken (rt_owner self) (slot_id index) generation))))"

definition ResourceTable_token_for :: "('k, 'r) resource_table \<Rightarrow> 'k \<Rightarrow> resource_token option" where
  "ResourceTable_token_for self identity =
     find_map (\<lambda>(index, slot). case slot of
         Occupied generation current _ \<Rightarrow>
           if current = identity
           then Some (ResourceToken (rt_owner self) (slot_id index) generation) else None
       | Vacant _ \<Rightarrow> None | Exhausted \<Rightarrow> None) (enumerate 0 (rt_slots self))"

definition validate_owner_and_slot ::
  "('k, 'r) resource_table \<Rightarrow> resource_token \<Rightarrow> resource_token_failure + nat" where
  "validate_owner_and_slot self token =
     (if token_owner token \<noteq> rt_owner self
      then Inl (OwnerMismatch (rt_owner self) (token_owner token))
      else let index = unat (token_slot token) in
        if unat (rt_capacity self) \<le> index
        then Inl (SlotOutOfBounds (token_slot token) (rt_capacity self))
        else Inr index)"

definition validate_token ::
  "('k, 'r) resource_table \<Rightarrow> resource_token \<Rightarrow> resource_token_failure + nat" where
  "validate_token self token =
     (case validate_owner_and_slot self token of
        Inl failure \<Rightarrow> Inl failure
      | Inr index \<Rightarrow>
          (case rt_slots self ! index of
             Occupied generation _ _ \<Rightarrow>
               if generation = token_generation token then Inr index
               else Inl (slot_token_failure (rt_slots self ! index) token)
           | slot \<Rightarrow> Inl (slot_token_failure slot token)))"

definition ResourceTable_get ::
  "('k, 'r) resource_table \<Rightarrow> resource_token \<Rightarrow> resource_token_failure + 'k \<times> 'r" where
  "ResourceTable_get self token =
     (case validate_owner_and_slot self token of
        Inl failure \<Rightarrow> Inl failure
      | Inr index \<Rightarrow>
          (case rt_slots self ! index of
             Occupied generation identity resource \<Rightarrow>
               if generation = token_generation token then Inr (identity, resource)
               else Inl (slot_token_failure (rt_slots self ! index) token)
           | slot \<Rightarrow> Inl (slot_token_failure slot token)))"

text \<open>
  \<open>get_mut\<close> hands out a mutable reference; \<open>edit\<close> is what the caller does through it, and the
  identity is only borrowed immutably.
\<close>

definition ResourceTable_get_mut ::
  "('r \<Rightarrow> 'r) \<Rightarrow> ('k, 'r) resource_table \<Rightarrow> resource_token \<Rightarrow>
   ('k, 'r) resource_table \<times> (resource_token_failure + 'k \<times> 'r)" where
  "ResourceTable_get_mut edit self token =
     (case validate_token self token of
        Inl failure \<Rightarrow> (self, Inl failure)
      | Inr index \<Rightarrow>
          (case rt_slots self ! index of
             Occupied generation identity resource \<Rightarrow>
               (self \<lparr> rt_slots := (rt_slots self)[index := Occupied generation identity (edit resource)] \<rparr>,
                Inr (identity, edit resource))
           | slot \<Rightarrow> (self, Inl (slot_token_failure slot token))))"

definition ResourceTable_remove ::
  "('k, 'r) resource_table \<Rightarrow> resource_token \<Rightarrow>
   (('k, 'r) resource_table \<times> (resource_token_failure + 'k \<times> 'r)) run" where
  "ResourceTable_remove self token =
     (case validate_token self token of
        Inl failure \<Rightarrow> Ret (self, Inl failure)
      | Inr index \<Rightarrow>
          (case rt_slots self ! index of
             Occupied generation identity resource \<Rightarrow>
               and_then (expect (checked_sub (rt_active self) 1)) (\<lambda>active.
                 case ResourceGeneration_checked_next generation of
                   Some nxt \<Rightarrow>
                     Ret (self \<lparr> rt_slots := (rt_slots self)[index := Vacant nxt],
                                 rt_active := active \<rparr>, Inr (identity, resource))
                 | None \<Rightarrow>
                     and_then (expect (checked_add (rt_exhausted self) 1)) (\<lambda>exhausted.
                       Ret (self \<lparr> rt_slots := (rt_slots self)[index := Exhausted],
                                   rt_active := active, rt_exhausted := exhausted \<rparr>,
                            Inr (identity, resource))))
           | _ \<Rightarrow> Panic))"

definition ResourceTable_snapshot :: "('k, 'r) resource_table \<Rightarrow> resource_table_snapshot run" where
  "ResourceTable_snapshot self =
     and_then (expect (checked_add (rt_active self) (rt_exhausted self))) (\<lambda>unavailable.
       and_then (expect (checked_sub (rt_capacity self) unavailable)) (\<lambda>vacant.
         Ret \<lparr> rts_owner = rt_owner self, rts_capacity = rt_capacity self,
               rts_active = rt_active self, rts_vacant = vacant,
               rts_exhausted = rt_exhausted self \<rparr>))"

section \<open>Specification: a finite map from tokens\<close>

fun is_occupied :: "('k, 'r) slot \<Rightarrow> bool" where
  "is_occupied (Occupied _ _ _) = True"
| "is_occupied _ = False"

fun is_exhausted :: "('k, 'r) slot \<Rightarrow> bool" where
  "is_exhausted Exhausted = True"
| "is_exhausted _ = False"

fun slot_identity :: "('k, 'r) slot \<Rightarrow> 'k option" where
  "slot_identity (Occupied _ k _) = Some k"
| "slot_identity _ = None"

fun slot_content :: "('k, 'r) slot \<Rightarrow> resource_generation \<Rightarrow> ('k \<times> 'r) option" where
  "slot_content (Occupied g k r) g' = (if g = g' then Some (k, r) else None)"
| "slot_content _ _ = None"

definition token_in :: "('k, 'r) resource_table \<Rightarrow> resource_token \<Rightarrow> bool" where
  "token_in t tok \<longleftrightarrow> token_owner tok = rt_owner t \<and> unat (token_slot tok) < length (rt_slots t)"

definition token_map :: "('k, 'r) resource_table \<Rightarrow> resource_token \<Rightarrow> ('k \<times> 'r) option" where
  "token_map t tok =
     (if token_in t tok then slot_content (rt_slots t ! unat (token_slot tok)) (token_generation tok)
      else None)"

text \<open>
  The generations a slot has behind it: those below its current one, all of them once it is
  exhausted. A token below that floor is spent.
\<close>

fun slot_floor :: "('k, 'r) slot \<Rightarrow> nat" where
  "slot_floor (Vacant g) = unat g"
| "slot_floor (Occupied g _ _) = unat g"
| "slot_floor Exhausted = 2 ^ 64"

definition spent :: "('k, 'r) resource_table \<Rightarrow> resource_token \<Rightarrow> bool" where
  "spent t tok \<longleftrightarrow> token_in t tok \<and>
     unat (token_generation tok) < slot_floor (rt_slots t ! unat (token_slot tok))"

definition identities_distinct :: "('k, 'r) slot list \<Rightarrow> bool" where
  "identities_distinct slots \<longleftrightarrow>
     (\<forall>i<length slots. \<forall>j<length slots. \<forall>k.
        slot_identity (slots ! i) = Some k \<longrightarrow> slot_identity (slots ! j) = Some k \<longrightarrow> i = j)"

definition resource_inv :: "('k, 'r) resource_table \<Rightarrow> bool" where
  "resource_inv t \<longleftrightarrow>
     length (rt_slots t) = unat (rt_capacity t) \<and>
     unat (rt_active t) = length (filter is_occupied (rt_slots t)) \<and>
     unat (rt_exhausted t) = length (filter is_exhausted (rt_slots t)) \<and>
     identities_distinct (rt_slots t)"

lemma resource_inv_length: "resource_inv t \<Longrightarrow> length (rt_slots t) = unat (rt_capacity t)"
  by (simp add: resource_inv_def)

lemma slot_id_unat:
  "resource_inv t \<Longrightarrow> i < length (rt_slots t) \<Longrightarrow> unat (slot_id i) = i"
  using unat_less_exp [of "rt_capacity t"]
  by (simp add: resource_inv_def slot_id_def unat_of_nat take_bit_nat_eq_self_iff)

lemma token_at_iff:
  assumes "resource_inv t" "i < length (rt_slots t)"
  shows "token_in t x \<and> unat (token_slot x) = i \<and> token_generation x = g \<longleftrightarrow>
    x = ResourceToken (rt_owner t) (slot_id i) g"
proof (cases x)
  case (ResourceToken ow sl ge)
  have "unat sl = i \<longleftrightarrow> sl = slot_id i"
    unfolding word_unat_eq_iff [of sl] slot_id_unat [OF assms] ..
  then show ?thesis
    using assms(2) ResourceToken by (auto simp: token_in_def slot_id_unat [OF assms])
qed

lemma slot_content_Some_iff: "slot_content s g = Some (k, r) \<longleftrightarrow> s = Occupied g k r"
  by (cases s) auto

lemma is_occupied_iff: "is_occupied s \<longleftrightarrow> (\<exists>g k r. s = Occupied g k r)"
  by (cases s) auto

lemma slot_identity_Some_iff: "slot_identity s = Some k \<longleftrightarrow> (\<exists>g r. s = Occupied g k r)"
  by (cases s) auto

lemma contains_identity_iff:
  "ResourceTable_contains_identity t k \<longleftrightarrow>
     (\<exists>i<length (rt_slots t). slot_identity (rt_slots t ! i) = Some k)"
proof -
  have "(case s of Occupied _ current _ \<Rightarrow> current = k | _ \<Rightarrow> False) \<longleftrightarrow> slot_identity s = Some k"
    for s :: "('a, 'b) slot"
    by (cases s) auto
  then show ?thesis
    by (simp add: ResourceTable_contains_identity_def list_ex_length)
qed

lemma next_vacant_SomeD:
  "ResourceTable_next_vacant t = Some (i, g) \<Longrightarrow> i < length (rt_slots t) \<and> rt_slots t ! i = Vacant g"
  by (auto simp: ResourceTable_next_vacant_def dest!: find_map_enumerate_SomeD split: slot.splits)

lemma next_vacant_None_iff:
  "ResourceTable_next_vacant t = None \<longleftrightarrow> (\<forall>s\<in>set (rt_slots t). is_occupied s \<or> is_exhausted s)"
proof -
  have "(case s of Vacant g \<Rightarrow> Some (i, g) | _ \<Rightarrow> None) = None \<longleftrightarrow> is_occupied s \<or> is_exhausted s"
    for i :: nat and s :: "('a, 'b) slot"
    by (cases s) auto
  then show ?thesis
    by (simp add: ResourceTable_next_vacant_def find_map_enumerate_None_iff all_set_conv_all_nth)
qed

lemma validate_token_iff:
  assumes "resource_inv t"
  shows "validate_token t tok = Inr i \<longleftrightarrow>
    token_in t tok \<and> i = unat (token_slot tok) \<and> (\<exists>k r. rt_slots t ! i = Occupied (token_generation tok) k r)"
  using resource_inv_length [OF assms]
  by (auto simp: validate_token_def validate_owner_and_slot_def token_in_def Let_def
      split: slot.split)

lemma validate_token_map:
  assumes "resource_inv t"
  shows "(\<exists>f. validate_token t tok = Inl f) \<longleftrightarrow> token_map t tok = None"
proof -
  have "(\<exists>f. validate_token t tok = Inl f) \<longleftrightarrow> (\<forall>i. validate_token t tok \<noteq> Inr i)"
    by (metis Inr_not_Inl sumE)
  also have "\<dots> \<longleftrightarrow> token_map t tok = None"
    by (auto simp: validate_token_iff [OF assms] token_map_def slot_content_Some_iff
        simp flip: not_Some_eq)
  finally show ?thesis .
qed

lemma get_refines:
  assumes "resource_inv t"
  shows "ResourceTable_get t tok = Inr v \<longleftrightarrow> token_map t tok = Some v"
  using resource_inv_length [OF assms]
  by (auto simp: ResourceTable_get_def validate_owner_and_slot_def token_in_def token_map_def Let_def
      split: slot.split)

lemma identities_distinct_update:
  assumes "identities_distinct slots" "i < length slots"
    and "\<And>j k. j < length slots \<Longrightarrow> j \<noteq> i \<Longrightarrow> slot_identity s = Some k \<Longrightarrow> slot_identity (slots ! j) \<noteq> Some k"
  shows "identities_distinct (slots[i := s])"
  unfolding identities_distinct_def
proof (intro allI impI)
  fix a b k
  assume "a < length (slots[i := s])" "b < length (slots[i := s])"
    "slot_identity (slots[i := s] ! a) = Some k" "slot_identity (slots[i := s] ! b) = Some k"
  then show "a = b"
    using assms(3) [of a k] assms(3) [of b k] assms(1)
    by (cases "a = i"; cases "b = i") (auto simp: identities_distinct_def)
qed

lemma resource_inv_update:
  assumes "resource_inv t" "i < length (rt_slots t)"
    and "unat a + of_bool (is_occupied (rt_slots t ! i)) = unat (rt_active t) + of_bool (is_occupied s)"
    and "unat x + of_bool (is_exhausted (rt_slots t ! i)) = unat (rt_exhausted t) + of_bool (is_exhausted s)"
    and "\<And>j k. j < length (rt_slots t) \<Longrightarrow> j \<noteq> i \<Longrightarrow> slot_identity s = Some k \<Longrightarrow>
      slot_identity (rt_slots t ! j) \<noteq> Some k"
  shows "resource_inv (t \<lparr> rt_slots := (rt_slots t)[i := s], rt_active := a, rt_exhausted := x \<rparr>)"
proof -
  have occ: "length (filter is_occupied ((rt_slots t)[i := s])) = unat a"
    using length_filter_update [OF assms(2), of is_occupied s] assms(1,3)
    by (simp add: resource_inv_def)
  have exh: "length (filter is_exhausted ((rt_slots t)[i := s])) = unat x"
    using length_filter_update [OF assms(2), of is_exhausted s] assms(1,4)
    by (simp add: resource_inv_def)
  show ?thesis
    using assms(1,2,5) occ exh identities_distinct_update [of "rt_slots t" i s]
    by (simp add: resource_inv_def)
qed

section \<open>Refinement\<close>

lemma filter_complement_le:
  "(\<And>x. x \<in> set xs \<Longrightarrow> \<not> (P x \<and> Q x)) \<Longrightarrow> length (filter P xs) + length (filter Q xs) \<le> length xs"
  by (induction xs) (auto intro: le_SucI)

lemma resource_counts_le:
  assumes "resource_inv t"
  shows "unat (rt_active t) + unat (rt_exhausted t) \<le> unat (rt_capacity t)"
proof -
  have "\<not> (is_occupied s \<and> is_exhausted s)" for s :: "('a, 'b) slot"
    by (cases s) auto
  then show ?thesis
    using assms filter_complement_le [of "rt_slots t" is_occupied is_exhausted]
    by (simp add: resource_inv_def)
qed

lemma token_map_update:
  assumes "resource_inv t" "i < length (rt_slots t)"
  shows "token_map (t \<lparr> rt_slots := (rt_slots t)[i := s], rt_active := a, rt_exhausted := x \<rparr>) tok =
    (if token_in t tok \<and> unat (token_slot tok) = i then slot_content s (token_generation tok)
     else token_map t tok)"
  using assms(2) by (auto simp: token_map_def token_in_def nth_list_update)

lemma token_map_put:
  assumes inv: "resource_inv t" and i: "i < length (rt_slots t)"
    and other: "\<And>h. h \<noteq> g \<Longrightarrow> slot_content s h = None \<and> slot_content (rt_slots t ! i) h = None"
  shows "token_map (t \<lparr> rt_slots := (rt_slots t)[i := s], rt_active := a, rt_exhausted := x \<rparr>) =
    (token_map t)(ResourceToken (rt_owner t) (slot_id i) g := slot_content s g)" (is "?l = ?r")
proof (rule ext)
  fix tok
  show "?l tok = ?r tok"
  proof (cases "token_in t tok \<and> unat (token_slot tok) = i")
    case True
    then have "token_map t tok = slot_content (rt_slots t ! i) (token_generation tok)"
      by (auto simp: token_map_def)
    then show ?thesis
      using True token_at_iff [OF inv i, of tok g] other [of "token_generation tok"]
      by (cases "token_generation tok = g") (simp_all add: token_map_update [OF inv i])
  next
    case False
    then have "tok \<noteq> ResourceToken (rt_owner t) (slot_id i) g"
      using token_at_iff [OF inv i, of tok g] by blast
    then show ?thesis
      using False by (auto simp: token_map_update [OF inv i])
  qed
qed

lemma spent_update:
  assumes "i < length (rt_slots t)"
  shows "spent (t \<lparr> rt_slots := (rt_slots t)[i := s], rt_active := a, rt_exhausted := x \<rparr>) tok \<longleftrightarrow>
    token_in t tok \<and> (if unat (token_slot tok) = i then unat (token_generation tok) < slot_floor s
      else unat (token_generation tok) < slot_floor (rt_slots t ! unat (token_slot tok)))"
  using assms by (auto simp: spent_def token_in_def nth_list_update)

lemma spent_not_mapped: "spent t tok \<Longrightarrow> token_map t tok = None"
  by (cases "rt_slots t ! unat (token_slot tok)") (auto simp: spent_def token_map_def)

lemma resource_inv_starting_at: "resource_inv (ResourceTable_starting_at owner capacity generation)"
  by (simp add: resource_inv_def ResourceTable_starting_at_def identities_distinct_def)

lemma token_map_starting_at: "token_map (ResourceTable_starting_at owner capacity generation) tok = None"
  by (simp add: token_map_def token_in_def ResourceTable_starting_at_def)

text \<open>Admission: every branch, what it returns, and what it does to the map.\<close>

lemma admit_rejected:
  assumes "resource_inv t"
    and "ResourceTable_contains_identity t k \<or> rt_active t = rt_capacity t \<or> ResourceTable_next_vacant t = None"
  shows "\<exists>f. ResourceTable_admit t k r = Ret (t, Inl \<lparr> rae_identity = k, rae_resource = r, rae_failure = f \<rparr>)"
  using assms by (auto simp: ResourceTable_admit_def Let_def split: option.split)

lemma admit_accepted:
  fixes r :: 'r and k :: 'k
  assumes inv: "resource_inv t" and new: "\<not> ResourceTable_contains_identity t k"
    and room: "rt_active t \<noteq> rt_capacity t" and vac: "ResourceTable_next_vacant t = Some (i, g)"
  defines "t' \<equiv> t \<lparr> rt_slots := (rt_slots t)[i := Occupied g k r], rt_active := rt_active t + 1,
    rt_exhausted := rt_exhausted t \<rparr>"
  defines "tok \<equiv> ResourceToken (rt_owner t) (slot_id i) g"
  shows "ResourceTable_admit t k r = Ret (t', Inr tok)" (is ?eq)
    and "resource_inv t'" (is ?inv)
    and "token_map t' = (token_map t)(tok \<mapsto> (k, r))" (is ?map)
    and "token_map t tok = None" (is ?fresh)
    and "\<not> spent t tok" (is ?unspent)
    and "spent t x \<Longrightarrow> spent t' x"
proof -
  have i: "i < length (rt_slots t)" "rt_slots t ! i = Vacant g"
    using next_vacant_SomeD [OF vac] by simp_all
  have "unat (rt_active t) < unat (rt_capacity t)"
    using resource_counts_le [OF inv] room by (simp add: word_unat_eq_iff)
  then have "unat (rt_active t) + 1 < 2 ^ 64"
    using unat_less_exp [of "rt_capacity t"] by simp
  then have plus: "checked_add (rt_active t) 1 = Some (rt_active t + 1)"
      "unat (rt_active t + 1) = unat (rt_active t) + 1"
    by (simp_all add: checked_add_def unat_word_ariths)
  show ?eq
    using new room vac plus by (simp add: ResourceTable_admit_def t'_def tok_def)
  show ?inv
    unfolding t'_def
    by (rule resource_inv_update [OF inv i(1)])
      (use i new plus in \<open>auto simp: contains_identity_iff\<close>)
  show ?map
    unfolding t'_def tok_def by (subst token_map_put [OF inv i(1), of g]) (simp_all add: i)
  show ?fresh
    using i slot_id_unat [OF inv i(1)] by (simp add: token_map_def tok_def token_in_def)
  show ?unspent
    using i slot_id_unat [OF inv i(1)] by (simp add: spent_def tok_def token_in_def)
  show "spent t x \<Longrightarrow> spent t' x"
    unfolding t'_def spent_update [OF i(1)] using i by (auto simp: spent_def)
qed

lemma admit_cases:
  assumes "resource_inv t"
  obtains (rejected) f where
      "ResourceTable_admit t k r = Ret (t, Inl \<lparr> rae_identity = k, rae_resource = r, rae_failure = f \<rparr>)"
  | (accepted) i g where "\<not> ResourceTable_contains_identity t k" "rt_active t \<noteq> rt_capacity t"
      "ResourceTable_next_vacant t = Some (i, g)"
  using admit_rejected [OF assms] by (metis option.exhaust surj_pair)

text \<open>Removal: the resource comes back, the slot moves on to its next generation or retires.\<close>

lemma remove_rejected:
  assumes "resource_inv t" "token_map t tok = None"
  shows "\<exists>f. ResourceTable_remove t tok = Ret (t, Inl f)"
  using assms validate_token_map [OF assms(1), of tok] by (auto simp: ResourceTable_remove_def)

definition next_slot :: "resource_generation \<Rightarrow> ('k, 'r) slot" where
  "next_slot g = (if g = - 1 then Exhausted else Vacant (g + 1))"

lemma checked_next_cases:
  "ResourceGeneration_checked_next g = (if g = - 1 then None else Some (g + 1))"
proof -
  have "unat g + 1 < 2 ^ 64 \<longleftrightarrow> g \<noteq> - 1"
    using unat_less_exp [of g] unat_minus_one_full [where 'a = 64]
    by (auto simp: word_unat_eq_iff)
  then show ?thesis
    by (simp add: ResourceGeneration_checked_next_def checked_add_def)
qed

lemma next_slot_floor: "slot_floor (next_slot g) = unat g + 1"
proof (cases "g = - 1")
  case False
  then have "unat g + 1 < 2 ^ 64"
    using checked_next_cases [of g]
    by (auto simp: ResourceGeneration_checked_next_def checked_add_def split: if_splits)
  then show ?thesis
    using False by (simp add: next_slot_def unat_word_ariths)
qed (simp add: next_slot_def unat_minus_one_full)

lemma remove_accepted:
  assumes inv: "resource_inv t" and tok: "token_map t tok = Some (k, r)"
  shows "\<exists>t'. ResourceTable_remove t tok = Ret (t', Inr (k, r)) \<and> resource_inv t' \<and>
    token_map t' = (token_map t)(tok := None) \<and> spent t' tok \<and> (\<forall>x. spent t x \<longrightarrow> spent t' x)"
proof -
  let ?i = "unat (token_slot tok)" and ?g = "token_generation tok"
  let ?a = "rt_active t - 1" and ?x = "rt_exhausted t + of_bool (?g = - 1)"
  let ?t = "t \<lparr> rt_slots := (rt_slots t)[?i := next_slot ?g], rt_active := ?a, rt_exhausted := ?x \<rparr>"
  have i: "token_in t tok" "?i < length (rt_slots t)" "rt_slots t ! ?i = Occupied ?g k r"
    using tok by (auto simp: token_map_def token_in_def slot_content_Some_iff split: if_splits)
  have v: "validate_token t tok = Inr ?i"
    using i by (simp add: validate_token_iff [OF inv])
  have pos: "0 < unat (rt_active t)"
    using filter_update_pos [OF i(2), of is_occupied] i(3) inv by (simp add: resource_inv_def)
  then have one: "1 \<le> rt_active t"
    by (simp add: word_le_nat_alt)
  then have minus: "checked_sub (rt_active t) 1 = Some ?a" "unat ?a = unat (rt_active t) - 1"
    by (simp_all add: unat_sub word_le_nat_alt)
  have "unat (rt_exhausted t) + 1 < 2 ^ 64"
    using resource_counts_le [OF inv] pos unat_less_exp [of "rt_capacity t"] by simp
  then have plus: "checked_add (rt_exhausted t) 1 = Some (rt_exhausted t + 1)"
      "unat ?x = unat (rt_exhausted t) + of_bool (?g = - 1)"
    by (simp_all add: checked_add_def unat_word_ariths)
  have "ResourceTable_remove t tok = Ret (?t, Inr (k, r))"
    using v i minus(1) plus(1)
    by (cases "?g = - 1") (simp_all add: ResourceTable_remove_def checked_next_cases next_slot_def)
  moreover have "resource_inv ?t"
    by (rule resource_inv_update [OF inv i(2)])
      (use i pos minus(2) plus(2) in \<open>auto simp: next_slot_def split: if_splits\<close>)
  moreover have "tok = ResourceToken (rt_owner t) (slot_id ?i) ?g"
    using token_at_iff [OF inv i(2), of tok ?g] i(1) by simp
  then have "token_map ?t = (token_map t)(tok := None)"
    by (subst token_map_put [OF inv i(2), of ?g]) (simp_all add: i next_slot_def)
  moreover have "spent ?t tok" "\<forall>x. spent t x \<longrightarrow> spent ?t x"
    unfolding spent_update [OF i(2)] using i by (auto simp: next_slot_floor spent_def)
  ultimately show ?thesis
    by blast
qed

section \<open>Runs of operations\<close>

datatype ('k, 'r) resource_op =
  OpAdmit 'k 'r
| OpRemove resource_token
| OpEdit resource_token "'r \<Rightarrow> 'r"

fun resource_step :: "('k, 'r) resource_op \<Rightarrow> ('k, 'r) resource_table \<Rightarrow> ('k, 'r) resource_table run" where
  "resource_step (OpAdmit k r) t = and_then (ResourceTable_admit t k r) (\<lambda>x. Ret (fst x))"
| "resource_step (OpRemove tok) t = and_then (ResourceTable_remove t tok) (\<lambda>x. Ret (fst x))"
| "resource_step (OpEdit tok f) t = Ret (fst (ResourceTable_get_mut f t tok))"

fun resource_run :: "('k, 'r) resource_op list \<Rightarrow> ('k, 'r) resource_table \<Rightarrow> ('k, 'r) resource_table run" where
  "resource_run [] t = Ret t"
| "resource_run (op # ops) t = and_then (resource_step op t) (resource_run ops)"

lemma get_mut_rejected:
  assumes "resource_inv t" "token_map t tok = None"
  shows "\<exists>e. ResourceTable_get_mut f t tok = (t, Inl e)"
  using assms validate_token_map [OF assms(1), of tok] by (auto simp: ResourceTable_get_mut_def)

lemma get_mut_accepted:
  assumes inv: "resource_inv t" and tok: "token_map t tok = Some (k, r)"
  shows "\<exists>t'. ResourceTable_get_mut f t tok = (t', Inr (k, f r)) \<and> resource_inv t' \<and>
    token_map t' = (token_map t)(tok \<mapsto> (k, f r)) \<and> (\<forall>x. spent t x \<longrightarrow> spent t' x)"
proof -
  let ?i = "unat (token_slot tok)" and ?g = "token_generation tok"
  let ?t = "t \<lparr> rt_slots := (rt_slots t)[?i := Occupied ?g k (f r)], rt_active := rt_active t,
    rt_exhausted := rt_exhausted t \<rparr>"
  have i: "token_in t tok" "?i < length (rt_slots t)" "rt_slots t ! ?i = Occupied ?g k r"
    using tok by (auto simp: token_map_def token_in_def slot_content_Some_iff split: if_splits)
  have "validate_token t tok = Inr ?i"
    using i by (simp add: validate_token_iff [OF inv])
  then have "ResourceTable_get_mut f t tok = (?t, Inr (k, f r))"
    using i by (simp add: ResourceTable_get_mut_def)
  moreover have "slot_identity (rt_slots t ! j) \<noteq> Some h"
    if "j < length (rt_slots t)" "j \<noteq> ?i" "slot_identity (Occupied ?g k (f r)) = Some h" for j h
    using inv that i(2,3) by (auto simp: resource_inv_def identities_distinct_def)
  then have "resource_inv ?t"
    by (intro resource_inv_update [OF inv i(2)]) (simp_all add: i)
  moreover have "tok = ResourceToken (rt_owner t) (slot_id ?i) ?g"
    using token_at_iff [OF inv i(2), of tok ?g] i(1) by simp
  then have "token_map ?t = (token_map t)(tok \<mapsto> (k, f r))"
    by (subst token_map_put [OF inv i(2), of ?g]) (simp_all add: i)
  moreover have "\<forall>x. spent t x \<longrightarrow> spent ?t x"
    unfolding spent_update [OF i(2)] using i by (auto simp: spent_def)
  ultimately show ?thesis
    by blast
qed

text \<open>One operation: it returns, keeps the invariant, and never revives a spent token.\<close>

lemma resource_step_safe:
  assumes inv: "resource_inv t"
  shows "\<exists>t'. resource_step op t = Ret t' \<and> resource_inv t' \<and> (\<forall>x. spent t x \<longrightarrow> spent t' x)"
proof (cases op)
  case (OpAdmit k r)
  show ?thesis
  proof (rule admit_cases [OF inv, of k r], goal_cases)
    case (1 f)
    then show ?thesis
      using OpAdmit inv by simp
  next
    case (2 i g)
    then show ?thesis
      using OpAdmit admit_accepted(1,2,6) [OF inv 2, where r = r] by simp
  qed
next
  case (OpRemove tok)
  then show ?thesis
    using remove_rejected [OF inv, of tok] remove_accepted [OF inv, of tok] inv
    by (cases "token_map t tok") auto
next
  case (OpEdit tok f)
  then show ?thesis
    using get_mut_rejected [OF inv, of tok f] get_mut_accepted [OF inv, of tok _ _ f] inv
    by (cases "token_map t tok") fastforce+
qed

lemma resource_run_safe:
  assumes "resource_inv t"
  shows "\<exists>t'. resource_run ops t = Ret t' \<and> resource_inv t' \<and> (\<forall>x. spent t x \<longrightarrow> spent t' x)"
  using assms
proof (induction ops arbitrary: t)
  case (Cons op ops)
  obtain t1 where t1: "resource_step op t = Ret t1" "resource_inv t1" "\<forall>x. spent t x \<longrightarrow> spent t1 x"
    using resource_step_safe [OF Cons.prems, of op] by blast
  then show ?case
    using Cons.IH [OF t1(2)] by auto
qed simp

section \<open>Observations\<close>

lemma iter_mem_iff:
  assumes inv: "resource_inv t"
  shows "(tok, k, r) \<in> set (ResourceTable_iter t) \<longleftrightarrow> token_map t tok = Some (k, r)"
proof -
  have "(tok, k, r) \<in> set (ResourceTable_iter t) \<longleftrightarrow>
      (\<exists>i<length (rt_slots t). \<exists>g. rt_slots t ! i = Occupied g k r \<and>
         tok = ResourceToken (rt_owner t) (slot_id i) g)"
  proof -
    have "(case s of Occupied g i v \<Rightarrow> Some (ResourceToken (rt_owner t) (slot_id n) g, i, v) | _ \<Rightarrow> None) =
        Some (tok, k, r) \<longleftrightarrow> (\<exists>g. s = Occupied g k r \<and> tok = ResourceToken (rt_owner t) (slot_id n) g)"
      for s n
      by (cases s) auto
    then show ?thesis
      unfolding ResourceTable_iter_def map_filter_enumerate_iff by simp
  qed
  also have "\<dots> \<longleftrightarrow> (\<exists>i<length (rt_slots t). \<exists>g. rt_slots t ! i = Occupied g k r \<and>
         token_in t tok \<and> unat (token_slot tok) = i \<and> token_generation tok = g)"
    using token_at_iff [OF inv, of _ tok] by blast
  also have "\<dots> \<longleftrightarrow> token_map t tok = Some (k, r)"
    by (auto simp: token_map_def token_in_def slot_content_Some_iff)
  finally show ?thesis .
qed

lemma length_iter: "length (ResourceTable_iter t) = length (filter is_occupied (rt_slots t))"
proof -
  have "length (List.map_filter (\<lambda>(index, slot). case slot of
         Occupied generation identity resource \<Rightarrow>
           Some (ResourceToken owner (slot_id index) generation, identity, resource)
       | Vacant _ \<Rightarrow> None | Exhausted \<Rightarrow> None) (enumerate n slots)) = length (filter is_occupied slots)"
    for owner n and slots :: "('a, 'b) slot list"
    by (induction slots arbitrary: n) (auto simp: List.map_filter_def split: slot.split)
  then show ?thesis
    by (simp add: ResourceTable_iter_def)
qed

lemma contains_identity_map:
  assumes inv: "resource_inv t"
  shows "ResourceTable_contains_identity t k \<longleftrightarrow> (\<exists>tok r. token_map t tok = Some (k, r))"
proof
  assume "ResourceTable_contains_identity t k"
  then obtain i g r where i: "i < length (rt_slots t)" "rt_slots t ! i = Occupied g k r"
    by (auto simp: contains_identity_iff slot_identity_Some_iff)
  then have "token_map t (ResourceToken (rt_owner t) (slot_id i) g) = Some (k, r)"
    by (simp add: token_map_def token_in_def slot_id_unat [OF inv])
  then show "\<exists>tok r. token_map t tok = Some (k, r)"
    by blast
next
  assume "\<exists>tok r. token_map t tok = Some (k, r)"
  then show "ResourceTable_contains_identity t k"
    by (auto simp: contains_identity_iff token_map_def token_in_def slot_content_Some_iff
        split: if_splits)
qed

lemma token_for_map:
  assumes inv: "resource_inv t"
  shows "case ResourceTable_token_for t k of
      Some tok \<Rightarrow> \<exists>r. token_map t tok = Some (k, r)
    | None \<Rightarrow> \<nexists>tok r. token_map t tok = Some (k, r)"
proof (cases "ResourceTable_token_for t k")
  case None
  then have "slot_identity (rt_slots t ! i) \<noteq> Some k" if "i < length (rt_slots t)" for i
    using that
    by (auto simp: ResourceTable_token_for_def find_map_enumerate_None_iff slot_identity_Some_iff)
  then show ?thesis
    using None contains_identity_map [OF inv, of k] by (auto simp: contains_identity_iff)
next
  case (Some tok)
  then obtain i g r where "i < length (rt_slots t)" "rt_slots t ! i = Occupied g k r"
      "tok = ResourceToken (rt_owner t) (slot_id i) g"
    by (auto simp: ResourceTable_token_for_def dest!: find_map_enumerate_SomeD split: slot.splits if_splits)
  then have "token_map t tok = Some (k, r)"
    by (simp add: token_map_def token_in_def slot_id_unat [OF inv])
  then show ?thesis
    using Some by simp
qed

lemma vacancy_count:
  assumes "resource_inv t"
  shows "ResourceTable_next_vacant t = None \<longleftrightarrow>
    unat (rt_active t) + unat (rt_exhausted t) = unat (rt_capacity t)"
proof -
  have eq: "length (filter is_occupied xs) + length (filter is_exhausted xs) = length xs \<longleftrightarrow>
      (\<forall>s\<in>set xs. is_occupied s \<or> is_exhausted s)" for xs :: "('a, 'b) slot list"
  proof (induction xs)
    case (Cons s xs)
    have "length (filter is_occupied xs) + length (filter is_exhausted xs) \<le> length xs"
      by (rule filter_complement_le) (metis is_exhausted.simps(3) is_occupied_iff)
    then show ?case
      using Cons by (cases s) auto
  qed simp
  show ?thesis
    using assms eq [of "rt_slots t"] by (simp add: next_vacant_None_iff resource_inv_def)
qed

section \<open>Theorems\<close>

text \<open>
  C22. The table refines a finite map from tokens to identities with their resources. Lookup is
  lookup in the map, by token or by identity; an edit changes the one resource; admission adds one fresh token with an identity that was not there, or
  changes nothing and returns both values; removal deletes exactly the token's entry and returns
  it, or changes nothing. No operation reaches a panic.
\<close>

theorem resource_refines_map:
  assumes "resource_inv t"
  shows "(ResourceTable_get t tok = Inr v \<longleftrightarrow> token_map t tok = Some v) \<and>
    (case ResourceTable_admit t k r of
       Panic \<Rightarrow> False
     | Ret (t', Inr new) \<Rightarrow> resource_inv t' \<and> token_map t new = None \<and>
         (\<nexists>x y. token_map t x = Some (k, y)) \<and> token_map t' = (token_map t)(new \<mapsto> (k, r))
     | Ret (t', Inl e) \<Rightarrow> t' = t \<and> rae_identity e = k \<and> rae_resource e = r) \<and>
    (case ResourceTable_remove t tok of
       Panic \<Rightarrow> False
     | Ret (t', Inr w) \<Rightarrow> resource_inv t' \<and> token_map t tok = Some w \<and>
         token_map t' = (token_map t)(tok := None)
     | Ret (t', Inl _) \<Rightarrow> t' = t \<and> token_map t tok = None) \<and>
    (case ResourceTable_get_mut edit t tok of
       (t', Inr (identity, resource)) \<Rightarrow> resource_inv t' \<and>
         (\<exists>old. token_map t tok = Some (identity, old) \<and> resource = edit old) \<and>
         token_map t' = (token_map t)(tok \<mapsto> (identity, resource))
     | (t', Inl _) \<Rightarrow> t' = t \<and> token_map t tok = None) \<and>
    (case ResourceTable_token_for t k of
       Some x \<Rightarrow> \<exists>y. token_map t x = Some (k, y)
     | None \<Rightarrow> \<nexists>x y. token_map t x = Some (k, y))" (is "?get \<and> ?admit \<and> ?remove \<and> ?edit \<and> ?named")
proof (intro conjI)
  show ?get
    by (rule get_refines [OF assms])
  show ?admit
  proof (rule admit_cases [OF assms, of k r], goal_cases)
    case (2 i g)
    then show ?thesis
      using admit_accepted(1-3) [OF assms 2, where r = r] admit_accepted(4) [OF assms 2] contains_identity_map [OF assms, of k]
      by auto
  qed simp
  show ?remove
    using remove_rejected [OF assms, of tok] remove_accepted [OF assms, of tok]
    by (cases "token_map t tok") fastforce+
  show ?edit
    using get_mut_rejected [OF assms, of tok edit] get_mut_accepted [OF assms, of tok _ _ edit]
    by (cases "token_map t tok") fastforce+
  show ?named
    by (rule token_for_map [OF assms])
qed

definition resource_demo :: "(nat, string) resource_table" where
  "resource_demo = ResourceTable_new 7 2"

lemma resource_demo_eq:
  "resource_demo = \<lparr> rt_owner = 7, rt_capacity = 2, rt_slots = [Vacant 0, Vacant 0],
     rt_active = 0, rt_exhausted = 0 \<rparr>"
proof -
  have two: "unat (2 :: usize) = Suc (Suc 0)"
    by simp
  show ?thesis
    unfolding resource_demo_def ResourceTable_new_def ResourceTable_starting_at_def
      ResourceGeneration_INITIAL_def two replicate.simps ..
qed

lemma resource_demo_admit:
  "ResourceTable_admit resource_demo 5 ''a'' =
     Ret (resource_demo \<lparr> rt_slots := [Occupied 0 5 ''a'', Vacant 0], rt_active := 1 \<rparr>,
          Inr (ResourceToken 7 0 0))"
  by (simp add: resource_demo_eq ResourceTable_admit_def ResourceTable_contains_identity_def
      ResourceTable_next_vacant_def checked_add_def slot_id_def Let_def)

definition resource_held_demo :: "(nat, string) resource_table" where
  "resource_held_demo = resource_demo \<lparr> rt_slots := [Occupied 0 5 ''a'', Vacant 0], rt_active := 1 \<rparr>"

lemma resource_held_inv: "resource_inv resource_held_demo"
proof -
  have "resource_inv resource_demo"
    by (simp add: resource_demo_def ResourceTable_new_def resource_inv_starting_at)
  then show ?thesis
    using resource_step_safe [of resource_demo "OpAdmit 5 ''a''"]
    by (simp add: resource_demo_admit resource_held_demo_def)
qed

lemma resource_held_token: "token_map resource_held_demo (ResourceToken 7 0 0) = Some (5, ''a'')"
  by (simp add: token_map_def token_in_def resource_demo_eq resource_held_demo_def)

theorem resource_refines_map_witness:
  "ResourceTable_get resource_held_demo (ResourceToken 7 0 0) = Inr (5, ''a'') \<and>
   (\<exists>t'. ResourceTable_remove resource_held_demo (ResourceToken 7 0 0) = Ret (t', Inr (5, ''a'')) \<and>
      token_map t' (ResourceToken 7 0 0) = None) \<and>
   ResourceTable_token_for resource_held_demo 5 \<noteq> None"
proof -
  note refines = resource_refines_map [OF resource_held_inv, of "ResourceToken 7 0 0" "(5, ''a'')" 5 "''b''" id]
  have "ResourceTable_get resource_held_demo (ResourceToken 7 0 0) = Inr (5, ''a'')"
    using refines resource_held_token by blast
  moreover have "\<exists>t'. ResourceTable_remove resource_held_demo (ResourceToken 7 0 0) = Ret (t', Inr (5, ''a'')) \<and>
      token_map t' (ResourceToken 7 0 0) = None"
    using refines [THEN conjunct2, THEN conjunct2, THEN conjunct1] resource_held_token
    by (simp split: run.splits prod.splits sum.splits)
  moreover have "ResourceTable_token_for resource_held_demo 5 \<noteq> None"
    using refines [THEN conjunct2, THEN conjunct2, THEN conjunct2, THEN conjunct2] resource_held_token
    by (auto split: option.splits)
  ultimately show ?thesis
    by blast
qed

text \<open>
  C23. A token that has been removed is never valid again: whatever admissions, removals and edits
  follow, the run returns, lookup by the old token fails, and no later admission issues it.
\<close>

theorem removed_token_never_revived:
  assumes "resource_inv t" "ResourceTable_remove t tok = Ret (t1, Inr v)"
  shows "\<exists>t2. resource_run ops t1 = Ret t2 \<and> (\<exists>f. ResourceTable_get t2 tok = Inl f) \<and>
    (\<forall>k r t3 tok'. ResourceTable_admit t2 k r = Ret (t3, Inr tok') \<longrightarrow> tok' \<noteq> tok)"
proof -
  have "resource_inv t1 \<and> spent t1 tok"
  proof (cases "token_map t tok")
    case None
    then show ?thesis
      using remove_rejected [OF assms(1), of tok] assms(2) by auto
  next
    case (Some w)
    then show ?thesis
      using remove_accepted [OF assms(1), of tok "fst w" "snd w"] assms(2) by auto
  qed
  then obtain t2 where t2: "resource_run ops t1 = Ret t2" "resource_inv t2" "spent t2 tok"
    using resource_run_safe [of t1 ops] by blast
  have "ResourceTable_get t2 tok \<noteq> Inr w" for w
    using spent_not_mapped [OF t2(3)] get_refines [OF t2(2)] by simp
  then have "\<exists>f. ResourceTable_get t2 tok = Inl f"
    by (metis sumE)
  moreover have "tok' \<noteq> tok" if "ResourceTable_admit t2 k r = Ret (t3, Inr tok')" for k r t3 tok'
  proof (rule admit_cases [OF t2(2), of k r], goal_cases)
    case (1 f)
    then show ?thesis
      using that by simp
  next
    case (2 i g)
    then show ?thesis
      using admit_accepted(1) [OF t2(2) 2, where r = r] admit_accepted(5) [OF t2(2) 2] that t2(3)
      by auto
  qed
  ultimately show ?thesis
    using t2(1) by blast
qed

theorem removed_token_never_revived_witness:
  "\<exists>t1 t2. ResourceTable_remove resource_held_demo (ResourceToken 7 0 0) = Ret (t1, Inr (5, ''a'')) \<and>
     resource_run [OpAdmit 2 ''b'', OpAdmit 5 ''a''] t1 = Ret t2 \<and>
     (\<exists>f. ResourceTable_get t2 (ResourceToken 7 0 0) = Inl f)"
proof -
  obtain t1 where "ResourceTable_remove resource_held_demo (ResourceToken 7 0 0) = Ret (t1, Inr (5, ''a''))"
    using remove_accepted [OF resource_held_inv resource_held_token] by blast
  then show ?thesis
    using removed_token_never_revived [OF resource_held_inv, of "ResourceToken 7 0 0" t1 "(5, ''a'')"] by blast
qed

text \<open>
  C35. Admission reports the exact reason it refuses: the identity is held by a live token, else
  every slot of the capacity is active, else the slots that are not active have all used up their
  generations. With none of these the resource is admitted.
\<close>

theorem admission_failures_exact:
  assumes "resource_inv t"
  shows "ResourceTable_admit t k r =
    (if \<exists>x y. token_map t x = Some (k, y)
     then Ret (t, Inl \<lparr> rae_identity = k, rae_resource = r, rae_failure = IdentityInUse \<rparr>)
     else if rt_active t = rt_capacity t
     then Ret (t, Inl \<lparr> rae_identity = k, rae_resource = r, rae_failure = CapacityReached (rt_capacity t) \<rparr>)
     else if unat (rt_active t) + unat (rt_exhausted t) = unat (rt_capacity t)
     then Ret (t, Inl \<lparr> rae_identity = k, rae_resource = r, rae_failure = TokenSpaceExhausted \<rparr>)
     else Ret (fst (returned (ResourceTable_admit t k r)),
               Inr (projr (snd (returned (ResourceTable_admit t k r))))))"
proof (cases "ResourceTable_next_vacant t")
  case None
  then show ?thesis
    using contains_identity_map [OF assms, of k] vacancy_count [OF assms]
    by (auto simp: ResourceTable_admit_def)
next
  case (Some p)
  then obtain i g where "ResourceTable_next_vacant t = Some (i, g)"
    by (cases p) simp
  then show ?thesis
    using contains_identity_map [OF assms, of k] vacancy_count [OF assms]
      admit_accepted(1) [OF assms, of k i g, where r = r]
    by (cases "ResourceTable_contains_identity t k"; cases "rt_active t = rt_capacity t")
      (simp_all add: ResourceTable_admit_def)
qed

theorem admission_failures_exact_witness:
  "ResourceTable_admit resource_held_demo 5 ''b'' =
     Ret (resource_held_demo, Inl \<lparr> rae_identity = 5, rae_resource = ''b'', rae_failure = IdentityInUse \<rparr>)"
proof -
  have "\<exists>x y. token_map resource_held_demo x = Some (5, y)"
    using resource_held_token by blast
  then show ?thesis
    using admission_failures_exact [OF resource_held_inv, of 5 "''b''"] by simp
qed

text \<open>
  A snapshot is always taken without a panic and accounts for every slot: active, vacant and
  exhausted add up to the capacity, iteration lists one entry per active slot, and what it lists
  is exactly the table's token map.
\<close>

theorem resource_snapshot_exact:
  assumes "resource_inv t"
  shows "\<exists>s. ResourceTable_snapshot t = Ret s \<and>
    unat (rts_active s) + unat (rts_vacant s) + unat (rts_exhausted s) = unat (rts_capacity s) \<and>
    length (ResourceTable_iter t) = unat (rts_active s) \<and>
    (\<forall>tok k r. (tok, k, r) \<in> set (ResourceTable_iter t) \<longleftrightarrow> token_map t tok = Some (k, r))"
proof -
  have le: "unat (rt_active t) + unat (rt_exhausted t) \<le> unat (rt_capacity t)"
    by (rule resource_counts_le [OF assms])
  then have small: "unat (rt_active t) + unat (rt_exhausted t) < 2 ^ 64"
    using unat_less_exp [of "rt_capacity t"] by simp
  then have "unat (rt_active t + rt_exhausted t) = unat (rt_active t) + unat (rt_exhausted t)"
    by (simp add: unat_word_ariths)
  then show ?thesis
    using le small iter_mem_iff [OF assms] assms
    by (simp add: ResourceTable_snapshot_def checked_add_def checked_sub_def word_le_nat_alt
        unat_sub length_iter resource_inv_def)
qed

theorem resource_snapshot_exact_witness:
  "\<exists>s. ResourceTable_snapshot resource_demo = Ret s \<and>
    unat (rts_active s) + unat (rts_vacant s) + unat (rts_exhausted s) = unat (rts_capacity s)"
  using resource_snapshot_exact [of resource_demo] resource_inv_starting_at
  unfolding resource_demo_def ResourceTable_new_def by blast

end
