(* ===== verification/BTree.thy ===== *)
theory BTree
  imports Prelude "HOL-Library.Product_Lexorder"
begin

text \<open>
  The standard library's \<open>BTreeMap\<close> as the code uses it: an association list in strictly
  ascending key order, so that iteration, \<open>first_key_value\<close> and lookup are those of the ordered
  map. \<open>ordered_map\<close> is the interface its clients rely on; the laws that make an undo exact
  (an insertion undone by a removal, and the other way round) are proved once, inside it.
\<close>

section \<open>The interface\<close>

locale ordered_map =
  fixes ok :: "'m \<Rightarrow> bool"
    and lookup :: "'m \<Rightarrow> 'k::linorder \<Rightarrow> 'v option"
    and insert_at :: "'k \<Rightarrow> 'v \<Rightarrow> 'm \<Rightarrow> 'm"
    and remove_at :: "'k \<Rightarrow> 'm \<Rightarrow> 'm"
    and entries :: "'m \<Rightarrow> ('k \<times> 'v) list"
  assumes ok_insert: "ok m \<Longrightarrow> ok (insert_at k v m)"
    and ok_remove: "ok m \<Longrightarrow> ok (remove_at k m)"
    and lookup_insert: "ok m \<Longrightarrow> lookup (insert_at k v m) = (lookup m)(k \<mapsto> v)"
    and lookup_remove: "ok m \<Longrightarrow> lookup (remove_at k m) = (lookup m)(k := None)"
    and extensional: "ok m \<Longrightarrow> ok m' \<Longrightarrow> lookup m = lookup m' \<Longrightarrow> m = m'"
    and entries_lookup: "ok m \<Longrightarrow> (k, v) \<in> set (entries m) \<longleftrightarrow> lookup m k = Some v"
    and entries_sorted: "ok m \<Longrightarrow> sorted_wrt (<) (map fst (entries m))"
begin

lemma insert_undone: "ok m \<Longrightarrow> lookup m k = None \<Longrightarrow> remove_at k (insert_at k v m) = m"
  by (rule extensional) (auto simp: ok_insert ok_remove lookup_insert lookup_remove)

lemma remove_undone: "ok m \<Longrightarrow> lookup m k = Some v \<Longrightarrow> insert_at k v (remove_at k m) = m"
  by (rule extensional) (auto simp: ok_insert ok_remove lookup_insert lookup_remove)

lemma remove_absent: "ok m \<Longrightarrow> lookup m k = None \<Longrightarrow> remove_at k m = m"
  by (rule extensional) (auto simp: ok_remove lookup_remove)

lemma insert_commute:
  "ok m \<Longrightarrow> k \<noteq> l \<Longrightarrow> insert_at k v (insert_at l w m) = insert_at l w (insert_at k v m)"
  by (rule extensional) (auto simp: ok_insert lookup_insert fun_upd_twist)

lemma insert_remove_commute:
  "ok m \<Longrightarrow> k \<noteq> l \<Longrightarrow> insert_at k v (remove_at l m) = remove_at l (insert_at k v m)"
  by (rule extensional) (auto simp: ok_insert ok_remove lookup_insert lookup_remove fun_upd_twist)

lemma first_is_least:
  assumes "ok m" "entries m = (k, v) # rest"
  shows "lookup m k = Some v" "lookup m l = Some w \<Longrightarrow> k \<le> l"
proof -
  show "lookup m k = Some v"
    using assms entries_lookup [of m k v] by simp
  assume "lookup m l = Some w"
  then have "(l, w) \<in> set (entries m)"
    using assms(1) by (simp add: entries_lookup)
  then show "k \<le> l"
    using entries_sorted [OF assms(1)] assms(2) by auto
qed

end

section \<open>Sorted association lists\<close>

type_synonym ('k, 'v) btree = "('k \<times> 'v) list"

fun bt_insert :: "'k::linorder \<Rightarrow> 'v \<Rightarrow> ('k, 'v) btree \<Rightarrow> ('k, 'v) btree" where
  "bt_insert k v [] = [(k, v)]"
| "bt_insert k v ((l, w) # m) =
     (if k < l then (k, v) # (l, w) # m
      else if k = l then (k, v) # m
      else (l, w) # bt_insert k v m)"

definition bt_remove :: "'k \<Rightarrow> ('k, 'v) btree \<Rightarrow> ('k, 'v) btree" where
  "bt_remove k m = filter (\<lambda>p. fst p \<noteq> k) m"

definition bt_get :: "('k, 'v) btree \<Rightarrow> 'k \<Rightarrow> 'v option" where
  "bt_get m k = map_of m k"

definition bt_first :: "('k, 'v) btree \<Rightarrow> ('k \<times> 'v) option" where
  "bt_first m = (case m of [] \<Rightarrow> None | p # _ \<Rightarrow> Some p)"

definition bt_ok :: "('k::linorder, 'v) btree \<Rightarrow> bool" where
  "bt_ok m \<longleftrightarrow> sorted_wrt (<) (map fst m)"

lemma bt_ok_Nil [simp]: "bt_ok []"
  by (simp add: bt_ok_def)

lemma bt_ok_Cons [simp]: "bt_ok ((k, v) # m) \<longleftrightarrow> (\<forall>p\<in>set m. k < fst p) \<and> bt_ok m"
  by (auto simp: bt_ok_def)

lemma bt_insert_keys: "fst ` set (bt_insert k v m) = insert k (fst ` set m)"
  by (induction k v m rule: bt_insert.induct) auto

lemma bt_ok_insert: "bt_ok m \<Longrightarrow> bt_ok (bt_insert k v m)"
proof (induction k v m rule: bt_insert.induct)
  case (2 k v l w m)
  have "p \<in> set (bt_insert k v m) \<Longrightarrow> fst p \<in> insert k (fst ` set m)" for p
    using bt_insert_keys [of k v m] by blast
  then show ?case
    using 2 by fastforce
qed simp

lemma bt_ok_remove: "bt_ok m \<Longrightarrow> bt_ok (bt_remove k m)"
  by (induction m) (auto simp: bt_remove_def)

lemma bt_get_insert: "bt_get (bt_insert k v m) = (bt_get m)(k \<mapsto> v)"
  by (induction k v m rule: bt_insert.induct) (auto simp: bt_get_def fun_eq_iff)

lemma bt_get_remove: "bt_get (bt_remove k m) = (bt_get m)(k := None)"
  by (induction m) (auto simp: bt_get_def bt_remove_def fun_eq_iff)

lemma bt_ok_distinct: "bt_ok m \<Longrightarrow> distinct (map fst m)"
  unfolding bt_ok_def by (simp add: strict_sorted_iff)

lemma bt_extensional:
  assumes "bt_ok m" "bt_ok n" "bt_get m = bt_get n"
  shows "m = n"
proof -
  have d: "distinct (map fst m)" "distinct (map fst n)"
    using assms by (simp_all add: bt_ok_distinct)
  then have "set m = set n"
    using map_of_inject_set [OF d] assms(3) by (simp add: bt_get_def fun_eq_iff)
  moreover have "inj_on fst (set n)"
    using d by (simp add: distinct_map)
  ultimately show ?thesis
    using assms(1,2) d map_sorted_distinct_set_unique [of fst m n]
    by (simp add: bt_ok_def strict_sorted_iff)
qed

interpretation btree: ordered_map bt_ok bt_get bt_insert bt_remove "\<lambda>m. m"
proof
  show "(k, v) \<in> set m \<longleftrightarrow> bt_get m k = Some v" if "bt_ok m"
    for m :: "('k::linorder, 'v) btree" and k v
    using bt_ok_distinct [OF that] by (simp add: bt_get_def)
  show "sorted_wrt (<) (map fst m)" if "bt_ok m" for m :: "('k::linorder, 'v) btree"
    using that by (simp add: bt_ok_def)
qed (simp_all add: bt_ok_insert bt_ok_remove bt_get_insert bt_get_remove bt_extensional)

lemma bt_first_least:
  "bt_ok m \<Longrightarrow> bt_first m = Some (k, v) \<Longrightarrow> bt_get m k = Some v \<and> (\<forall>l w. bt_get m l = Some w \<longrightarrow> k \<le> l)"
  using btree.first_is_least [of m k v] by (auto simp: bt_first_def split: list.splits)

lemma bt_first_None_iff: "bt_first m = None \<longleftrightarrow> m = []"
  by (simp add: bt_first_def split: list.split)

lemma mset_bt_insert:
  "bt_get m k = None \<Longrightarrow> mset (bt_insert k v m) = add_mset (k, v) (mset m)"
  by (induction k v m rule: bt_insert.induct) (auto simp: bt_get_def split: if_splits)

lemma mset_bt_remove:
  assumes "bt_ok m" "bt_get m k = Some v"
  shows "mset m = add_mset (k, v) (mset (bt_remove k m))"
proof -
  have "bt_insert k v (bt_remove k m) = m"
    by (rule btree.remove_undone [OF assms])
  moreover have "bt_get (bt_remove k m) k = None"
    by (simp add: bt_get_remove)
  ultimately show ?thesis
    using mset_bt_insert [of "bt_remove k m" k v] by simp
qed

lemma length_bt_insert: "bt_get m k = None \<Longrightarrow> length (bt_insert k v m) = Suc (length m)"
  using mset_bt_insert [of m k v] by (metis size_add_mset size_mset)

lemma length_bt_remove: "bt_ok m \<Longrightarrow> bt_get m k = Some v \<Longrightarrow> length m = Suc (length (bt_remove k m))"
  using mset_bt_remove [of m k v] by (metis size_add_mset size_mset)

end
