(* ===== verification/Search.thy ===== *)
theory Search
  imports Prelude
begin

text \<open>
  Searching vectors as the standard library does: \<open>Iterator::position\<close>, the index of the first match,
  and \<open>slice::binary_search\<close>, an index of the key in a sorted vector.
\<close>

section \<open>First match\<close>

definition iter_position :: "('a \<Rightarrow> bool) \<Rightarrow> 'a list \<Rightarrow> nat option" where
  "iter_position P xs = find_map (\<lambda>(i, x). if P x then Some i else None) (enumerate 0 xs)"

lemma iter_position_SomeD: "iter_position P xs = Some i \<Longrightarrow> i < length xs \<and> P (xs ! i)"
  by (auto simp: iter_position_def dest!: find_map_enumerate_SomeD split: if_splits)

lemma iter_position_None_iff: "iter_position P xs = None \<longleftrightarrow> (\<forall>x\<in>set xs. \<not> P x)"
  by (auto simp: iter_position_def find_map_enumerate_None_iff all_set_conv_all_nth)

lemma find_map_enumerate_first:
  "find_map (\<lambda>(i, x). if P x then Some i else None) (enumerate n xs) = Some i \<Longrightarrow> n \<le> i \<and> (\<forall>j<i - n. \<not> P (xs ! j))"
proof (induction xs arbitrary: n)
  case (Cons x xs)
  show ?case
  proof (cases "P x")
    case False
    then have "Suc n \<le> i" "\<And>j. j < i - Suc n \<Longrightarrow> \<not> P (xs ! j)"
      using Cons.IH [of "Suc n"] Cons.prems by simp_all
    then show ?thesis
      using False by (auto simp: nth_Cons split: nat.splits)
  qed (use Cons.prems in simp)
qed simp

lemma iter_position_first: "iter_position P xs = Some i \<Longrightarrow> j < i \<Longrightarrow> \<not> P (xs ! j)"
  using find_map_enumerate_first [of P 0 xs i] by (simp add: iter_position_def)

section \<open>Binary search\<close>

function binary_search :: "'a::linorder \<Rightarrow> 'a list \<Rightarrow> nat \<Rightarrow> nat \<Rightarrow> nat option" where
  "binary_search x xs lo hi =
     (if hi \<le> lo then None
      else let mid = (lo + hi) div 2 in
        if xs ! mid = x then Some mid
        else if xs ! mid < x then binary_search x xs (mid + 1) hi
        else binary_search x xs lo mid)"
  by pat_completeness auto
termination
  by (relation "measure (\<lambda>(x, xs, lo, hi). hi - lo)") auto

declare binary_search.simps [simp del]

lemma binary_search_sound:
  "binary_search x xs lo hi = Some i \<Longrightarrow> lo \<le> i \<and> i < hi \<and> xs ! i = x"
  by (induction x xs lo hi rule: binary_search.induct)
    (subst (asm) (3) binary_search.simps, fastforce simp: Let_def split: if_splits)

lemma binary_search_complete:
  assumes "sorted xs" "hi \<le> length xs" "lo \<le> i" "i < hi" "xs ! i = x"
  shows "binary_search x xs lo hi \<noteq> None"
  using assms
proof (induction x xs lo hi rule: binary_search.induct)
  case (1 x xs lo hi)
  let ?m = "(lo + hi) div 2"
  have m: "lo \<le> ?m" "?m < hi"
    using 1(5,6) by auto
  consider "xs ! ?m = x" | "xs ! ?m < x" | "x < xs ! ?m"
    by fastforce
  then show ?case
  proof cases
    case 1
    then show ?thesis
      using m by (subst binary_search.simps) (simp add: Let_def)
  next
    case 2
    then have "?m < i"
      using sorted_nth_mono [OF 1(3), of i ?m] m 1(4,7) by (force simp: not_le [symmetric])
    then show ?thesis
      using 2 m 1(1)[of ?m] 1(3-7) by (subst binary_search.simps) (simp add: Let_def)
  next
    case 3
    then have "i < ?m"
      using sorted_nth_mono [OF 1(3), of ?m i] 1(4,6,7) by (force simp: not_le [symmetric])
    then show ?thesis
      using 3 less_not_sym [OF 3] m 1(2)[of ?m] 1(3-7)
      by (subst binary_search.simps) (simp add: Let_def)
  qed
qed

end
