(* ===== verification/Heap.thy ===== *)
theory Heap
  imports Search "HOL-Library.Product_Lexorder"
begin

text \<open>
  The standard library's \<open>BinaryHeap\<close> as the code uses it: \<open>push\<close>, \<open>pop\<close>, \<open>peek\<close>, \<open>into_vec\<close>
  and \<open>BinaryHeap::from\<close>. Which of two elements is on top is decided by the element's order
  alone, given here by a key whose least value is on top (the code's \<open>Ord\<close> is reversed); the order
  in which \<open>into_vec\<close> lists the elements is not specified by the library and no caller
  depends on it. The model keeps the elements in ascending order of their keys.
\<close>

section \<open>The interface\<close>

locale min_heap =
  fixes key :: "'a \<Rightarrow> 'k::linorder"
    and ok :: "'h \<Rightarrow> bool"
    and elems :: "'h \<Rightarrow> 'a multiset"
    and push :: "'a \<Rightarrow> 'h \<Rightarrow> 'h"
    and pop :: "'h \<Rightarrow> ('a \<times> 'h) option"
    and peek :: "'h \<Rightarrow> 'a option"
    and from_vec :: "'a list \<Rightarrow> 'h"
    and into_vec :: "'h \<Rightarrow> 'a list"
  assumes ok_push: "ok h \<Longrightarrow> ok (push x h)"
    and elems_push: "ok h \<Longrightarrow> elems (push x h) = add_mset x (elems h)"
    and ok_pop: "ok h \<Longrightarrow> pop h = Some (x, h') \<Longrightarrow> ok h'"
    and elems_pop: "ok h \<Longrightarrow> pop h = Some (x, h') \<Longrightarrow> elems h = add_mset x (elems h')"
    and pop_least: "ok h \<Longrightarrow> pop h = Some (x, h') \<Longrightarrow> y \<in># elems h \<Longrightarrow> key x \<le> key y"
    and pop_empty: "ok h \<Longrightarrow> pop h = None \<longleftrightarrow> elems h = {#}"
    and peek_pop: "ok h \<Longrightarrow> peek h = map_option fst (pop h)"
    and ok_from: "ok (from_vec xs)"
    and elems_from: "elems (from_vec xs) = mset xs"
    and mset_into: "ok h \<Longrightarrow> mset (into_vec h) = elems h"
begin

lemma peek_least: "ok h \<Longrightarrow> peek h = Some x \<Longrightarrow> x \<in># elems h \<and> (\<forall>y\<in>#elems h. key x \<le> key y)"
  using elems_pop pop_least by (auto simp: peek_pop)

lemma peek_empty: "ok h \<Longrightarrow> peek h = None \<longleftrightarrow> elems h = {#}"
  by (simp add: peek_pop pop_empty)

lemma rebuild: "ok h \<Longrightarrow> elems (from_vec (into_vec h)) = elems h"
  by (simp add: elems_from mset_into)

end

section \<open>The model\<close>

definition heap_ok :: "('a \<Rightarrow> 'k::linorder) \<Rightarrow> 'a list \<Rightarrow> bool" where
  "heap_ok key h \<longleftrightarrow> sorted (map key h)"

definition heap_push :: "('a \<Rightarrow> 'k::linorder) \<Rightarrow> 'a \<Rightarrow> 'a list \<Rightarrow> 'a list" where
  "heap_push key x h = insort_key key x h"

definition heap_pop :: "'a list \<Rightarrow> ('a \<times> 'a list) option" where
  "heap_pop h = (case h of [] \<Rightarrow> None | x # rest \<Rightarrow> Some (x, rest))"

definition heap_peek :: "'a list \<Rightarrow> 'a option" where
  "heap_peek h = (case h of [] \<Rightarrow> None | x # _ \<Rightarrow> Some x)"

definition heap_from :: "('a \<Rightarrow> 'k::linorder) \<Rightarrow> 'a list \<Rightarrow> 'a list" where
  "heap_from key xs = sort_key key xs"

interpretation heap: min_heap key "heap_ok key" mset "heap_push key" heap_pop heap_peek
  "heap_from key" "\<lambda>h. h" for key :: "'a \<Rightarrow> 'k::linorder"
  by unfold_locales
    (auto simp: heap_ok_def heap_push_def heap_pop_def heap_peek_def heap_from_def
      sorted_insort_key split: list.splits)

text \<open>
  \<open>Vec::swap_remove\<close> takes an element out and puts the last one in its place.
\<close>

definition swap_remove :: "'a list \<Rightarrow> nat \<Rightarrow> 'a \<times> 'a list" where
  "swap_remove xs i =
     (xs ! i, if i = length xs - 1 then butlast xs else (butlast xs)[i := last xs])"

lemma swap_remove_fst [simp]: "fst (swap_remove xs i) = xs ! i"
  by (simp add: swap_remove_def)

lemma mset_swap_remove:
  assumes "i < length xs"
  shows "mset xs = add_mset (xs ! i) (mset (snd (swap_remove xs i)))"
proof (cases xs rule: rev_cases)
  case (snoc ys y)
  show ?thesis
  proof (cases "i = length ys")
    case False
    then have i: "i < length ys"
      using assms snoc by simp
    then have "ys ! i \<in># mset ys"
      by simp
    then show ?thesis
      using i snoc by (simp add: swap_remove_def mset_update nth_append)
  qed (simp add: snoc swap_remove_def)
qed (use assms in simp)

end
