(* ===== verification/Timer.thy ===== *)
theory Timer
  imports Ledger Clock_Time Heap
begin

text \<open>
  The bounded timer queue (\<open>timer/\<close>): a heap of timers ordered by deadline and then by admission
  identity, with a count limit, a limit on retained bytes and identities that are never reused.
  The properties: due timers come out earliest first and in admission order at equal deadlines, a
  drain returns exactly the due prefix its budget allows and says exactly whether more is due,
  cancellation removes the one timer its token names, and a token that has fired or been cancelled
  stays dead.
\<close>

section \<open>Identities, tokens and limits\<close>

type_synonym timer_owner_id = u64
type_synonym timer_id = u64

definition TimerId_ZERO :: timer_id where
  "TimerId_ZERO = 0"

definition TimerId_checked_next :: "timer_id \<Rightarrow> timer_id option" where
  "TimerId_checked_next self = checked_add self 1"

datatype timer_token = TimerToken (timer_token_owner: timer_owner_id)
  (timer_token_id: timer_id) (timer_token_deadline: deadline)

record timer_limits =
  tl_timers :: usize
  tl_retained_bytes :: retained_bytes

definition TimerLimits_default :: timer_limits where
  "TimerLimits_default = \<lparr> tl_timers = 1024, tl_retained_bytes = 16 * 1024 * 1024 \<rparr>"

record 't timer =
  tm_token :: timer_token
  tm_value :: 't
  tm_retained :: retained_bytes

definition Timer_deadline :: "'t timer \<Rightarrow> deadline" where
  "Timer_deadline self = timer_token_deadline (tm_token self)"

text \<open>
  \<open>Scheduled\<close> wraps a timer to give it a heap order: its \<open>Ord\<close> compares the other's deadline with
  its own, then the identities the same way round, so that the top of the max-heap is the timer
  whose pair (deadline, identity) is least.
\<close>

definition scheduled_key :: "'t timer \<Rightarrow> deadline \<times> timer_id" where
  "scheduled_key self = (Timer_deadline self, timer_token_id (tm_token self))"

datatype timer_schedule_failure =
  TimerCapacity usize
| TimerRetainedOverflow retained_bytes retained_bytes
| TimerRetainedCapacity retained_bytes retained_bytes retained_bytes
| TimerIdsExhausted

record 't timer_schedule_error =
  tse_deadline :: deadline
  tse_value :: 't
  tse_failure :: timer_schedule_failure

record 't timer_queue =
  tq_owner :: timer_owner_id
  tq_limits :: timer_limits
  tq_measure :: "'t \<Rightarrow> retained_bytes"
  tq_timers :: "'t timer list"
  tq_next_id :: "timer_id option"
  tq_retained :: retained_bytes

record timer_drain =
  td_fired :: nat
  td_more_due :: bool

record timer_queue_snapshot =
  tqs_owner :: timer_owner_id
  tqs_limits :: timer_limits
  tqs_pending_timers :: nat
  tqs_retained_bytes :: retained_bytes
  tqs_next_deadline :: "deadline option"
  tqs_next_id :: "timer_id option"

definition TimerQueueSnapshot_identities_exhausted :: "timer_queue_snapshot \<Rightarrow> bool" where
  "TimerQueueSnapshot_identities_exhausted self \<longleftrightarrow> tqs_next_id self = None"

section \<open>Operations\<close>

definition TimerQueue_starting_at_with_measure ::
  "timer_owner_id \<Rightarrow> timer_limits \<Rightarrow> timer_id \<Rightarrow> ('t \<Rightarrow> retained_bytes) \<Rightarrow> 't timer_queue" where
  "TimerQueue_starting_at_with_measure owner limits first_id size_of =
     \<lparr> tq_owner = owner, tq_limits = limits, tq_measure = size_of, tq_timers = [],
       tq_next_id = Some first_id, tq_retained = RetainedBytes_ZERO \<rparr>"

definition TimerQueue_with_measure ::
  "timer_owner_id \<Rightarrow> timer_limits \<Rightarrow> ('t \<Rightarrow> retained_bytes) \<Rightarrow> 't timer_queue" where
  "TimerQueue_with_measure owner limits size_of =
     TimerQueue_starting_at_with_measure owner limits TimerId_ZERO size_of"

definition TimerQueue_is_empty :: "'t timer_queue \<Rightarrow> bool" where
  "TimerQueue_is_empty self \<longleftrightarrow> tq_timers self = []"

definition TimerQueue_len :: "'t timer_queue \<Rightarrow> nat" where
  "TimerQueue_len self = length (tq_timers self)"

definition TimerQueue_iter :: "'t timer_queue \<Rightarrow> 't timer list" where
  "TimerQueue_iter self = tq_timers self"

definition TimerQueue_next_deadline :: "'t timer_queue \<Rightarrow> deadline option" where
  "TimerQueue_next_deadline self = map_option Timer_deadline (heap_peek (tq_timers self))"

definition timer_check_retained ::
  "'t timer_queue \<Rightarrow> deadline \<Rightarrow> 't \<Rightarrow> retained_bytes \<Rightarrow> 't timer_schedule_error + retained_bytes" where
  "timer_check_retained self deadline item retained =
     (case RetainedBytes_checked_add (tq_retained self) retained of
        None \<Rightarrow> Inl \<lparr> tse_deadline = deadline, tse_value = item,
                      tse_failure = TimerRetainedOverflow (tq_retained self) retained \<rparr>
      | Some next_total \<Rightarrow>
          if tl_retained_bytes (tq_limits self) < next_total
          then Inl \<lparr> tse_deadline = deadline, tse_value = item,
                     tse_failure = TimerRetainedCapacity (tl_retained_bytes (tq_limits self))
                       (tq_retained self) retained \<rparr>
          else Inr next_total)"

definition TimerQueue_schedule ::
  "'t timer_queue \<Rightarrow> deadline \<Rightarrow> 't \<Rightarrow> 't timer_queue \<times> ('t timer_schedule_error + timer_token)" where
  "TimerQueue_schedule self deadline item =
     (if unat (tl_timers (tq_limits self)) \<le> length (tq_timers self)
      then (self, Inl \<lparr> tse_deadline = deadline, tse_value = item,
                        tse_failure = TimerCapacity (tl_timers (tq_limits self)) \<rparr>)
      else let retained = tq_measure self item in
        case timer_check_retained self deadline item retained of
          Inl e \<Rightarrow> (self, Inl e)
        | Inr next_total \<Rightarrow>
            (case tq_next_id self of
               None \<Rightarrow> (self, Inl \<lparr> tse_deadline = deadline, tse_value = item,
                                   tse_failure = TimerIdsExhausted \<rparr>)
             | Some ident \<Rightarrow>
                 let token = TimerToken (tq_owner self) ident deadline in
                 (self \<lparr> tq_next_id := TimerId_checked_next ident,
                         tq_timers := heap_push scheduled_key
                           \<lparr> tm_token = token, tm_value = item, tm_retained = retained \<rparr>
                           (tq_timers self),
                         tq_retained := next_total \<rparr>,
                  Inr token)))"

definition timer_subtract_retained :: "'t timer_queue \<Rightarrow> retained_bytes \<Rightarrow> 't timer_queue run" where
  "timer_subtract_retained self removed =
     and_then (expect (RetainedBytes_checked_sub (tq_retained self) removed)) (\<lambda>retained.
       Ret (self \<lparr> tq_retained := retained \<rparr>))"

definition TimerQueue_cancel ::
  "'t timer_queue \<Rightarrow> timer_token \<Rightarrow> ('t timer_queue \<times> 't timer option) run" where
  "TimerQueue_cancel self token =
     (if timer_token_owner token \<noteq> tq_owner self then Ret (self, None)
      else let timers = tq_timers self in
        case iter_position (\<lambda>scheduled. tm_token scheduled = token) timers of
          None \<Rightarrow> Ret (self \<lparr> tq_timers := heap_from scheduled_key timers \<rparr>, None)
        | Some index \<Rightarrow>
            let (scheduled, rest) = swap_remove timers index in
            and_then
              (timer_subtract_retained (self \<lparr> tq_timers := heap_from scheduled_key rest \<rparr>)
                (tm_retained scheduled))
              (\<lambda>self'. Ret (self', Some scheduled)))"

definition timer_due :: "'t timer_queue \<Rightarrow> moment \<Rightarrow> bool" where
  "timer_due self now \<longleftrightarrow>
     (case TimerQueue_next_deadline self of
        None \<Rightarrow> False | Some deadline \<Rightarrow> Deadline_is_elapsed_at deadline now)"

definition TimerQueue_pop_due :: "'t timer_queue \<Rightarrow> moment \<Rightarrow> ('t timer_queue \<times> 't timer option) run" where
  "TimerQueue_pop_due self now =
     (if \<not> timer_due self now then Ret (self, None)
      else case heap_pop (tq_timers self) of
        None \<Rightarrow> Ret (self, None)
      | Some (scheduled, rest) \<Rightarrow>
          and_then (timer_subtract_retained (self \<lparr> tq_timers := rest \<rparr>) (tm_retained scheduled))
            (\<lambda>self'. Ret (self', Some scheduled)))"

text \<open>
  The drain loop runs while \<open>fired < budget\<close>; its first argument is what is left of the budget.
\<close>

fun timer_drain_loop ::
  "nat \<Rightarrow> moment \<Rightarrow> 't timer_queue \<Rightarrow> 't timer list \<Rightarrow> nat \<Rightarrow> ('t timer_queue \<times> 't timer list \<times> nat) run" where
  "timer_drain_loop 0 now self destination fired = Ret (self, destination, fired)"
| "timer_drain_loop (Suc left) now self destination fired =
     and_then (TimerQueue_pop_due self now) (\<lambda>(self', popped).
       case popped of
         None \<Rightarrow> Ret (self', destination, fired)
       | Some timer \<Rightarrow> timer_drain_loop left now self' (destination @ [timer]) (fired + 1))"

definition TimerQueue_drain_due_into ::
  "'t timer_queue \<Rightarrow> moment \<Rightarrow> 't timer list \<Rightarrow> usize \<Rightarrow> ('t timer_queue \<times> 't timer list \<times> timer_drain) run" where
  "TimerQueue_drain_due_into self now destination budget =
     and_then (timer_drain_loop (unat budget) now self destination 0)
       (\<lambda>(self', destination', fired).
          Ret (self', destination', \<lparr> td_fired = fired, td_more_due = timer_due self' now \<rparr>))"

definition TimerQueue_snapshot :: "'t timer_queue \<Rightarrow> timer_queue_snapshot" where
  "TimerQueue_snapshot self =
     \<lparr> tqs_owner = tq_owner self, tqs_limits = tq_limits self,
       tqs_pending_timers = length (tq_timers self), tqs_retained_bytes = tq_retained self,
       tqs_next_deadline = TimerQueue_next_deadline self, tqs_next_id = tq_next_id self \<rparr>"

section \<open>Invariant\<close>

definition timer_sizes :: "'t timer_queue \<Rightarrow> retained_bytes multiset" where
  "timer_sizes q = image_mset tm_retained (mset (tq_timers q))"

definition id_below :: "timer_id \<Rightarrow> timer_id option \<Rightarrow> bool" where
  "id_below i bound = (case bound of None \<Rightarrow> True | Some b \<Rightarrow> i < b)"

definition timer_inv :: "'t timer_queue \<Rightarrow> bool" where
  "timer_inv q \<longleftrightarrow>
     heap_ok scheduled_key (tq_timers q) \<and>
     length (tq_timers q) \<le> unat (tl_timers (tq_limits q)) \<and>
     tq_retained q \<le> tl_retained_bytes (tq_limits q) \<and>
     unat (tq_retained q) = total_bytes (timer_sizes q) \<and>
     distinct (map (\<lambda>t. timer_token_id (tm_token t)) (tq_timers q)) \<and>
     (\<forall>t\<in>set (tq_timers q). timer_token_owner (tm_token t) = tq_owner q \<and>
        id_below (timer_token_id (tm_token t)) (tq_next_id q) \<and>
        tm_retained t = tq_measure q (tm_value t))"

interpretation timers: byte_ledger timer_inv tq_retained timer_sizes
  "\<lambda>q. tl_retained_bytes (tq_limits q)" "\<lambda>q. unat (tl_timers (tq_limits q))"
  by unfold_locales (auto simp: timer_inv_def timer_sizes_def)

lemma timer_inv_starting_at:
  "timer_inv (TimerQueue_starting_at_with_measure owner limits first_id size_of)"
  by (simp add: timer_inv_def TimerQueue_starting_at_with_measure_def heap_ok_def timer_sizes_def
      RetainedBytes_ZERO_def)

lemma timer_inv_heap: "timer_inv q \<Longrightarrow> heap_ok scheduled_key (tq_timers q)"
  by (simp add: timer_inv_def)

lemma timer_subtract_eq:
  assumes "timer_inv q" "t \<in> set (tq_timers q)"
  shows "timer_subtract_retained (q \<lparr> tq_timers := ts \<rparr>) (tm_retained t) =
    Ret (q \<lparr> tq_timers := ts, tq_retained := tq_retained q - tm_retained t \<rparr>)"
proof -
  have "tm_retained t \<in># timer_sizes q"
    using assms(2) by (simp add: timer_sizes_def)
  then show ?thesis
    using timers.release [OF assms(1)] by (simp add: timer_subtract_retained_def)
qed

lemma timer_inv_remove:
  assumes inv: "timer_inv q" and split: "mset (tq_timers q) = add_mset t (mset ts)"
    and ok: "heap_ok scheduled_key ts"
  shows "timer_inv (q \<lparr> tq_timers := ts, tq_retained := tq_retained q - tm_retained t \<rparr>)"
proof -
  have mem: "set (tq_timers q) = insert t (set ts)"
    using split by (metis set_mset_add_mset_insert set_mset_mset)
  have len: "length (tq_timers q) = Suc (length ts)"
    using split by (metis size_add_mset size_mset)
  have dist: "distinct (map (\<lambda>t. timer_token_id (tm_token t)) (t # ts))"
    using inv split distinct_map_mset_cong [of "tq_timers q" "t # ts" "\<lambda>t. timer_token_id (tm_token t)"] by (simp add: timer_inv_def)
  have sz: "tm_retained t \<in># timer_sizes q" "timer_sizes q - {#tm_retained t#} = image_mset tm_retained (mset ts)"
    using split by (simp_all add: timer_sizes_def)
  have "unat (tq_retained q - tm_retained t) = total_bytes (image_mset tm_retained (mset ts))"
    using timers.release_balanced [OF inv sz(1)] sz(2) by simp
  then show ?thesis
    using inv mem len dist ok timers.release_within [OF inv sz(1)]
    by (simp add: timer_inv_def timer_sizes_def)
qed

section \<open>Scheduling\<close>

definition timer_admits :: "'t timer_queue \<Rightarrow> 't \<Rightarrow> bool" where
  "timer_admits q v \<longleftrightarrow>
     length (tq_timers q) < unat (tl_timers (tq_limits q)) \<and>
     unat (tq_retained q) + unat (tq_measure q v) \<le> unat (tl_retained_bytes (tq_limits q)) \<and>
     tq_next_id q \<noteq> None"

lemma timer_check_retained_iff:
  "timer_check_retained q d v b = Inr s \<longleftrightarrow>
     unat (tq_retained q) + unat b \<le> unat (tl_retained_bytes (tq_limits q)) \<and> s = tq_retained q + b"
proof (cases "checked_add (tq_retained q) b")
  case None
  then show ?thesis
    using checked_add_None_iff [of "tq_retained q" b] unat_less_exp [of "tl_retained_bytes (tq_limits q)"]
    by (simp add: timer_check_retained_def RetainedBytes_checked_add_def)
next
  case (Some z)
  moreover have "z = tq_retained q + b"
    using Some by (simp add: checked_add_def split: if_splits)
  moreover have "unat z = unat (tq_retained q) + unat b"
    using Some by (rule checked_add_SomeD)
  ultimately show ?thesis
    using Some by (auto simp: timer_check_retained_def RetainedBytes_checked_add_def word_less_nat_alt)
qed

lemma timer_check_retained_error:
  "timer_check_retained q d v b = Inl e \<Longrightarrow> tse_deadline e = d \<and> tse_value e = v"
  by (auto simp: timer_check_retained_def split: option.splits if_splits)

lemma schedule_rejected:
  assumes "\<not> timer_admits q v"
  shows "\<exists>e. TimerQueue_schedule q d v = (q, Inl e) \<and> tse_deadline e = d \<and> tse_value e = v"
proof (cases "timer_check_retained q d v (tq_measure q v)")
  case (Inl e)
  then show ?thesis
    using timer_check_retained_error [OF Inl] by (auto simp: TimerQueue_schedule_def)
next
  case (Inr s)
  then have "unat (tl_timers (tq_limits q)) \<le> length (tq_timers q) \<or> tq_next_id q = None"
    using assms Inr [unfolded timer_check_retained_iff] by (auto simp: timer_admits_def)
  then show ?thesis
    using Inr by (auto simp: TimerQueue_schedule_def)
qed

lemma schedule_admitted:
  assumes "timer_admits q v" "tq_next_id q = Some i"
  shows "TimerQueue_schedule q d v =
    (q \<lparr> tq_next_id := TimerId_checked_next i,
         tq_timers := heap_push scheduled_key
           \<lparr> tm_token = TimerToken (tq_owner q) i d, tm_value = v, tm_retained = tq_measure q v \<rparr>
           (tq_timers q),
         tq_retained := tq_retained q + tq_measure q v \<rparr>,
     Inr (TimerToken (tq_owner q) i d))"
proof -
  have "timer_check_retained q d v (tq_measure q v) = Inr (tq_retained q + tq_measure q v)"
    using assms(1) by (simp add: timer_check_retained_iff timer_admits_def)
  then show ?thesis
    using assms by (simp add: TimerQueue_schedule_def timer_admits_def Let_def)
qed

lemma id_below_next: "id_below j (TimerId_checked_next i) \<longleftrightarrow> j \<le> i"
proof (cases "checked_add i 1")
  case None
  then have "unat i = 2 ^ 64 - 1"
    using unat_less_exp [of i] by (simp add: checked_add_None_iff)
  then show ?thesis
    using None unat_less_exp [of j]
    by (simp add: TimerId_checked_next_def id_below_def word_le_nat_alt)
next
  case (Some z)
  then show ?thesis
    using checked_add_SomeD [OF Some]
    by (auto simp: TimerId_checked_next_def id_below_def word_le_nat_alt word_less_nat_alt)
qed

lemma timer_inv_schedule:
  assumes inv: "timer_inv q"
  shows "timer_inv (fst (TimerQueue_schedule q d v))"
proof (cases "timer_admits q v")
  case False
  then show ?thesis
    using schedule_rejected [of q v d] inv by auto
next
  case True
  then obtain i where i: "tq_next_id q = Some i"
    by (auto simp: timer_admits_def)
  have fresh: "\<forall>t\<in>set (tq_timers q). timer_token_id (tm_token t) < i"
    using inv i by (simp add: timer_inv_def id_below_def)
  have room: "unat (tq_retained q) + unat (tq_measure q v) \<le> unat (tl_retained_bytes (tq_limits q))"
    using True by (simp add: timer_admits_def)
  then have plus: "unat (tq_retained q + tq_measure q v) = unat (tq_retained q) + unat (tq_measure q v)"
    using unat_less_exp [of "tl_retained_bytes (tq_limits q)"] by (simp add: unat_word_ariths)
  then have le: "tq_retained q + tq_measure q v \<le> tl_retained_bytes (tq_limits q)"
    using room by (simp add: word_le_nat_alt)
  have "distinct (map (\<lambda>t. timer_token_id (tm_token t)) (heap_push scheduled_key t (tq_timers q)))"
    if "timer_token_id (tm_token t) = i" for t
  proof -
    have "mset (heap_push scheduled_key t (tq_timers q)) = mset (t # tq_timers q)"
      by (simp add: heap_push_def)
    moreover have "distinct (map (\<lambda>t. timer_token_id (tm_token t)) (t # tq_timers q))"
      using inv fresh that by (fastforce simp: timer_inv_def)
    ultimately show ?thesis
      using distinct_map_mset_cong by blast
  qed
  then show ?thesis
    using inv True fresh le plus heap.ok_push [OF timer_inv_heap [OF inv]]
    by (auto simp: schedule_admitted [OF True i] timer_inv_def timer_sizes_def heap_push_def
        set_insort_key timer_admits_def id_below_next less_imp_le)
qed

section \<open>Firing\<close>

definition is_due :: "moment \<Rightarrow> 't timer \<Rightarrow> bool" where
  "is_due now t \<longleftrightarrow> Timer_deadline t \<le> now"

text \<open>What a queue is after the first \<open>n\<close> of its timers have fired.\<close>

definition fire_first :: "nat \<Rightarrow> 't timer_queue \<Rightarrow> 't timer_queue" where
  "fire_first n q = q \<lparr> tq_timers := drop n (tq_timers q),
     tq_retained := tq_retained q - sum_list (map tm_retained (take n (tq_timers q))) \<rparr>"

lemma timer_due_iff: "timer_due q now \<longleftrightarrow> (\<exists>t ts. tq_timers q = t # ts \<and> is_due now t)"
  by (cases "tq_timers q")
    (simp_all add: timer_due_def TimerQueue_next_deadline_def heap_peek_def
      Deadline_is_elapsed_at_def is_due_def)

lemma due_prefix:
  assumes "heap_ok scheduled_key ts"
  shows "takeWhile (is_due now) ts = filter (is_due now) ts"
proof -
  have "sorted (map Timer_deadline ts)"
    using assms by (induction ts) (auto simp: heap_ok_def scheduled_key_def)
  then show ?thesis
  proof (induction ts)
    case (Cons t ts)
    show ?case
    proof (cases "is_due now t")
      case False
      then have "\<forall>u\<in>set ts. \<not> is_due now u"
        using Cons.prems by (force simp: is_due_def)
      then show ?thesis
        using False by (simp add: filter_empty_conv)
    qed (use Cons in simp)
  qed simp
qed

lemma pop_due_none: "\<not> timer_due q now \<Longrightarrow> TimerQueue_pop_due q now = Ret (q, None)"
  by (simp add: TimerQueue_pop_due_def)

lemma pop_due_some:
  assumes inv: "timer_inv q" and due: "tq_timers q = t # ts" "is_due now t"
  shows "TimerQueue_pop_due q now = Ret (fire_first (Suc 0) q, Some t)" "timer_inv (fire_first (Suc 0) q)"
proof -
  have "heap_ok scheduled_key ts"
    using timer_inv_heap [OF inv] due by (simp add: heap_ok_def)
  then show "timer_inv (fire_first (Suc 0) q)"
    using timer_inv_remove [OF inv, of t ts] due by (simp add: fire_first_def)
  show "TimerQueue_pop_due q now = Ret (fire_first (Suc 0) q, Some t)"
    using timer_subtract_eq [OF inv, of t ts] due timer_due_iff [of q now]
    by (simp add: TimerQueue_pop_due_def heap_pop_def fire_first_def)
qed

lemma fire_first_Suc:
  "tq_timers q = t # ts \<Longrightarrow> fire_first n (fire_first (Suc 0) q) = fire_first (Suc n) q"
  by (simp add: fire_first_def diff_diff_eq)

lemma drain_loop_exact:
  assumes "timer_inv q"
  shows "let n = min left (length (filter (is_due now) (tq_timers q))) in
    timer_drain_loop left now q destination fired =
      Ret (fire_first n q, destination @ take n (filter (is_due now) (tq_timers q)), fired + n) \<and>
    timer_inv (fire_first n q)"
  using assms
proof (induction left arbitrary: q destination fired)
  case (Suc left)
  show ?case
  proof (cases "timer_due q now")
    case False
    then have "filter (is_due now) (tq_timers q) = []"
      unfolding due_prefix [OF timer_inv_heap [OF Suc.prems], symmetric]
      by (cases "tq_timers q") (simp_all add: timer_due_iff)
    then show ?thesis
      using Suc.prems pop_due_none [OF False] by (simp add: fire_first_def)
  next
    case True
    then obtain t ts where t: "tq_timers q = t # ts" "is_due now t"
      by (auto simp: timer_due_iff)
    have rest: "tq_timers (fire_first (Suc 0) q) = ts"
      by (simp add: fire_first_def t)
    show ?thesis
      using Suc.IH [OF pop_due_some(2) [OF Suc.prems t], of "destination @ [t]" "fired + 1"]
        fire_first_Suc [OF t(1)] t
      by (simp add: pop_due_some(1) [OF Suc.prems t] rest Let_def)
  qed
qed (simp add: fire_first_def)

lemma timer_due_fire_first:
  assumes "timer_inv q"
  shows "timer_due (fire_first (min b (length (filter (is_due now) (tq_timers q)))) q) now \<longleftrightarrow>
    b < length (filter (is_due now) (tq_timers q))"
proof -
  let ?d = "takeWhile (is_due now) (tq_timers q)"
  have due: "timer_due (fire_first n q) now \<longleftrightarrow> n < length ?d" if "n \<le> length ?d" for n
  proof -
    have len: "length ?d \<le> length (tq_timers q)"
      by (rule length_takeWhile_le)
    have "timer_due (fire_first n q) now \<longleftrightarrow> n < length (tq_timers q) \<and> is_due now (tq_timers q ! n)"
      by (cases "n < length (tq_timers q)")
        (auto simp: timer_due_iff fire_first_def Cons_nth_drop_Suc [symmetric])
    then show ?thesis
      using that len nth_mem [of n "?d"] nth_length_takeWhile [of "is_due now" "tq_timers q"]
        set_takeWhileD [of "?d ! n" "is_due now" "tq_timers q"] takeWhile_nth [of n "is_due now" "tq_timers q"]
      by (cases "n = length ?d") auto
  qed
  show ?thesis
    unfolding due_prefix [OF timer_inv_heap [OF assms], symmetric]
    by (subst due) auto
qed

section \<open>Cancellation\<close>

lemma timer_ids_inject:
  assumes "timer_inv q" "t \<in> set (tq_timers q)" "u \<in> set (tq_timers q)"
    and "timer_token_id (tm_token t) = timer_token_id (tm_token u)"
  shows "t = u"
  using assms by (auto simp: timer_inv_def distinct_map inj_on_def)

lemma heap_from_sorted: "timer_inv q \<Longrightarrow> heap_from scheduled_key (tq_timers q) = tq_timers q"
  by (simp add: timer_inv_def heap_from_def heap_ok_def sort_key_id_if_sorted)

lemma cancel_absent:
  assumes inv: "timer_inv q" and "\<forall>t\<in>set (tq_timers q). tm_token t \<noteq> tok"
  shows "TimerQueue_cancel q tok = Ret (q, None)"
proof -
  have "iter_position (\<lambda>s. tm_token s = tok) (tq_timers q) = None"
    using assms(2) by (simp add: iter_position_None_iff)
  then show ?thesis
    by (simp add: TimerQueue_cancel_def heap_from_sorted [OF inv])
qed

lemma cancel_present:
  assumes inv: "timer_inv q" and t: "t \<in> set (tq_timers q)"
  shows "TimerQueue_cancel q (tm_token t) =
      Ret (q \<lparr> tq_timers := remove1 t (tq_timers q), tq_retained := tq_retained q - tm_retained t \<rparr>, Some t)"
    and "timer_inv (q \<lparr> tq_timers := remove1 t (tq_timers q), tq_retained := tq_retained q - tm_retained t \<rparr>)"
proof -
  have owner: "timer_token_owner (tm_token t) = tq_owner q"
    using inv t by (simp add: timer_inv_def)
  obtain i where i: "iter_position (\<lambda>s. tm_token s = tm_token t) (tq_timers q) = Some i"
    using t iter_position_None_iff [of "\<lambda>s. tm_token s = tm_token t" "tq_timers q"] by fastforce
  then have il: "i < length (tq_timers q)" "tm_token (tq_timers q ! i) = tm_token t"
    using iter_position_SomeD [OF i] by simp_all
  then have it: "tq_timers q ! i = t"
    using timer_ids_inject [OF inv _ t, of "tq_timers q ! i"] by simp
  let ?rest = "snd (swap_remove (tq_timers q) i)"
  have split: "mset (tq_timers q) = add_mset t (mset ?rest)"
    using mset_swap_remove [OF il(1)] it by simp
  have key_inj: "inj_on scheduled_key (set (tq_timers q))"
    using timer_ids_inject [OF inv] by (auto simp: inj_on_def scheduled_key_def)
  have "set ?rest \<subseteq> set (tq_timers q)"
    using split by (metis set_mset_add_mset_insert set_mset_mset subset_insertI)
  then have "inj_on scheduled_key (set ?rest)"
    by (rule inj_on_subset [OF key_inj])
  then have "heap_from scheduled_key ?rest = remove1 t (tq_timers q)"
    unfolding heap_from_def using inv split t
    by (intro sort_key_inj_key_eq) (simp_all add: timer_inv_def heap_ok_def sorted_map_remove1)
  then show "TimerQueue_cancel q (tm_token t) =
      Ret (q \<lparr> tq_timers := remove1 t (tq_timers q), tq_retained := tq_retained q - tm_retained t \<rparr>, Some t)"
    using i it owner timer_subtract_eq [OF inv t]
    by (simp add: TimerQueue_cancel_def Let_def case_prod_unfold)
  show "timer_inv (q \<lparr> tq_timers := remove1 t (tq_timers q), tq_retained := tq_retained q - tm_retained t \<rparr>)"
    by (rule timer_inv_remove [OF inv])
      (use inv t in \<open>simp_all add: timer_inv_def heap_ok_def sorted_map_remove1\<close>)
qed

section \<open>Draining\<close>

lemma take_due_prefix:
  assumes "timer_inv q" "n \<le> length (filter (is_due now) (tq_timers q))"
  shows "take n (filter (is_due now) (tq_timers q)) = take n (tq_timers q)"
  using assms(2) unfolding due_prefix [OF timer_inv_heap [OF assms(1)], symmetric]
  by (subst (2) takeWhile_dropWhile_id [of "is_due now", symmetric])
    (simp add: take_append min_absorb1 del: takeWhile_dropWhile_id)

lemma drain_due_into_eq:
  fixes budget :: usize and now :: moment
  assumes "timer_inv q"
  defines "due \<equiv> filter (is_due now) (tq_timers q)"
  defines "n \<equiv> min (unat budget) (length due)"
  shows "TimerQueue_drain_due_into q now destination budget =
      Ret (fire_first n q, destination @ take n due,
        \<lparr> td_fired = n, td_more_due = (unat budget < length due) \<rparr>)"
    and "timer_inv (fire_first n q)"
    and "take n due = take n (tq_timers q)"
  using drain_loop_exact [OF assms(1), of "unat budget" now destination 0]
    timer_due_fire_first [OF assms(1), of "unat budget" now]
    take_due_prefix [OF assms(1), of n now]
  by (simp_all add: TimerQueue_drain_due_into_def Let_def due_def n_def)

section \<open>Runs of operations\<close>

datatype 't timer_op =
  TimerSchedule deadline 't
| TimerCancel timer_token
| TimerFire moment usize

text \<open>A step returns the timers that left the queue: those that fired, or the one cancelled.\<close>

fun timer_step :: "'t timer_op \<Rightarrow> 't timer_queue \<Rightarrow> ('t timer_queue \<times> 't timer list) run" where
  "timer_step (TimerSchedule d v) q = Ret (fst (TimerQueue_schedule q d v), [])"
| "timer_step (TimerCancel tok) q =
     and_then (TimerQueue_cancel q tok)
       (\<lambda>(q', t). Ret (q', case t of None \<Rightarrow> [] | Some t \<Rightarrow> [t]))"
| "timer_step (TimerFire now budget) q =
     and_then (TimerQueue_drain_due_into q now [] budget) (\<lambda>(q', fired, _). Ret (q', fired))"

fun timer_run :: "'t timer_op list \<Rightarrow> 't timer_queue \<Rightarrow> ('t timer_queue \<times> 't timer list) run" where
  "timer_run [] q = Ret (q, [])"
| "timer_run (op # ops) q =
     and_then (timer_step op q) (\<lambda>(q', out).
       and_then (timer_run ops q') (\<lambda>(q'', out'). Ret (q'', out @ out')))"

text \<open>An identity is dead once it has been issued and no pending timer has it.\<close>

definition timer_dead :: "'t timer_queue \<Rightarrow> timer_id \<Rightarrow> bool" where
  "timer_dead q i \<longleftrightarrow> id_below i (tq_next_id q) \<and>
     (\<forall>t\<in>set (tq_timers q). timer_token_id (tm_token t) \<noteq> i)"

abbreviation id_of :: "'t timer \<Rightarrow> timer_id" where
  "id_of t \<equiv> timer_token_id (tm_token t)"

definition timer_step_ok :: "'t timer_queue \<Rightarrow> 't timer_queue \<Rightarrow> 't timer list \<Rightarrow> bool" where
  "timer_step_ok q q' out \<longleftrightarrow> timer_inv q' \<and> (\<forall>i. timer_dead q i \<longrightarrow> timer_dead q' i) \<and>
     distinct (map id_of out) \<and> (\<forall>t\<in>set out. \<not> timer_dead q (id_of t) \<and> timer_dead q' (id_of t))"

lemma timer_dead_schedule:
  assumes "timer_inv q" "timer_dead q i"
  shows "timer_dead (fst (TimerQueue_schedule q d v)) i"
proof (cases "timer_admits q v")
  case False
  then show ?thesis
    using schedule_rejected [of q v d] assms by auto
next
  case True
  then obtain n where n: "tq_next_id q = Some n"
    by (auto simp: timer_admits_def)
  then have "i < n"
    using assms(2) by (simp add: timer_dead_def id_below_def)
  then show ?thesis
    using assms(2) n
    by (auto simp: schedule_admitted [OF True n] timer_dead_def id_below_next heap_push_def
        set_insort_key)
qed

lemma timer_step_removal:
  assumes inv: "timer_inv q" and parts: "mset (tq_timers q) = mset out + mset ts"
    and inv': "timer_inv (q \<lparr> tq_timers := ts, tq_retained := r \<rparr>)"
  shows "timer_step_ok q (q \<lparr> tq_timers := ts, tq_retained := r \<rparr>) out"
proof -
  have "mset (tq_timers q) = mset (out @ ts)"
    using parts by simp
  from distinct_map_mset_cong [OF this, of id_of] have d: "distinct (map id_of (out @ ts))"
    using inv by (simp add: timer_inv_def)
  have s: "set (tq_timers q) = set out \<union> set ts"
    using parts by (metis set_mset_mset set_mset_union)
  have "id_below (id_of t) (tq_next_id q)" if "t \<in> set out" for t
    using inv s that by (auto simp: timer_inv_def)
  then show ?thesis
    using d s inv' by (force simp: timer_step_ok_def timer_dead_def)
qed

lemma timer_step_safe:
  assumes inv: "timer_inv q"
  shows "\<exists>q' out. timer_step op q = Ret (q', out) \<and> timer_step_ok q q' out"
proof (cases op)
  case (TimerSchedule d v)
  then show ?thesis
    using timer_inv_schedule [OF inv, of d v] timer_dead_schedule [OF inv, of _ d v]
    by (simp add: timer_step_ok_def)
next
  case (TimerCancel tok)
  show ?thesis
  proof (cases "\<exists>t\<in>set (tq_timers q). tm_token t = tok")
    case True
    then obtain t where t: "t \<in> set (tq_timers q)" "tm_token t = tok"
      by blast
    have "timer_step_ok q (q \<lparr> tq_timers := remove1 t (tq_timers q),
        tq_retained := tq_retained q - tm_retained t \<rparr>) [t]"
      by (rule timer_step_removal [OF inv _ cancel_present(2) [OF inv t(1)]])
        (use t(1) in simp)
    then show ?thesis
      using TimerCancel cancel_present(1) [OF inv t(1)] t(2) by simp
  next
    case False
    then show ?thesis
      using TimerCancel cancel_absent [OF inv, of tok] inv by (simp add: timer_step_ok_def)
  qed
next
  case (TimerFire now budget)
  let ?due = "filter (is_due now) (tq_timers q)"
  let ?n = "min (unat budget) (length ?due)"
  have "timer_step_ok q (fire_first ?n q) (take ?n ?due)"
    unfolding fire_first_def
    by (rule timer_step_removal [OF inv _ drain_due_into_eq(2) [OF inv, unfolded fire_first_def]])
      (simp add: drain_due_into_eq(3) [OF inv] flip: mset_append)
  then show ?thesis
    using TimerFire drain_due_into_eq(1) [OF inv, of now "[]" budget] by simp
qed

lemma timer_run_safe:
  assumes "timer_inv q"
  shows "\<exists>q' out. timer_run ops q = Ret (q', out) \<and> timer_step_ok q q' out"
  using assms
proof (induction ops arbitrary: q)
  case (Cons op ops)
  obtain q1 o1 where 1: "timer_step op q = Ret (q1, o1)" "timer_step_ok q q1 o1"
    using timer_step_safe [OF Cons.prems] by blast
  then have "timer_inv q1"
    by (simp add: timer_step_ok_def)
  then obtain q2 o2 where 2: "timer_run ops q1 = Ret (q2, o2)" "timer_step_ok q1 q2 o2"
    using Cons.IH by blast
  have "timer_step_ok q q2 (o1 @ o2)"
    using 1(2) 2(2) by (fastforce simp: timer_step_ok_def)
  then show ?case
    using 1(1) 2(1) by simp
qed (simp add: timer_step_ok_def)

section \<open>Theorems\<close>

lemma timers_strictly_sorted:
  assumes "timer_inv q"
  shows "sorted_wrt (\<lambda>t u. scheduled_key t < scheduled_key u) (tq_timers q)"
proof -
  have "distinct (tq_timers q)"
    using assms by (simp add: timer_inv_def distinct_map)
  then have "distinct (map scheduled_key (tq_timers q))"
    using timer_ids_inject [OF assms] by (auto simp: distinct_map inj_on_def scheduled_key_def)
  then show ?thesis
    using assms by (simp add: timer_inv_def heap_ok_def strict_sorted_iff flip: sorted_wrt_map)
qed

text \<open>
  C20. A drain fires exactly the due timers its budget allows, in order of deadline and then of
  admission identity, keeps every other timer, reports the number it fired, and says that more is
  due exactly when a due timer was left behind. It never reaches the accounting panic.
\<close>

theorem timer_drain_exact:
  assumes "timer_inv q"
  shows "\<exists>q' fired. TimerQueue_drain_due_into q now destination budget =
      Ret (q', destination @ fired, \<lparr> td_fired = length fired,
        td_more_due = (\<exists>t\<in>set (tq_timers q'). is_due now t) \<rparr>) \<and>
    timer_inv q' \<and> tq_timers q = fired @ tq_timers q' \<and>
    length fired = min (unat budget) (length (filter (is_due now) (tq_timers q))) \<and>
    (\<forall>t\<in>set fired. is_due now t) \<and>
    sorted_wrt (\<lambda>t u. scheduled_key t < scheduled_key u) (fired @ tq_timers q')"
proof -
  let ?due = "filter (is_due now) (tq_timers q)"
  let ?n = "min (unat budget) (length ?due)"
  let ?q = "fire_first ?n q" and ?f = "take ?n ?due"
  have parts: "tq_timers q = ?f @ tq_timers ?q"
    by (simp add: drain_due_into_eq(3) [OF assms] fire_first_def)
  have due: "\<forall>t\<in>set ?f. is_due now t"
    by (auto dest: in_set_takeD)
  then have "length ?due = length ?f + length (filter (is_due now) (tq_timers ?q))"
    using parts by (metis filter_True filter_append length_append)
  then have left: "length (filter (is_due now) (tq_timers ?q)) = length ?due - ?n"
    by simp
  have "(\<exists>t\<in>set (tq_timers ?q). is_due now t) \<longleftrightarrow> 0 < length (filter (is_due now) (tq_timers ?q))"
    by (simp add: filter_empty_conv)
  then have more: "(\<exists>t\<in>set (tq_timers ?q). is_due now t) \<longleftrightarrow> unat budget < length ?due"
    unfolding left by auto
  have sorted: "sorted_wrt (\<lambda>t u. scheduled_key t < scheduled_key u) (?f @ tq_timers ?q)"
    using timers_strictly_sorted [OF assms] parts by metis
  have len: "length ?f = ?n"
    by simp
  have "TimerQueue_drain_due_into q now destination budget = Ret (?q, destination @ ?f,
      \<lparr> td_fired = length ?f, td_more_due = (\<exists>t\<in>set (tq_timers ?q). is_due now t) \<rparr>)"
    unfolding more len by (rule drain_due_into_eq(1) [OF assms])
  then show ?thesis
    using drain_due_into_eq(2) [OF assms, of budget now] parts due sorted len by blast
qed

definition timer_demo :: "nat timer_queue" where
  "timer_demo = TimerQueue_with_measure 3 \<lparr> tl_timers = 4, tl_retained_bytes = 100 \<rparr> of_nat"

lemma timer_inv_demo: "timer_inv timer_demo"
  by (simp add: timer_demo_def TimerQueue_with_measure_def timer_inv_starting_at)

theorem timer_drain_exact_witness:
  "\<exists>q' fired. TimerQueue_drain_due_into (fst (TimerQueue_schedule timer_demo 5 9)) 8 [] 1 =
      Ret (q', fired, \<lparr> td_fired = length fired,
        td_more_due = (\<exists>t\<in>set (tq_timers q'). is_due 8 t) \<rparr>) \<and> timer_inv q'"
  using timer_drain_exact [OF timer_inv_schedule [OF timer_inv_demo], of 5 9 8 "[]" 1] by auto

text \<open>
  C21. Over any sequence of schedules, cancellations and drains, nothing panics, the invariant
  (both limits, the byte total, distinct identities below the next one, heap order) holds, every
  timer leaves the queue at most once, and a token whose timer has left cancels nothing afterwards.
\<close>

theorem timer_leaves_at_most_once:
  assumes "timer_inv q"
  shows "\<exists>q' out. timer_run ops q = Ret (q', out) \<and> timer_inv q' \<and>
    distinct (map id_of out) \<and>
    (\<forall>t\<in>set out. TimerQueue_cancel q' (tm_token t) = Ret (q', None))"
proof -
  obtain q' out where run: "timer_run ops q = Ret (q', out)" "timer_step_ok q q' out"
    using timer_run_safe [OF assms] by blast
  have "TimerQueue_cancel q' (tm_token t) = Ret (q', None)" if "t \<in> set out" for t
  proof (rule cancel_absent)
    show "timer_inv q'"
      using run(2) by (simp add: timer_step_ok_def)
    have "timer_dead q' (id_of t)"
      using run(2) that by (simp add: timer_step_ok_def)
    then show "\<forall>u\<in>set (tq_timers q'). tm_token u \<noteq> tm_token t"
      by (metis timer_dead_def)
  qed
  then show ?thesis
    using run by (auto simp: timer_step_ok_def)
qed

theorem timer_leaves_at_most_once_witness:
  "\<exists>q' out. timer_run [TimerSchedule 5 9, TimerSchedule 5 1, TimerFire 6 1, TimerFire 6 8]
       timer_demo = Ret (q', out) \<and> distinct (map id_of out)"
  using timer_leaves_at_most_once [OF timer_inv_demo] by blast

text \<open>
  Cancellation is exact: the token of a pending timer removes that timer and no other and
  returns it with its admission-time measurement given back; any other token leaves the queue as
  it was.
\<close>

theorem timer_cancel_exact:
  assumes "timer_inv q"
  shows "case TimerQueue_cancel q tok of
      Panic \<Rightarrow> False
    | Ret (q', Some t) \<Rightarrow> tm_token t = tok \<and> timer_inv q' \<and>
        mset (tq_timers q) = add_mset t (mset (tq_timers q')) \<and>
        unat (tq_retained q) = unat (tq_retained q') + unat (tm_retained t)
    | Ret (q', None) \<Rightarrow> q' = q \<and> (\<forall>t\<in>set (tq_timers q). tm_token t \<noteq> tok)"
proof (cases "\<exists>t\<in>set (tq_timers q). tm_token t = tok")
  case True
  then obtain t where t: "t \<in> set (tq_timers q)" "tm_token t = tok"
    by blast
  then have "tm_retained t \<le> tq_retained q"
    by (intro timers.entry_le [OF assms]) (simp add: timer_sizes_def)
  then have "unat (tq_retained q) = unat (tq_retained q - tm_retained t) + unat (tm_retained t)"
    by (simp add: unat_sub word_le_nat_alt)
  then show ?thesis
    using cancel_present [OF assms t(1)] t by simp
next
  case False
  then show ?thesis
    using cancel_absent [OF assms, of tok] by simp
qed

theorem timer_cancel_exact_witness:
  "case TimerQueue_cancel (fst (TimerQueue_schedule timer_demo 5 9)) (TimerToken 3 0 5) of
      Panic \<Rightarrow> False
    | Ret (q', Some t) \<Rightarrow> tm_token t = TimerToken 3 0 5 \<and> timer_inv q' \<and>
        mset (tq_timers (fst (TimerQueue_schedule timer_demo 5 9))) = add_mset t (mset (tq_timers q')) \<and>
        unat (tq_retained (fst (TimerQueue_schedule timer_demo 5 9))) =
          unat (tq_retained q') + unat (tm_retained t)
    | Ret (q', None) \<Rightarrow> q' = fst (TimerQueue_schedule timer_demo 5 9) \<and>
        (\<forall>t\<in>set (tq_timers (fst (TimerQueue_schedule timer_demo 5 9))). tm_token t \<noteq> TimerToken 3 0 5)"
  by (rule timer_cancel_exact [OF timer_inv_schedule [OF timer_inv_demo]])

text \<open>
  Scheduling is admitted exactly when the count, the bytes and an identity leave room. It then
  adds one timer under a token whose identity is above every identity issued before, so a timer
  admitted later fires after one admitted earlier at the same deadline. A refusal changes nothing
  and gives the deadline and the value back.
\<close>

theorem timer_schedule_exact:
  assumes "timer_inv q"
  shows "case TimerQueue_schedule q d v of
      (q', Inr tok) \<Rightarrow> timer_admits q v \<and> timer_inv q' \<and>
        tok = TimerToken (tq_owner q) (the (tq_next_id q)) d \<and>
        mset (tq_timers q') = add_mset \<lparr> tm_token = tok, tm_value = v, tm_retained = tq_measure q v \<rparr>
          (mset (tq_timers q)) \<and>
        (\<forall>t\<in>set (tq_timers q). id_of t < timer_token_id tok \<and>
           (Timer_deadline t \<le> d \<longrightarrow> scheduled_key t < (d, timer_token_id tok)))
    | (q', Inl e) \<Rightarrow> \<not> timer_admits q v \<and> q' = q \<and> tse_deadline e = d \<and> tse_value e = v"
proof (cases "timer_admits q v")
  case False
  then show ?thesis
    using schedule_rejected [of q v d] by auto
next
  case True
  then obtain i where i: "tq_next_id q = Some i"
    by (auto simp: timer_admits_def)
  have "\<forall>t\<in>set (tq_timers q). id_of t < i"
    using assms i by (simp add: timer_inv_def id_below_def)
  then show ?thesis
    using timer_inv_schedule [OF assms, of d v] True i
    by (auto simp: schedule_admitted [OF True i] heap_push_def scheduled_key_def less_prod_def)
qed

theorem timer_schedule_exact_witness:
  "case TimerQueue_schedule timer_demo 5 9 of
      (q', Inr tok) \<Rightarrow> timer_admits timer_demo 9 \<and> timer_inv q' \<and>
        tok = TimerToken (tq_owner timer_demo) (the (tq_next_id timer_demo)) 5 \<and>
        mset (tq_timers q') = add_mset \<lparr> tm_token = tok, tm_value = 9,
          tm_retained = tq_measure timer_demo 9 \<rparr> (mset (tq_timers timer_demo)) \<and>
        (\<forall>t\<in>set (tq_timers timer_demo). id_of t < timer_token_id tok \<and>
           (Timer_deadline t \<le> 5 \<longrightarrow> scheduled_key t < (5, timer_token_id tok)))
    | (q', Inl e) \<Rightarrow> \<not> timer_admits timer_demo 9 \<and> q' = timer_demo \<and> tse_deadline e = 5 \<and> tse_value e = 9"
  by (rule timer_schedule_exact [OF timer_inv_demo])

end
