(* ===== verification/Event_Store.thy ===== *)
theory Event_Store
  imports Prelude
begin

text \<open>
  What a transaction needs from the store it runs on: cancelling and restoring events by token.
  \<open>event_store\<close> states the contract, and the lemma proved inside it is the rollback theorem: a
  journal of the events a transaction inserted and removed is enough to put the store back.

  \<open>later s0 s\<close> says that \<open>s\<close> is \<open>s0\<close> with other events and possibly more identities issued, and
  \<open>agree\<close> that two stores are the same but for the identities issued.
\<close>

locale event_store =
  fixes ok :: "'s \<Rightarrow> bool"
    and later :: "'s \<Rightarrow> 's \<Rightarrow> bool"
    and agree :: "'s \<Rightarrow> 's \<Rightarrow> bool"
    and content :: "'s \<Rightarrow> 't \<Rightarrow> 'e option"
    and cancel :: "'s \<Rightarrow> 't \<Rightarrow> ('s \<times> 'e option) run"
    and restore :: "'s \<Rightarrow> 't \<Rightarrow> 'e \<Rightarrow> 's run"
  assumes cancel_hit: "ok s \<Longrightarrow> content s tok = Some e \<Longrightarrow>
      \<exists>s'. cancel s tok = Ret (s', Some e) \<and> ok s' \<and> content s' = (content s)(tok := None) \<and>
        (\<forall>s0. later s0 s \<longrightarrow> later s0 s')"
    and restore_below: "ok s0 \<Longrightarrow> ok s \<Longrightarrow> later s0 s \<Longrightarrow> content s \<subseteq>\<^sub>m content s0 \<Longrightarrow>
      content s tok = None \<Longrightarrow> content s0 tok = Some e \<Longrightarrow>
      \<exists>s'. restore s tok e = Ret s' \<and> ok s' \<and> content s' = (content s)(tok \<mapsto> e) \<and> later s0 s'"
    and determined: "ok s0 \<Longrightarrow> ok s \<Longrightarrow> later s0 s \<Longrightarrow> content s0 = content s \<Longrightarrow> agree s0 s"

section \<open>Rollback\<close>

fun undo_inserted :: "('s \<Rightarrow> 't \<Rightarrow> ('s \<times> 'e option) run) \<Rightarrow> 't list \<Rightarrow> 's \<Rightarrow> 's run" where
  "undo_inserted cancel [] s = Ret s"
| "undo_inserted cancel (tok # toks) s =
     and_then (cancel s tok) (\<lambda>(s', removed).
       case removed of None \<Rightarrow> Panic | Some _ \<Rightarrow> undo_inserted cancel toks s')"

fun undo_removed :: "('s \<Rightarrow> 't \<Rightarrow> 'e \<Rightarrow> 's run) \<Rightarrow> ('t \<times> 'e) list \<Rightarrow> 's \<Rightarrow> 's run" where
  "undo_removed restore [] s = Ret s"
| "undo_removed restore ((tok, e) # rest) s = and_then (restore s tok e) (undo_removed restore rest)"

text \<open>What a journal of inserted tokens and removed events says of the store.\<close>

definition journal ::
  "('t \<Rightarrow> 'e option) \<Rightarrow> ('t \<Rightarrow> 'e option) \<Rightarrow> 't list \<Rightarrow> ('t \<times> 'e) list \<Rightarrow> bool" where
  "journal before after inserted removed \<longleftrightarrow>
     distinct inserted \<and> distinct (map fst removed) \<and>
     (\<forall>tok\<in>set inserted. before tok = None \<and> after tok \<noteq> None) \<and>
     (\<forall>(tok, e)\<in>set removed. before tok = Some e) \<and>
     (\<forall>tok. tok \<notin> set inserted \<longrightarrow>
        after tok = (if tok \<in> fst ` set removed then None else before tok))"

lemma journal_start: "journal c c [] []"
  by (simp add: journal_def)

lemma journal_insert:
  assumes "journal before after inserted removed" "after tok = None" "before tok = None"
    and "set inserted' = insert tok (set inserted)" "distinct inserted'"
  shows "journal before (after(tok \<mapsto> e)) inserted' removed"
  using assms by (auto simp: journal_def image_iff)

lemma journal_uninsert:
  assumes "journal before after inserted removed" "tok \<in> set inserted"
    and "set inserted' = set inserted - {tok}" "distinct inserted'"
  shows "journal before (after(tok := None)) inserted' removed"
  using assms by (auto simp: journal_def)

lemma journal_remove:
  assumes "journal before after inserted removed" "tok \<notin> set inserted" "after tok = Some e"
  shows "journal before (after(tok := None)) inserted (removed @ [(tok, e)])"
proof -
  have "tok \<notin> fst ` set removed" "before tok = Some e"
    using assms by (auto simp: journal_def split: if_splits)
  then show ?thesis
    using assms(1,2) by (auto simp: journal_def)
qed

lemma journal_finished:
  assumes "journal before after [] []"
  shows "after = before"
  using assms by (auto simp: journal_def)

context event_store
begin

lemma undo_inserted_ok:
  assumes "ok s" "later s0 s" "journal before (content s) inserted removed"
  shows "\<exists>s'. undo_inserted cancel inserted s = Ret s' \<and> ok s' \<and> later s0 s' \<and>
    journal before (content s') [] removed"
  using assms
proof (induction inserted arbitrary: s)
  case (Cons tok toks)
  obtain e where "content s tok = Some e"
    using Cons.prems(3) by (auto simp: journal_def)
  then obtain s1 where s1: "cancel s tok = Ret (s1, Some e)" "ok s1"
      "content s1 = (content s)(tok := None)" "later s0 s1"
    using cancel_hit [OF Cons.prems(1)] Cons.prems(2) by blast
  have "journal before (content s1) toks removed"
    unfolding s1(3) by (rule journal_uninsert [OF Cons.prems(3)])
      (use Cons.prems(3) in \<open>auto simp: journal_def\<close>)
  then show ?case
    using Cons.IH [OF s1(2,4)] s1(1) by simp
qed simp

lemma undo_removed_ok:
  assumes "ok s0" "ok s" "later s0 s" "journal (content s0) (content s) [] removed"
  shows "\<exists>s'. undo_removed restore removed s = Ret s' \<and> agree s0 s' \<and> ok s' \<and> later s0 s'"
  using assms
proof (induction removed arbitrary: s)
  case Nil
  then show ?case
    using determined [of s0 s] journal_finished by fastforce
next
  case (Cons p rest)
  obtain tok e where p: "p = (tok, e)"
    by (cases p)
  have c: "content s0 tok = Some e" "content s tok = None" "content s \<subseteq>\<^sub>m content s0"
    using Cons.prems(4) p by (auto simp: journal_def map_le_def split: if_splits)
  then obtain s1 where s1: "restore s tok e = Ret s1" "ok s1" "later s0 s1"
      "content s1 = (content s)(tok \<mapsto> e)"
    using restore_below [OF Cons.prems(1-3)] by blast
  have "journal (content s0) (content s1) [] rest"
    using Cons.prems(4) p c(1) unfolding s1(4) by (auto simp: journal_def image_iff)
  then show ?case
    using Cons.IH [OF Cons.prems(1) s1(2,3)] s1(1) p by simp
qed

lemma rollback:
  assumes "ok s0" "ok s" "later s0 s" "journal (content s0) (content s) inserted removed"
  shows "\<exists>s'. and_then (undo_inserted cancel inserted s) (undo_removed restore removed) = Ret s' \<and>
    agree s0 s' \<and> ok s' \<and> later s0 s'"
  using undo_inserted_ok [OF assms(2-4)] undo_removed_ok [OF assms(1)] by fastforce

end

end
