(* ===== verification/Sim_Event.thy ===== *)
theory Sim_Event
  imports Clock_Time Search "HOL-Library.Product_Lexorder"
begin

text \<open>
  The vocabulary of the simulator: event identities, tokens and deliveries (\<open>event.rs\<close>), planned
  outcomes (\<open>plan.rs\<close>), the virtual clock (\<open>clock.rs\<close>), entropy streams (\<open>entropy.rs\<close>), and action
  keys with their canonical order and the ready set searched by it (\<open>action.rs\<close>).
\<close>

section \<open>Events\<close>

type_synonym timeline_id = u64
type_synonym event_id = u64

definition EventId_MIN :: event_id where
  "EventId_MIN = 0"

definition EventId_MAX :: event_id where
  "EventId_MAX = - 1"

datatype event_token = EventToken (event_timeline: timeline_id) (event_token_id: event_id)
  (event_at: moment)

text \<open>The derived order of tokens is lexicographic in the order of the fields.\<close>

definition event_token_key :: "event_token \<Rightarrow> timeline_id \<times> event_id \<times> moment" where
  "event_token_key self = (event_timeline self, event_token_id self, event_at self)"

lemma event_token_key_inject: "event_token_key a = event_token_key b \<longleftrightarrow> a = b"
  by (cases a; cases b) (simp add: event_token_key_def)

instantiation event_token :: linorder
begin

definition less_eq_event_token :: "event_token \<Rightarrow> event_token \<Rightarrow> bool" where
  "less_eq_event_token a b \<longleftrightarrow> event_token_key a \<le> event_token_key b"

definition less_event_token :: "event_token \<Rightarrow> event_token \<Rightarrow> bool" where
  "less_event_token a b \<longleftrightarrow> event_token_key a < event_token_key b"

instance
proof
  fix a b c :: event_token
  show "a < b \<longleftrightarrow> a \<le> b \<and> \<not> b \<le> a"
    unfolding less_eq_event_token_def less_event_token_def by (rule less_le_not_le)
  show "a \<le> a" "a \<le> b \<Longrightarrow> b \<le> c \<Longrightarrow> a \<le> c" "a \<le> b \<or> b \<le> a"
    unfolding less_eq_event_token_def by (simp, rule order_trans, assumption, assumption, rule linear)
  show "a \<le> b \<Longrightarrow> b \<le> a \<Longrightarrow> a = b"
    by (simp add: less_eq_event_token_def flip: event_token_key_inject)
qed

end

record 'e delivery =
  delivery_token :: event_token
  delivery_event :: 'e

record 'e planned =
  planned_delay :: span
  planned_outcome :: 'e

definition Planned_map :: "'e planned \<Rightarrow> ('e \<Rightarrow> 'f) \<Rightarrow> 'f planned" where
  "Planned_map self f = \<lparr> planned_delay = planned_delay self, planned_outcome = f (planned_outcome self) \<rparr>"

section \<open>The virtual clock\<close>

datatype clock_error =
  MovesBackward (clock_current: moment) (clock_requested: moment)
| ClockOverflow (clock_current: moment) (clock_span: span)

record virtual_clock =
  vc_now :: moment

definition VirtualClock_at :: "moment \<Rightarrow> virtual_clock" where
  "VirtualClock_at now = \<lparr> vc_now = now \<rparr>"

definition VirtualClock_new :: virtual_clock where
  "VirtualClock_new = VirtualClock_at Moment_ORIGIN"

definition VirtualClock_advance_to :: "virtual_clock \<Rightarrow> moment \<Rightarrow> virtual_clock \<times> (clock_error + unit)" where
  "VirtualClock_advance_to self requested =
     (if requested < vc_now self then (self, Inl (MovesBackward (vc_now self) requested))
      else (self \<lparr> vc_now := requested \<rparr>, Inr ()))"

definition VirtualClock_advance_by :: "virtual_clock \<Rightarrow> span \<Rightarrow> virtual_clock \<times> (clock_error + unit)" where
  "VirtualClock_advance_by self sp =
     (case Moment_checked_add (vc_now self) sp of
        None \<Rightarrow> (self, Inl (ClockOverflow (vc_now self) sp))
      | Some requested \<Rightarrow> (self \<lparr> vc_now := requested \<rparr>, Inr ()))"

section \<open>Entropy\<close>

text \<open>SplitMix64 with a stream identity folded into its start state.\<close>

record split_mix64 =
  sm_seed :: u64
  sm_stream :: u64
  sm_state :: u64

unbundle bit_operations_syntax

definition mix_GAMMA :: u64 where
  "mix_GAMMA = 0x9e3779b97f4a7c15"

definition mix_STREAM_DOMAIN :: u64 where
  "mix_STREAM_DOMAIN = 0xd1b54a32d192ed03"

definition mix :: "u64 \<Rightarrow> u64" where
  "mix v0 =
     (let v1 = (v0 XOR drop_bit 30 v0) * 0xbf58476d1ce4e5b9;
          v2 = (v1 XOR drop_bit 27 v1) * 0x94d049bb133111eb
      in v2 XOR drop_bit 31 v2)"

definition SplitMix64_new :: "u64 \<Rightarrow> u64 \<Rightarrow> split_mix64" where
  "SplitMix64_new seed stream =
     (let namespace = mix (stream + mix_STREAM_DOMAIN)
      in \<lparr> sm_seed = seed, sm_stream = stream, sm_state = seed XOR namespace \<rparr>)"

definition SplitMix64_next_u64 :: "split_mix64 \<Rightarrow> split_mix64 \<times> u64" where
  "SplitMix64_next_u64 self =
     (let state = sm_state self + mix_GAMMA in (self \<lparr> sm_state := state \<rparr>, mix state))"

section \<open>Actions\<close>

type_synonym action_id = u64
type_synonym duty_id = u32

datatype action_kind = Delivery event_token | TurnAction

datatype action_key = ActionKey (action_duty: duty_id) (action_kind: action_kind)

definition ActionKey_delivery :: "duty_id \<Rightarrow> event_token \<Rightarrow> action_key" where
  "ActionKey_delivery duty token = ActionKey duty (Delivery token)"

definition ActionKey_turn :: "duty_id \<Rightarrow> action_key" where
  "ActionKey_turn duty = ActionKey duty TurnAction"

text \<open>\<open>core::cmp::Ordering\<close> with \<open>Ord::cmp\<close> on words and \<open>then_with\<close>.\<close>

datatype ordering = Less | Equal | Greater

definition cmp_word :: "'a::len word \<Rightarrow> 'a word \<Rightarrow> ordering" where
  "cmp_word a b = (if a < b then Less else if a = b then Equal else Greater)"

definition then_with :: "ordering \<Rightarrow> ordering \<Rightarrow> ordering" where
  "then_with x y = (case x of Equal \<Rightarrow> y | _ \<Rightarrow> x)"

definition ActionKey_cmp :: "action_key \<Rightarrow> action_key \<Rightarrow> ordering" where
  "ActionKey_cmp self other =
     (case (action_kind self, action_kind other) of
        (Delivery left, Delivery right) \<Rightarrow>
          then_with (then_with (then_with
            (cmp_word (event_at left) (event_at right))
            (cmp_word (event_timeline left) (event_timeline right)))
            (cmp_word (event_token_id left) (event_token_id right)))
            (cmp_word (action_duty self) (action_duty other))
      | (Delivery _, TurnAction) \<Rightarrow> Less
      | (TurnAction, Delivery _) \<Rightarrow> Greater
      | (TurnAction, TurnAction) \<Rightarrow> cmp_word (action_duty self) (action_duty other))"

lemma cmp_word_cases [simp]:
  "cmp_word a b = Less \<longleftrightarrow> a < b" "cmp_word a b = Equal \<longleftrightarrow> a = b"
  "cmp_word a b = Greater \<longleftrightarrow> b < a"
  by (auto simp: cmp_word_def)

lemma then_with_cases [simp]:
  "then_with x y = Less \<longleftrightarrow> x = Less \<or> x = Equal \<and> y = Less"
  "then_with x y = Equal \<longleftrightarrow> x = Equal \<and> y = Equal"
  "then_with x y = Greater \<longleftrightarrow> x = Greater \<or> x = Equal \<and> y = Greater"
  by (cases x; simp add: then_with_def)+

lemma ActionKey_cmp_Equal: "ActionKey_cmp a b = Equal \<longleftrightarrow> a = b"
  by (cases a; cases b; cases "action_kind a"; cases "action_kind b")
    (auto simp: ActionKey_cmp_def event_token.expand)

lemma ActionKey_cmp_swap: "ActionKey_cmp a b = Greater \<longleftrightarrow> ActionKey_cmp b a = Less"
  by (cases a; cases b; cases "action_kind a"; cases "action_kind b")
    (auto simp: ActionKey_cmp_def)

lemma ActionKey_cmp_trans:
  "ActionKey_cmp a b = Less \<Longrightarrow> ActionKey_cmp b c = Less \<Longrightarrow> ActionKey_cmp a c = Less"
  by (cases "action_kind a"; cases "action_kind b"; cases "action_kind c")
    (auto simp: ActionKey_cmp_def)

text \<open>The order on keys is \<open>ActionKey::cmp\<close>; it is total, with equality as its equivalence.\<close>

instantiation action_key :: linorder
begin

definition less_eq_action_key :: "action_key \<Rightarrow> action_key \<Rightarrow> bool" where
  "less_eq_action_key a b \<longleftrightarrow> ActionKey_cmp a b \<noteq> Greater"

definition less_action_key :: "action_key \<Rightarrow> action_key \<Rightarrow> bool" where
  "less_action_key a b \<longleftrightarrow> ActionKey_cmp a b = Less"

instance
proof
  fix a b c :: action_key
  show "a < b \<longleftrightarrow> a \<le> b \<and> \<not> b \<le> a"
    unfolding less_eq_action_key_def less_action_key_def ActionKey_cmp_swap [of b a] by auto
  show "a \<le> a"
    using ActionKey_cmp_Equal [of a a] by (simp add: less_eq_action_key_def)
  show "a \<le> b \<Longrightarrow> b \<le> a \<Longrightarrow> a = b"
    using ActionKey_cmp_Equal [of a b]
    unfolding less_eq_action_key_def ActionKey_cmp_swap [of b a]
    by (cases "ActionKey_cmp a b") simp_all
  show "a \<le> b \<or> b \<le> a"
    unfolding less_eq_action_key_def ActionKey_cmp_swap [of b a] by auto
  show "a \<le> b \<Longrightarrow> b \<le> c \<Longrightarrow> a \<le> c"
    using ActionKey_cmp_trans [of a b c] ActionKey_cmp_Equal [of a b] ActionKey_cmp_Equal [of b c]
    by (cases "ActionKey_cmp a b"; cases "ActionKey_cmp b c") (auto simp: less_eq_action_key_def)
qed

end

section \<open>The ready set\<close>

text \<open>
  A \<open>ReadySet\<close> borrows a slice of keys in canonical order; \<open>contains\<close> is the standard library's
  binary search on it.
\<close>

type_synonym ready_set = "action_key list"

definition ReadySet_first :: "ready_set \<Rightarrow> action_key option" where
  "ReadySet_first self = (if self = [] then None else Some (self ! 0))"

definition ReadySet_contains :: "ready_set \<Rightarrow> action_key \<Rightarrow> bool" where
  "ReadySet_contains self action \<longleftrightarrow> binary_search action self 0 (length self) \<noteq> None"

lemma ReadySet_contains_iff: "sorted ready \<Longrightarrow> ReadySet_contains ready a \<longleftrightarrow> a \<in> set ready"
  using binary_search_complete [of ready "length ready" 0 _ a] binary_search_sound [of a ready 0 "length ready"]
  by (fastforce simp: ReadySet_contains_def in_set_conv_nth)

text \<open>
  C38. The canonical order of actions is total and antisymmetric, puts every delivery before every
  turn and an earlier delivery before a later one, and the binary search of a ready set in that
  order finds exactly the actions it lists.
\<close>

theorem canonical_order_and_search:
  "(ActionKey_cmp a b = Equal \<longleftrightarrow> a = b) \<and>
   (ActionKey_cmp a b = Less \<or> ActionKey_cmp a b = Equal \<or> ActionKey_cmp b a = Less) \<and>
   ActionKey_delivery d tok < ActionKey_turn d' \<and>
   (event_at tok < event_at tok' \<longrightarrow> ActionKey_delivery d tok < ActionKey_delivery d' tok') \<and>
   (sorted ready \<longrightarrow> (ReadySet_contains ready a \<longleftrightarrow> a \<in> set ready))"
  using ReadySet_contains_iff [of ready a] ActionKey_cmp_Equal [of a b] ActionKey_cmp_swap [of a b]
  by (cases "ActionKey_cmp a b")
    (auto simp: less_action_key_def ActionKey_cmp_def ActionKey_delivery_def ActionKey_turn_def)

theorem canonical_order_and_search_witness:
  "ReadySet_contains [ActionKey_delivery 9 (EventToken 1 0 5), ActionKey_turn 3] (ActionKey_turn 3)"
proof -
  have "sorted [ActionKey_delivery 9 (EventToken 1 0 5), ActionKey_turn 3]"
    by (simp add: less_eq_action_key_def ActionKey_cmp_def ActionKey_delivery_def ActionKey_turn_def)
  then show ?thesis
    using canonical_order_and_search
      [of _ _ _ _ _ _ "[ActionKey_delivery 9 (EventToken 1 0 5), ActionKey_turn 3]"] by auto
qed

end
