(* ===== verification/Timeline.thy ===== *)
theory Timeline
  imports Ledger BTree Event_Store Sim_Event
begin

text \<open>
  The bounded event timeline of the simulator (\<open>timeline/\<close>): a map from (moment, identity) to
  measured events, a virtual clock that moves only forward, and the rollback support an action's
  transaction uses. Events come out in order of their moment and, at one moment, of admission;
  cancelling and restoring is exact.
\<close>

section \<open>State\<close>

record timeline_limits =
  tml_pending_events :: usize
  tml_retained_bytes :: retained_bytes

definition TimelineLimits_default :: timeline_limits where
  "TimelineLimits_default = \<lparr> tml_pending_events = 1024, tml_retained_bytes = 16 * 1024 * 1024 \<rparr>"

record 'e timeline_entry =
  te_event :: 'e
  te_retained :: retained_bytes

record 'e timeline =
  tl_id :: timeline_id
  tl_clock :: virtual_clock
  tl_limits :: timeline_limits
  tl_measure :: "'e \<Rightarrow> retained_bytes"
  tl_next_id :: "u64 option"
  tl_retained :: retained_bytes
  tl_events :: "(moment \<times> event_id, 'e timeline_entry) btree"

datatype schedule_failure =
  ScheduledInPast moment moment
| TimeOverflow moment span
| TimelineCapacity usize
| TimelineRetainedOverflow retained_bytes retained_bytes
| TimelineRetainedCapacity retained_bytes retained_bytes retained_bytes
| EventIdsExhausted

record 'e schedule_error =
  se_event :: 'e
  se_failure :: schedule_failure

record timeline_snapshot =
  tls_id :: timeline_id
  tls_limits :: timeline_limits
  tls_now :: moment
  tls_pending_events :: nat
  tls_retained_bytes :: retained_bytes
  tls_next_at :: "moment option"

section \<open>Operations\<close>

definition Timeline_at_with_measure ::
  "timeline_id \<Rightarrow> moment \<Rightarrow> timeline_limits \<Rightarrow> ('e \<Rightarrow> retained_bytes) \<Rightarrow> 'e timeline" where
  "Timeline_at_with_measure ident now limits size_of =
     \<lparr> tl_id = ident, tl_clock = VirtualClock_at now, tl_limits = limits, tl_measure = size_of,
       tl_next_id = Some 0, tl_retained = RetainedBytes_ZERO, tl_events = [] \<rparr>"

definition Timeline_with_measure ::
  "timeline_id \<Rightarrow> timeline_limits \<Rightarrow> ('e \<Rightarrow> retained_bytes) \<Rightarrow> 'e timeline" where
  "Timeline_with_measure ident limits size_of =
     Timeline_at_with_measure ident Moment_ORIGIN limits size_of"

definition Timeline_now :: "'e timeline \<Rightarrow> moment" where
  "Timeline_now self = vc_now (tl_clock self)"

definition Timeline_is_empty :: "'e timeline \<Rightarrow> bool" where
  "Timeline_is_empty self \<longleftrightarrow> tl_events self = []"

definition Timeline_len :: "'e timeline \<Rightarrow> nat" where
  "Timeline_len self = length (tl_events self)"

definition Timeline_next_at :: "'e timeline \<Rightarrow> moment option" where
  "Timeline_next_at self = map_option (\<lambda>((at, _), _). at) (bt_first (tl_events self))"

definition Timeline_schedule_validated ::
  "'e timeline \<Rightarrow> moment \<Rightarrow> 'e \<Rightarrow> ('e timeline \<times> ('e schedule_error + event_token)) run" where
  "Timeline_schedule_validated self at event =
     (let rejected = (\<lambda>failure. Ret (self, Inl \<lparr> se_event = event, se_failure = failure \<rparr>)) in
      if unat (tml_pending_events (tl_limits self)) \<le> length (tl_events self)
      then rejected (TimelineCapacity (tml_pending_events (tl_limits self)))
      else let retained = tl_measure self event in
        case RetainedBytes_checked_add (tl_retained self) retained of
          None \<Rightarrow> rejected (TimelineRetainedOverflow (tl_retained self) retained)
        | Some next_retained \<Rightarrow>
            if tml_retained_bytes (tl_limits self) < next_retained
            then rejected (TimelineRetainedCapacity (tml_retained_bytes (tl_limits self))
                   (tl_retained self) retained)
            else case tl_next_id self of
              None \<Rightarrow> rejected EventIdsExhausted
            | Some ident \<Rightarrow>
                (case bt_get (tl_events self) (at, ident) of
                   Some _ \<Rightarrow> Panic
                 | None \<Rightarrow>
                     Ret (self \<lparr> tl_next_id := checked_add ident 1,
                                 tl_events := bt_insert (at, ident)
                                   \<lparr> te_event = event, te_retained = retained \<rparr> (tl_events self),
                                 tl_retained := next_retained \<rparr>,
                          Inr (EventToken (tl_id self) ident at))))"

definition Timeline_schedule_at ::
  "'e timeline \<Rightarrow> moment \<Rightarrow> 'e \<Rightarrow> ('e timeline \<times> ('e schedule_error + event_token)) run" where
  "Timeline_schedule_at self at event =
     (if at < Timeline_now self
      then Ret (self, Inl \<lparr> se_event = event, se_failure = ScheduledInPast (Timeline_now self) at \<rparr>)
      else Timeline_schedule_validated self at event)"

definition Timeline_schedule_after ::
  "'e timeline \<Rightarrow> span \<Rightarrow> 'e \<Rightarrow> ('e timeline \<times> ('e schedule_error + event_token)) run" where
  "Timeline_schedule_after self delay event =
     (case Moment_checked_add (Timeline_now self) delay of
        None \<Rightarrow> Ret (self, Inl \<lparr> se_event = event, se_failure = TimeOverflow (Timeline_now self) delay \<rparr>)
      | Some at \<Rightarrow> Timeline_schedule_validated self at event)"

definition Timeline_schedule_planned ::
  "'e timeline \<Rightarrow> 'e planned \<Rightarrow> ('e timeline \<times> ('e schedule_error + event_token)) run" where
  "Timeline_schedule_planned self pl =
     Timeline_schedule_after self (planned_delay pl) (planned_outcome pl)"

definition timeline_subtract_retained :: "retained_bytes \<Rightarrow> retained_bytes \<Rightarrow> retained_bytes run" where
  "timeline_subtract_retained current removed = expect (RetainedBytes_checked_sub current removed)"

definition Timeline_cancel :: "'e timeline \<Rightarrow> event_token \<Rightarrow> ('e timeline \<times> 'e option) run" where
  "Timeline_cancel self token =
     (if event_timeline token \<noteq> tl_id self then Ret (self, None)
      else let key = (event_at token, event_token_id token) in
        case bt_get (tl_events self) key of
          None \<Rightarrow> Ret (self, None)
        | Some entry \<Rightarrow>
            and_then (timeline_subtract_retained (tl_retained self) (te_retained entry)) (\<lambda>retained.
              Ret (self \<lparr> tl_events := bt_remove key (tl_events self), tl_retained := retained \<rparr>,
                   Some (te_event entry))))"

definition Timeline_advance_to :: "'e timeline \<Rightarrow> moment \<Rightarrow> 'e timeline run" where
  "Timeline_advance_to self requested =
     (case VirtualClock_advance_to (tl_clock self) requested of
        (_, Inl _) \<Rightarrow> Panic
      | (clock, Inr _) \<Rightarrow> Ret (self \<lparr> tl_clock := clock \<rparr>))"

definition Timeline_pop_next :: "'e timeline \<Rightarrow> ('e timeline \<times> 'e delivery option) run" where
  "Timeline_pop_next self =
     (case bt_first (tl_events self) of
        None \<Rightarrow> Ret (self, None)
      | Some ((at, ident), entry) \<Rightarrow>
          (case VirtualClock_advance_to (tl_clock self) at of
             (_, Inl _) \<Rightarrow> Panic
           | (clock, Inr _) \<Rightarrow>
               and_then (timeline_subtract_retained (tl_retained self) (te_retained entry)) (\<lambda>retained.
                 Ret (self \<lparr> tl_events := tl (tl_events self), tl_clock := clock,
                             tl_retained := retained \<rparr>,
                      Some \<lparr> delivery_token = EventToken (tl_id self) ident at,
                             delivery_event = te_event entry \<rparr>))))"

definition Timeline_snapshot :: "'e timeline \<Rightarrow> timeline_snapshot" where
  "Timeline_snapshot self =
     \<lparr> tls_id = tl_id self, tls_limits = tl_limits self, tls_now = Timeline_now self,
       tls_pending_events = length (tl_events self), tls_retained_bytes = tl_retained self,
       tls_next_at = Timeline_next_at self \<rparr>"

subsection \<open>Transaction support\<close>

definition Timeline_retained_for :: "'e timeline \<Rightarrow> event_token \<Rightarrow> retained_bytes option" where
  "Timeline_retained_for self token =
     (if event_timeline token \<noteq> tl_id self then None
      else map_option te_retained (bt_get (tl_events self) (event_at token, event_token_id token)))"

definition Timeline_event :: "'e timeline \<Rightarrow> event_token \<Rightarrow> 'e option" where
  "Timeline_event self token =
     (if event_timeline token \<noteq> tl_id self then None
      else map_option te_event (bt_get (tl_events self) (event_at token, event_token_id token)))"

definition Timeline_tokens_at :: "'e timeline \<Rightarrow> moment \<Rightarrow> event_token list" where
  "Timeline_tokens_at self at =
     map (\<lambda>((moment, ident), _). EventToken (tl_id self) ident moment)
       (filter (\<lambda>(key, _). (at, EventId_MIN) \<le> key \<and> key \<le> (at, EventId_MAX)) (tl_events self))"

definition Timeline_pending :: "'e timeline \<Rightarrow> (event_token \<times> 'e) list" where
  "Timeline_pending self =
     map (\<lambda>((at, ident), entry). (EventToken (tl_id self) ident at, te_event entry)) (tl_events self)"

text \<open>
  \<open>restore\<close> measures the event with its own \<open>Retained\<close> implementation, the first argument here;
  every failed \<open>assert\<close> is a panic.
\<close>

definition Timeline_restore ::
  "('e \<Rightarrow> retained_bytes) \<Rightarrow> 'e timeline \<Rightarrow> event_token \<Rightarrow> 'e \<Rightarrow> 'e timeline run" where
  "Timeline_restore event_bytes self token event =
     (if event_timeline token \<noteq> tl_id self then Panic
      else if \<not> Timeline_now self \<le> event_at token then Panic
      else if \<not> length (tl_events self) < unat (tml_pending_events (tl_limits self)) then Panic
      else let retained = event_bytes event in
        and_then (expect (RetainedBytes_checked_add (tl_retained self) retained)) (\<lambda>next_retained.
          if \<not> next_retained \<le> tml_retained_bytes (tl_limits self) then Panic
          else if bt_get (tl_events self) (event_at token, event_token_id token) \<noteq> None then Panic
          else Ret (self \<lparr> tl_events := bt_insert (event_at token, event_token_id token)
                             \<lparr> te_event = event, te_retained = retained \<rparr> (tl_events self),
                           tl_retained := next_retained \<rparr>)))"

section \<open>Invariant\<close>

definition timeline_sizes :: "'e timeline \<Rightarrow> retained_bytes multiset" where
  "timeline_sizes s = image_mset (\<lambda>p. te_retained (snd p)) (mset (tl_events s))"

definition below_next :: "u64 \<Rightarrow> u64 option \<Rightarrow> bool" where
  "below_next i bound = (case bound of None \<Rightarrow> True | Some b \<Rightarrow> i < b)"

definition timeline_inv :: "'e timeline \<Rightarrow> bool" where
  "timeline_inv s \<longleftrightarrow>
     bt_ok (tl_events s) \<and>
     length (tl_events s) \<le> unat (tml_pending_events (tl_limits s)) \<and>
     tl_retained s \<le> tml_retained_bytes (tl_limits s) \<and>
     unat (tl_retained s) = total_bytes (timeline_sizes s) \<and>
     (\<forall>((at, ident), entry)\<in>set (tl_events s).
        Timeline_now s \<le> at \<and> below_next ident (tl_next_id s) \<and>
        te_retained entry = tl_measure s (te_event entry))"

interpretation timelines: byte_ledger timeline_inv tl_retained timeline_sizes
  "\<lambda>s. tml_retained_bytes (tl_limits s)" "\<lambda>s. unat (tml_pending_events (tl_limits s))"
  by unfold_locales (auto simp: timeline_inv_def timeline_sizes_def)

text \<open>The contents of a timeline: the measured event a token names.\<close>

definition timeline_map :: "'e timeline \<Rightarrow> event_token \<Rightarrow> 'e timeline_entry option" where
  "timeline_map s tok =
     (if event_timeline tok = tl_id s then bt_get (tl_events s) (event_at tok, event_token_id tok)
      else None)"

definition timeline_content :: "'e timeline \<Rightarrow> event_token \<Rightarrow> 'e option" where
  "timeline_content s tok = map_option te_event (timeline_map s tok)"

definition next_le :: "u64 option \<Rightarrow> u64 option \<Rightarrow> bool" where
  "next_le a b = (case (a, b) of (_, None) \<Rightarrow> True | (None, Some _) \<Rightarrow> False | (Some x, Some y) \<Rightarrow> x \<le> y)"

definition timeline_later :: "'e timeline \<Rightarrow> 'e timeline \<Rightarrow> bool" where
  "timeline_later s0 s \<longleftrightarrow> tl_id s = tl_id s0 \<and> tl_clock s = tl_clock s0 \<and>
     tl_limits s = tl_limits s0 \<and> tl_measure s = tl_measure s0 \<and> next_le (tl_next_id s0) (tl_next_id s)"

definition timeline_agree :: "'e timeline \<Rightarrow> 'e timeline \<Rightarrow> bool" where
  "timeline_agree s0 s \<longleftrightarrow> s0 = s \<lparr> tl_next_id := tl_next_id s0 \<rparr>"

lemma below_next_mono: "next_le a b \<Longrightarrow> below_next i a \<Longrightarrow> below_next i b"
  by (auto simp: next_le_def below_next_def split: option.splits)

lemma next_le_refl: "next_le a a"
  by (simp add: next_le_def split: option.split)

lemma next_le_trans: "next_le a b \<Longrightarrow> next_le b c \<Longrightarrow> next_le a c"
  by (cases a; cases b; cases c) (simp_all add: next_le_def)

lemma timeline_later_trans: "timeline_later a b \<Longrightarrow> timeline_later b c \<Longrightarrow> timeline_later a c"
  using next_le_trans by (auto simp: timeline_later_def)

lemma timeline_later_refl: "timeline_later s s"
  by (simp add: timeline_later_def next_le_refl)

lemma below_next_checked: "below_next j (checked_add i 1) \<longleftrightarrow> j \<le> i" for i j :: u64
proof (cases "checked_add i 1")
  case None
  then have "unat i = 2 ^ 64 - 1"
    using unat_less_exp [of i] by (simp add: checked_add_None_iff)
  then show ?thesis
    using None unat_less_exp [of j] by (simp add: below_next_def word_le_nat_alt)
next
  case (Some z)
  then show ?thesis
    using checked_add_SomeD [OF Some] by (auto simp: below_next_def word_le_nat_alt word_less_nat_alt)
qed

lemma next_le_checked: "next_le (Some i) (checked_add i 1)" for i :: u64
  by (auto simp: next_le_def word_le_nat_alt dest!: checked_add_SomeD split: option.split)

lemma timeline_inv_bt: "timeline_inv s \<Longrightarrow> bt_ok (tl_events s)"
  by (simp add: timeline_inv_def)

lemma timeline_entry_facts:
  assumes "timeline_inv s" "bt_get (tl_events s) (at, i) = Some en"
  shows "Timeline_now s \<le> at" "below_next i (tl_next_id s)" "te_retained en = tl_measure s (te_event en)"
    "te_retained en \<in># timeline_sizes s"
proof -
  have "((at, i), en) \<in> set (tl_events s)"
    using btree.entries_lookup [OF timeline_inv_bt [OF assms(1)]] assms(2) by simp
  then show "Timeline_now s \<le> at" "below_next i (tl_next_id s)"
      "te_retained en = tl_measure s (te_event en)" "te_retained en \<in># timeline_sizes s"
    using assms(1) by (force simp: timeline_inv_def timeline_sizes_def)+
qed

lemma bt_entries_remove:
  assumes "bt_ok m" shows "set (bt_remove k m) \<subseteq> set m"
  by (auto simp: bt_remove_def)

lemma timeline_inv_remove:
  assumes inv: "timeline_inv s" and get: "bt_get (tl_events s) k = Some en"
  shows "timeline_inv (s \<lparr> tl_events := bt_remove k (tl_events s),
    tl_retained := tl_retained s - te_retained en \<rparr>)"
proof -
  note bt = timeline_inv_bt [OF inv]
  have parts: "mset (tl_events s) = add_mset (k, en) (mset (bt_remove k (tl_events s)))"
    by (rule mset_bt_remove [OF bt get])
  have sz: "te_retained en \<in># timeline_sizes s"
    using parts by (simp add: timeline_sizes_def)
  have "unat (tl_retained s - te_retained en) =
      total_bytes (image_mset (\<lambda>p. te_retained (snd p)) (mset (bt_remove k (tl_events s))))"
    using timelines.release_balanced [OF inv sz] parts by (simp add: timeline_sizes_def)
  then show ?thesis
    using inv timelines.release_within [OF inv sz] length_bt_remove [OF bt get]
      bt_ok_remove [OF bt, of k] bt_entries_remove [OF bt, of k]
    by (auto simp: timeline_inv_def timeline_sizes_def Timeline_now_def)
qed

lemma timeline_inv_insert:
  assumes inv: "timeline_inv s" and get: "bt_get (tl_events s) (at, i) = None"
    and len: "length (tl_events s) < unat (tml_pending_events (tl_limits s))"
    and b: "unat (tl_retained s) + unat b \<le> unat (tml_retained_bytes (tl_limits s))"
    and facts: "Timeline_now s \<le> at" "below_next i nxt" "next_le (tl_next_id s) nxt"
      "b = tl_measure s e"
  shows "timeline_inv (s \<lparr> tl_next_id := nxt,
    tl_events := bt_insert (at, i) \<lparr> te_event = e, te_retained = b \<rparr> (tl_events s),
    tl_retained := tl_retained s + b \<rparr>)"
proof -
  let ?en = "\<lparr> te_event = e, te_retained = b \<rparr>"
  note bt = timeline_inv_bt [OF inv]
  have parts: "mset (bt_insert (at, i) ?en (tl_events s)) = add_mset ((at, i), ?en) (mset (tl_events s))"
    by (rule mset_bt_insert [OF get])
  then have mem: "set (bt_insert (at, i) ?en (tl_events s)) = insert ((at, i), ?en) (set (tl_events s))"
    by (metis set_mset_add_mset_insert set_mset_mset)
  have plus: "unat (tl_retained s + b) = unat (tl_retained s) + unat b"
    using b unat_less_exp [of "tml_retained_bytes (tl_limits s)"] by (simp add: unat_word_ariths)
  then have le: "tl_retained s + b \<le> tml_retained_bytes (tl_limits s)"
    using b by (simp add: word_le_nat_alt)
  have total: "unat (tl_retained s + b) =
      total_bytes (image_mset (\<lambda>p. te_retained (snd p)) (mset (bt_insert (at, i) ?en (tl_events s))))"
    using inv parts plus by (simp add: timeline_inv_def timeline_sizes_def)
  have "\<forall>((at, j), en)\<in>set (tl_events s). below_next j nxt"
    using inv below_next_mono [OF facts(3)] by (auto simp: timeline_inv_def)
  then show ?thesis
    using inv le total mem len facts length_bt_insert [OF get, of ?en] bt_ok_insert [OF bt]
    by (auto simp: timeline_inv_def timeline_sizes_def Timeline_now_def)
qed

section \<open>The event store\<close>

lemma timeline_map_remove:
  assumes "event_timeline tok = tl_id s"
  shows "timeline_content (s \<lparr> tl_events := bt_remove (event_at tok, event_token_id tok) (tl_events s),
      tl_retained := r \<rparr>) = (timeline_content s)(tok := None)"
  using assms by (auto simp: timeline_content_def timeline_map_def bt_get_remove fun_eq_iff
      event_token.expand)

lemma timeline_map_insert:
  assumes "event_timeline tok = tl_id s"
  shows "timeline_content (s \<lparr> tl_next_id := n, tl_events := bt_insert (event_at tok, event_token_id tok)
      \<lparr> te_event = e, te_retained = b \<rparr> (tl_events s), tl_retained := r \<rparr>) =
    (timeline_content s)(tok \<mapsto> e)"
  using assms by (auto simp: timeline_content_def timeline_map_def bt_get_insert fun_eq_iff
      event_token.expand)

lemma timeline_cancel_hit:
  assumes inv: "timeline_inv s" and tok: "timeline_map s tok = Some en"
  shows "Timeline_cancel s tok = Ret (s \<lparr>
      tl_events := bt_remove (event_at tok, event_token_id tok) (tl_events s),
      tl_retained := tl_retained s - te_retained en \<rparr>, Some (te_event en))"
proof -
  have get: "event_timeline tok = tl_id s" "bt_get (tl_events s) (event_at tok, event_token_id tok) = Some en"
    using tok by (simp_all add: timeline_map_def split: if_splits)
  show ?thesis
    using get timelines.release [OF inv timeline_entry_facts(4) [OF inv get(2)]]
    by (simp add: Timeline_cancel_def timeline_subtract_retained_def Let_def)
qed

lemma timeline_cancel_miss: "timeline_map s tok = None \<Longrightarrow> Timeline_cancel s tok = Ret (s, None)"
  by (simp add: Timeline_cancel_def timeline_map_def Let_def split: if_splits)

lemma timeline_inv_cancel:
  assumes "timeline_inv s" "Timeline_cancel s tok = Ret (s', r)"
  shows "timeline_inv s' \<and> r = timeline_content s tok \<and> timeline_content s' = (timeline_content s)(tok := None) \<and>
    tl_next_id s' = tl_next_id s \<and> tl_clock s' = tl_clock s \<and> tl_limits s' = tl_limits s \<and>
    tl_measure s' = tl_measure s \<and> tl_id s' = tl_id s"
proof (cases "timeline_map s tok")
  case None
  then show ?thesis
    using assms timeline_cancel_miss [OF None] by (auto simp: timeline_content_def fun_eq_iff)
next
  case (Some en)
  then have get: "event_timeline tok = tl_id s"
      "bt_get (tl_events s) (event_at tok, event_token_id tok) = Some en"
    by (simp_all add: timeline_map_def split: if_splits)
  show ?thesis
    using assms(2) Some timeline_cancel_hit [OF assms(1) Some] timeline_inv_remove [OF assms(1) get(2)]
      timeline_map_remove [OF get(1)]
    by (auto simp: timeline_content_def [of s tok])
qed

lemma mset_subset_of_map_le:
  assumes ok: "bt_ok m" "bt_ok n" and le: "bt_get m \<subseteq>\<^sub>m bt_get n"
  shows "mset m \<subseteq># mset n"
proof -
  have "set m \<subseteq> set n"
  proof
    fix p assume "p \<in> set m"
    then have "bt_get m (fst p) = Some (snd p)"
      using btree.entries_lookup [OF ok(1), of "fst p" "snd p"] by simp
    then have "bt_get n (fst p) = Some (snd p)"
      using le by (metis domI map_le_def)
    then show "p \<in> set n"
      using btree.entries_lookup [OF ok(2), of "fst p" "snd p"] by simp
  qed
  moreover have "distinct m" "distinct n"
    using bt_ok_distinct [OF ok(1)] bt_ok_distinct [OF ok(2)] by (simp_all add: distinct_map)
  ultimately show ?thesis
    using subset_imp_msubset_mset_set [of "set m" "set n"] by (simp add: mset_set_set)
qed

lemma timeline_entries_below:
  assumes inv: "timeline_inv s" "timeline_inv s0"
    and same: "tl_id s = tl_id s0" "tl_measure s = tl_measure s0"
    and le: "timeline_content s \<subseteq>\<^sub>m timeline_content s0"
  shows "bt_get (tl_events s) \<subseteq>\<^sub>m bt_get (tl_events s0)"
  unfolding map_le_def
proof
  fix k assume "k \<in> dom (bt_get (tl_events s))"
  then obtain at i en where k: "k = (at, i)" "bt_get (tl_events s) (at, i) = Some en"
    by (cases k) auto
  let ?tok = "EventToken (tl_id s) i at"
  have "timeline_content s ?tok = Some (te_event en)"
    using k by (simp add: timeline_content_def timeline_map_def)
  then have "timeline_content s0 ?tok = Some (te_event en)"
    using le by (metis domI map_le_def)
  then obtain en0 where en0: "bt_get (tl_events s0) (at, i) = Some en0" "te_event en0 = te_event en"
    using same(1) by (auto simp: timeline_content_def timeline_map_def split: if_splits)
  have "te_retained en0 = te_retained en"
    using timeline_entry_facts(3) [OF inv(1) k(2)] timeline_entry_facts(3) [OF inv(2) en0(1)]
      same(2) en0(2) by simp
  then show "bt_get (tl_events s) k = bt_get (tl_events s0) k"
    using k en0 by simp
qed

lemma timeline_restore_below:
  assumes inv0: "timeline_inv s0" and inv: "timeline_inv s" and later: "timeline_later s0 s"
    and le: "timeline_content s \<subseteq>\<^sub>m timeline_content s0"
    and new: "timeline_content s tok = None" and old: "timeline_content s0 tok = Some e"
  shows "\<exists>s'. Timeline_restore (tl_measure s) s tok e = Ret s' \<and> timeline_inv s' \<and>
    timeline_content s' = (timeline_content s)(tok \<mapsto> e) \<and> timeline_later s0 s' \<and>
    tl_measure s' = tl_measure s"
proof -
  let ?k = "(event_at tok, event_token_id tok)" and ?b = "tl_measure s e"
  let ?en = "\<lparr> te_event = e, te_retained = ?b \<rparr>"
  let ?m = "bt_insert ?k ?en (tl_events s)"
  let ?s = "s \<lparr> tl_next_id := tl_next_id s, tl_events := ?m, tl_retained := tl_retained s + ?b \<rparr>"
  obtain en0 where en0: "event_timeline tok = tl_id s0" "bt_get (tl_events s0) ?k = Some en0" "te_event en0 = e"
    using old by (auto simp: timeline_content_def timeline_map_def split: if_splits)
  note facts0 = timeline_entry_facts [OF inv0 en0(2)]
  have same: "tl_id s = tl_id s0" "Timeline_now s = Timeline_now s0" "tl_limits s = tl_limits s0"
      "tl_measure s = tl_measure s0"
    using later by (simp_all add: timeline_later_def Timeline_now_def)
  have get: "bt_get (tl_events s) ?k = None"
    using new en0(1) same by (simp add: timeline_content_def timeline_map_def)
  have "en0 = ?en"
    using facts0(3) en0(3) same by (cases en0) simp
  then have "bt_get ?m \<subseteq>\<^sub>m bt_get (tl_events s0)"
    using timeline_entries_below [OF inv inv0 same(1) same(4) le] en0(2)
    by (auto simp: bt_get_insert map_le_def)
  then have sub: "mset ?m \<subseteq># mset (tl_events s0)"
    by (rule mset_subset_of_map_le [OF bt_ok_insert [OF timeline_inv_bt [OF inv]] timeline_inv_bt [OF inv0]])
  have len: "length (tl_events s) < unat (tml_pending_events (tl_limits s))"
    using size_mset_mono [OF sub] length_bt_insert [OF get, of ?en] inv0 same
    by (simp add: timeline_inv_def)
  have "total_bytes (add_mset ?b (timeline_sizes s)) \<le> total_bytes (timeline_sizes s0)"
    using total_bytes_mono [OF image_mset_subseteq_mono [OF sub, of "\<lambda>p. te_retained (snd p)"]]
      mset_bt_insert [OF get, of ?en] by (simp add: timeline_sizes_def)
  then have room: "unat (tl_retained s) + unat ?b \<le> unat (tml_retained_bytes (tl_limits s))"
    using timelines.sizes_bounded [OF inv0] timelines.balanced [OF inv] same by simp
  then have small: "unat (tl_retained s) + unat ?b < 2 ^ 64"
    using unat_less_exp [of "tml_retained_bytes (tl_limits s)"] by simp
  then have fits: "tl_retained s + ?b \<le> tml_retained_bytes (tl_limits s)"
    using room by (simp add: word_le_nat_alt unat_word_ariths)
  have "Timeline_restore (tl_measure s) s tok e = Ret ?s"
    using en0(1) same facts0(1) len small fits get
    by (simp add: Timeline_restore_def RetainedBytes_checked_add_def checked_add_def Let_def)
  moreover have "timeline_inv ?s"
    using facts0 later same(2)
    by (intro timeline_inv_insert [OF inv get len room])
      (auto simp: timeline_later_def next_le_refl intro: below_next_mono)
  moreover have "timeline_content ?s = (timeline_content s)(tok \<mapsto> e)"
    using en0(1) same by (intro timeline_map_insert) simp
  ultimately show ?thesis
    using later by (intro exI [of _ ?s]) (simp add: timeline_later_def)
qed

interpretation timeline_store: event_store "\<lambda>s. timeline_inv s \<and> tl_measure s = event_bytes"
  timeline_later timeline_agree timeline_content Timeline_cancel "Timeline_restore event_bytes"
  for event_bytes :: "'e \<Rightarrow> retained_bytes"
proof (unfold_locales, goal_cases)
  case (1 s tok e)
  then obtain en where "timeline_map s tok = Some en" "te_event en = e"
    by (auto simp: timeline_content_def)
  then obtain s' where s': "Timeline_cancel s tok = Ret (s', Some e)"
    using timeline_cancel_hit [of s tok en] 1 by simp
  then show ?case
    using timeline_inv_cancel [of s tok s' "Some e"] 1 by (simp add: timeline_later_def)
next
  case (2 s0 s tok e)
  then show ?case
    using timeline_restore_below [of s0 s tok e] by auto
next
  case (3 s0 s)
  have frame: "tl_id s = tl_id s0" "tl_clock s = tl_clock s0" "tl_limits s = tl_limits s0"
      "tl_measure s = tl_measure s0"
    using 3 by (simp_all add: timeline_later_def)
  have "bt_get (tl_events s) \<subseteq>\<^sub>m bt_get (tl_events s0)"
    by (rule timeline_entries_below) (use 3 frame in auto)
  moreover have "bt_get (tl_events s0) \<subseteq>\<^sub>m bt_get (tl_events s)"
    by (rule timeline_entries_below) (use 3 frame in auto)
  ultimately have events: "tl_events s = tl_events s0"
    using 3 timeline_inv_bt by (intro bt_extensional) (auto intro: map_le_antisym)
  then have "tl_retained s = tl_retained s0"
    using timelines.balanced [of s] timelines.balanced [of s0] 3
    by (intro word_unat_eqI) (simp add: timeline_sizes_def)
  then show ?case
    using frame events by (simp add: timeline_agree_def)
qed

section \<open>Scheduling and delivery\<close>

definition timeline_admits :: "'e timeline \<Rightarrow> 'e \<Rightarrow> bool" where
  "timeline_admits s e \<longleftrightarrow>
     length (tl_events s) < unat (tml_pending_events (tl_limits s)) \<and>
     unat (tl_retained s) + unat (tl_measure s e) \<le> unat (tml_retained_bytes (tl_limits s)) \<and>
     tl_next_id s \<noteq> None"

lemma timeline_fresh_key:
  assumes "timeline_inv s" "tl_next_id s = Some i"
  shows "bt_get (tl_events s) (at, i) = None"
proof (rule ccontr)
  assume "bt_get (tl_events s) (at, i) \<noteq> None"
  then obtain en where "bt_get (tl_events s) (at, i) = Some en"
    by blast
  then show False
    using timeline_entry_facts(2) [OF assms(1)] assms(2) by (fastforce simp: below_next_def)
qed

lemma timeline_schedule_rejected:
  assumes inv: "timeline_inv s" and "\<not> timeline_admits s e"
  shows "\<exists>f. Timeline_schedule_validated s at e = Ret (s, Inl \<lparr> se_event = e, se_failure = f \<rparr>)"
  using assms(2) checked_add_SomeD [of "tl_retained s" "tl_measure s e"]
  by (auto simp: Timeline_schedule_validated_def timeline_admits_def RetainedBytes_checked_add_def
      Let_def word_less_nat_alt split: option.split)

definition timeline_put :: "'e timeline \<Rightarrow> moment \<Rightarrow> u64 \<Rightarrow> 'e \<Rightarrow> 'e timeline" where
  "timeline_put s at i e = s \<lparr> tl_next_id := checked_add i 1,
     tl_events := bt_insert (at, i) \<lparr> te_event = e, te_retained = tl_measure s e \<rparr> (tl_events s),
     tl_retained := tl_retained s + tl_measure s e \<rparr>"

lemma timeline_schedule_admitted:
  assumes inv: "timeline_inv s" and adm: "timeline_admits s e" and i: "tl_next_id s = Some i"
    and at: "Timeline_now s \<le> at"
  shows "Timeline_schedule_validated s at e = Ret (timeline_put s at i e, Inr (EventToken (tl_id s) i at))"
    and "timeline_inv (timeline_put s at i e)"
    and "timeline_content (timeline_put s at i e) = (timeline_content s)(EventToken (tl_id s) i at \<mapsto> e)"
    and "timeline_content s (EventToken (tl_id s) i at) = None"
    and "timeline_later s (timeline_put s at i e)"
proof -
  have room: "unat (tl_retained s) + unat (tl_measure s e) \<le> unat (tml_retained_bytes (tl_limits s))"
    using adm by (simp add: timeline_admits_def)
  then have small: "unat (tl_retained s) + unat (tl_measure s e) < 2 ^ 64"
    using unat_less_exp [of "tml_retained_bytes (tl_limits s)"] by simp
  then have fits: "\<not> tml_retained_bytes (tl_limits s) < tl_retained s + tl_measure s e"
    using room by (simp add: word_less_nat_alt unat_word_ariths)
  note fresh = timeline_fresh_key [OF inv i, of at]
  show "Timeline_schedule_validated s at e = Ret (timeline_put s at i e, Inr (EventToken (tl_id s) i at))"
    using adm i fresh small fits
    by (simp add: Timeline_schedule_validated_def timeline_admits_def RetainedBytes_checked_add_def
        checked_add_def [of "tl_retained s"] Let_def timeline_put_def)
  show "timeline_inv (timeline_put s at i e)"
    unfolding timeline_put_def
    by (rule timeline_inv_insert [OF inv fresh _ room at])
      (use adm i in \<open>simp_all add: timeline_admits_def below_next_checked next_le_checked\<close>)
  show "timeline_content (timeline_put s at i e) = (timeline_content s)(EventToken (tl_id s) i at \<mapsto> e)"
    using timeline_map_insert [of "EventToken (tl_id s) i at" s] by (simp add: timeline_put_def)
  show "timeline_content s (EventToken (tl_id s) i at) = None"
    by (simp add: timeline_content_def timeline_map_def fresh)
  show "timeline_later s (timeline_put s at i e)"
    by (simp add: timeline_later_def timeline_put_def i next_le_checked)
qed

lemma timeline_schedule_cases:
  assumes inv: "timeline_inv s" and at: "Timeline_now s \<le> at"
  obtains (rejected) f where "Timeline_schedule_validated s at e = Ret (s, Inl \<lparr> se_event = e, se_failure = f \<rparr>)"
      "\<not> timeline_admits s e"
  | (admitted) i where "timeline_admits s e" "tl_next_id s = Some i"
proof (cases "timeline_admits s e")
  case True
  then show ?thesis
    using admitted by (auto simp: timeline_admits_def)
next
  case False
  then show ?thesis
    using timeline_schedule_rejected [OF inv False, of at] rejected by blast
qed

lemma Timeline_schedule_at_eq:
  "Timeline_now s \<le> at \<Longrightarrow> Timeline_schedule_at s at e = Timeline_schedule_validated s at e"
  by (simp add: Timeline_schedule_at_def not_less [symmetric])

lemma timeline_pop_empty: "tl_events s = [] \<Longrightarrow> Timeline_pop_next s = Ret (s, None)"
  by (simp add: Timeline_pop_next_def bt_first_def)

definition timeline_popped :: "'e timeline \<Rightarrow> 'e timeline" where
  "timeline_popped s = s \<lparr> tl_events := tl (tl_events s),
     tl_clock := \<lparr> vc_now = fst (fst (hd (tl_events s))) \<rparr>,
     tl_retained := tl_retained s - te_retained (snd (hd (tl_events s))) \<rparr>"

lemma timeline_pop_some:
  assumes inv: "timeline_inv s" and ev: "tl_events s = ((at, i), en) # rest"
  shows "Timeline_pop_next s = Ret (timeline_popped s,
      Some \<lparr> delivery_token = EventToken (tl_id s) i at, delivery_event = te_event en \<rparr>)"
    and "timeline_inv (timeline_popped s)"
proof -
  have get: "bt_get (tl_events s) (at, i) = Some en"
    by (simp add: ev bt_get_def)
  note facts = timeline_entry_facts [OF inv get]
  have adv: "VirtualClock_advance_to (tl_clock s) at = (tl_clock s \<lparr> vc_now := at \<rparr>, Inr ())"
    using facts(1) by (auto simp: VirtualClock_advance_to_def Timeline_now_def)
  show "Timeline_pop_next s = Ret (timeline_popped s,
      Some \<lparr> delivery_token = EventToken (tl_id s) i at, delivery_event = te_event en \<rparr>)"
    using adv timelines.release [OF inv facts(4)]
    by (simp add: Timeline_pop_next_def bt_first_def ev timeline_subtract_retained_def
        timeline_popped_def)
  have bt: "\<forall>p\<in>set rest. (at, i) < fst p"
    using timeline_inv_bt [OF inv] by (simp add: ev)
  then have rest: "bt_remove (at, i) (tl_events s) = rest"
    by (auto simp: ev bt_remove_def filter_id_conv)
  show "timeline_inv (timeline_popped s)"
    using timeline_inv_remove [OF inv get] bt unfolding rest
    by (auto simp: timeline_inv_def timeline_popped_def ev timeline_sizes_def Timeline_now_def
        less_prod_def)
qed

section \<open>Runs of operations\<close>

datatype 'e timeline_op =
  TimelineAt moment 'e
| TimelineAfter span 'e
| TimelineCancel event_token
| TimelinePop

fun timeline_step :: "'e timeline_op \<Rightarrow> 'e timeline \<Rightarrow> ('e timeline \<times> 'e delivery list) run" where
  "timeline_step (TimelineAt at e) s = and_then (Timeline_schedule_at s at e) (\<lambda>(s', _). Ret (s', []))"
| "timeline_step (TimelineAfter d e) s = and_then (Timeline_schedule_after s d e) (\<lambda>(s', _). Ret (s', []))"
| "timeline_step (TimelineCancel tok) s = and_then (Timeline_cancel s tok) (\<lambda>(s', _). Ret (s', []))"
| "timeline_step TimelinePop s =
     and_then (Timeline_pop_next s) (\<lambda>(s', d). Ret (s', case d of None \<Rightarrow> [] | Some d \<Rightarrow> [d]))"

fun timeline_run :: "'e timeline_op list \<Rightarrow> 'e timeline \<Rightarrow> ('e timeline \<times> 'e delivery list) run" where
  "timeline_run [] s = Ret (s, [])"
| "timeline_run (op # ops) s =
     and_then (timeline_step op s) (\<lambda>(s', ds).
       and_then (timeline_run ops s') (\<lambda>(s'', ds'). Ret (s'', ds @ ds')))"

text \<open>
  \<open>above k s\<close>: everything the timeline holds or will ever admit has a key above \<open>k\<close>.
\<close>

definition above :: "moment \<times> event_id \<Rightarrow> 'e timeline \<Rightarrow> bool" where
  "above k s \<longleftrightarrow> (\<forall>p\<in>set (tl_events s). k < fst p) \<and> fst k \<le> Timeline_now s \<and>
     below_next (snd k) (tl_next_id s)"

abbreviation delivery_key :: "'e delivery \<Rightarrow> moment \<times> event_id" where
  "delivery_key d \<equiv> (event_at (delivery_token d), event_token_id (delivery_token d))"

definition timeline_step_ok :: "'e timeline \<Rightarrow> 'e timeline \<Rightarrow> 'e delivery list \<Rightarrow> bool" where
  "timeline_step_ok s s' ds \<longleftrightarrow> timeline_inv s' \<and> Timeline_now s \<le> Timeline_now s' \<and>
     (\<forall>k. above k s \<longrightarrow> above k s') \<and>
     sorted_wrt (<) (map delivery_key ds) \<and>
     (\<forall>d\<in>set ds. above (delivery_key d) s' \<and> (\<forall>k. above k s \<longrightarrow> k < delivery_key d))"

lemma timeline_step_ok_refl: "timeline_inv s \<Longrightarrow> timeline_step_ok s s []"
  by (simp add: timeline_step_ok_def)

lemma timeline_step_ok_trans:
  assumes "timeline_step_ok s s1 d1" "timeline_step_ok s1 s2 d2"
  shows "timeline_step_ok s s2 (d1 @ d2)"
proof -
  have cross: "\<forall>d\<in>set d1. \<forall>e\<in>set d2. delivery_key d < delivery_key e"
    using assms by (simp add: timeline_step_ok_def)
  have "\<forall>d\<in>set (d1 @ d2). above (delivery_key d) s2"
    using assms by (auto simp: timeline_step_ok_def)
  moreover have "\<forall>d\<in>set (d1 @ d2). \<forall>k. above k s \<longrightarrow> k < delivery_key d"
    using assms unfolding timeline_step_ok_def by (metis Un_iff set_append)
  moreover have "timeline_inv s2" "Timeline_now s \<le> Timeline_now s2" "\<forall>k. above k s \<longrightarrow> above k s2"
    using assms order_trans by (auto simp: timeline_step_ok_def)
  moreover have "sorted_wrt (<) (map delivery_key (d1 @ d2))"
    using assms cross by (auto simp: timeline_step_ok_def sorted_wrt_append)
  ultimately show ?thesis
    by (simp add: timeline_step_ok_def)
qed

lemma set_bt_insert:
  "bt_get m k = None \<Longrightarrow> set (bt_insert k v m) = insert (k, v) (set m)"
  by (metis mset_bt_insert set_mset_add_mset_insert set_mset_mset)

lemma above_put:
  assumes inv: "timeline_inv s" and i: "tl_next_id s = Some i" and at: "Timeline_now s \<le> at"
    and k: "above k s"
  shows "above k (timeline_put s at i e)"
proof -
  have "snd k < i" "fst k \<le> at"
    using k i at by (auto simp: above_def below_next_def)
  then have "k < (at, i)"
    by (cases k) (auto simp: less_prod_def)
  then show ?thesis
    using k \<open>snd k < i\<close> set_bt_insert [OF timeline_fresh_key [OF inv i, of at]]
    by (auto simp: above_def timeline_put_def Timeline_now_def below_next_checked)
qed

lemma timeline_step_ok_schedule:
  assumes inv: "timeline_inv s" and at: "Timeline_now s \<le> at"
  shows "\<exists>s' r. Timeline_schedule_validated s at e = Ret (s', r) \<and> timeline_step_ok s s' []"
proof (rule timeline_schedule_cases [OF inv at, of e], goal_cases)
  case (1 f)
  then show ?thesis
    using timeline_step_ok_refl [OF inv] by blast
next
  case (2 i)
  have "timeline_step_ok s (timeline_put s at i e) []"
    using timeline_schedule_admitted(2) [OF inv 2 at] above_put [OF inv 2(2) at]
    by (simp add: timeline_step_ok_def) (simp add: timeline_put_def Timeline_now_def)
  then show ?thesis
    using timeline_schedule_admitted(1) [OF inv 2 at] by blast
qed

lemma timeline_step_ok_pop:
  assumes inv: "timeline_inv s"
  shows "\<exists>s' d. Timeline_pop_next s = Ret (s', d) \<and>
    timeline_step_ok s s' (case d of None \<Rightarrow> [] | Some d \<Rightarrow> [d])"
proof (cases "tl_events s")
  case Nil
  then show ?thesis
    using timeline_pop_empty [OF Nil] timeline_step_ok_refl [OF inv] by simp
next
  case (Cons p rest)
  obtain at i en where p: "p = ((at, i), en)"
    by (metis surj_pair)
  have ev: "tl_events s = ((at, i), en) # rest"
    by (simp add: Cons p)
  have get: "bt_get (tl_events s) (at, i) = Some en"
    by (simp add: ev bt_get_def)
  have "timeline_step_ok s (timeline_popped s)
      [\<lparr> delivery_token = EventToken (tl_id s) i at, delivery_event = te_event en \<rparr>]"
    using timeline_pop_some(2) [OF inv ev] timeline_entry_facts(1,2) [OF inv get] timeline_inv_bt [OF inv]
    by (auto simp: timeline_step_ok_def timeline_popped_def above_def Timeline_now_def ev)
  then show ?thesis
    using timeline_pop_some(1) [OF inv ev] by simp
qed

lemma timeline_step_ok_cancel:
  assumes inv: "timeline_inv s"
  shows "\<exists>s' r. Timeline_cancel s tok = Ret (s', r) \<and> timeline_step_ok s s' []"
proof (cases "timeline_map s tok")
  case None
  then show ?thesis
    using timeline_cancel_miss [OF None] timeline_step_ok_refl [OF inv] by simp
next
  case (Some en)
  then have get: "bt_get (tl_events s) (event_at tok, event_token_id tok) = Some en"
    by (simp add: timeline_map_def split: if_splits)
  show ?thesis
    using timeline_cancel_hit [OF inv Some] timeline_inv_remove [OF inv get]
      bt_entries_remove [OF timeline_inv_bt [OF inv]]
    by (auto simp: timeline_step_ok_def above_def Timeline_now_def)
qed

lemma timeline_step_safe:
  assumes inv: "timeline_inv s"
  shows "\<exists>s' ds. timeline_step op s = Ret (s', ds) \<and> timeline_step_ok s s' ds"
proof (cases op)
  case (TimelineAt at e)
  show ?thesis
  proof (cases "at < Timeline_now s")
    case True
    then show ?thesis
      using TimelineAt timeline_step_ok_refl [OF inv] by (simp add: Timeline_schedule_at_def)
  next
    case False
    then have "Timeline_now s \<le> at"
      by simp
    then obtain s' r where "Timeline_schedule_validated s at e = Ret (s', r)" "timeline_step_ok s s' []"
      using timeline_step_ok_schedule [OF inv] by blast
    then show ?thesis
      using TimelineAt False by (simp add: Timeline_schedule_at_def)
  qed
next
  case (TimelineAfter d e)
  show ?thesis
  proof (cases "Moment_checked_add (Timeline_now s) d")
    case None
    then show ?thesis
      using TimelineAfter timeline_step_ok_refl [OF inv] by (simp add: Timeline_schedule_after_def)
  next
    case (Some at)
    obtain s' r where "Timeline_schedule_validated s at e = Ret (s', r)" "timeline_step_ok s s' []"
      using timeline_step_ok_schedule [OF inv Moment_checked_add_mono [OF Some]] by blast
    then show ?thesis
      using TimelineAfter Some by (simp add: Timeline_schedule_after_def)
  qed
next
  case (TimelineCancel tok)
  then show ?thesis
    using timeline_step_ok_cancel [OF inv, of tok] by auto
next
  case TimelinePop
  then show ?thesis
    using timeline_step_ok_pop [OF inv] by auto
qed

lemma timeline_run_safe:
  assumes "timeline_inv s"
  shows "\<exists>s' ds. timeline_run ops s = Ret (s', ds) \<and> timeline_step_ok s s' ds"
  using assms
proof (induction ops arbitrary: s)
  case Nil
  then show ?case
    by (simp add: timeline_step_ok_refl)
next
  case (Cons op ops)
  obtain s1 d1 where 1: "timeline_step op s = Ret (s1, d1)" "timeline_step_ok s s1 d1"
    using timeline_step_safe [OF Cons.prems] by blast
  then obtain s2 d2 where "timeline_run ops s1 = Ret (s2, d2)" "timeline_step_ok s1 s2 d2"
    using Cons.IH [of s1] by (auto simp: timeline_step_ok_def)
  then show ?case
    using 1 timeline_step_ok_trans by fastforce
qed

section \<open>Observations\<close>

lemma timeline_inv_at: "timeline_inv (Timeline_at_with_measure ident now limits size_of)"
  by (simp add: timeline_inv_def Timeline_at_with_measure_def timeline_sizes_def RetainedBytes_ZERO_def)

lemma tokens_at_iff:
  assumes "timeline_inv s"
  shows "tok \<in> set (Timeline_tokens_at s at) \<longleftrightarrow> event_at tok = at \<and> timeline_map s tok \<noteq> None"
proof -
  have range: "(at, EventId_MIN) \<le> k \<and> k \<le> (at, EventId_MAX) \<longleftrightarrow> fst k = at" for k :: "moment \<times> event_id"
    by (cases k) (auto simp: less_eq_prod_def EventId_MIN_def EventId_MAX_def)
  have "tok \<in> set (Timeline_tokens_at s at) \<longleftrightarrow>
      (\<exists>i en. ((at, i), en) \<in> set (tl_events s) \<and> tok = EventToken (tl_id s) i at)"
    by (force simp: Timeline_tokens_at_def range case_prod_unfold)
  also have "\<dots> \<longleftrightarrow> event_at tok = at \<and> timeline_map s tok \<noteq> None"
    using btree.entries_lookup [OF timeline_inv_bt [OF assms]]
    by (cases tok) (auto simp: timeline_map_def)
  finally show ?thesis .
qed

lemma timeline_event_eq: "Timeline_event s tok = timeline_content s tok"
  by (simp add: Timeline_event_def timeline_content_def timeline_map_def)

lemma timeline_retained_for_eq:
  assumes "timeline_inv s"
  shows "Timeline_retained_for s tok = map_option (tl_measure s) (timeline_content s tok)"
  using timeline_entry_facts(3) [OF assms]
  by (auto simp: Timeline_retained_for_def timeline_content_def timeline_map_def option.map_comp
      intro!: option.map_cong0 split: option.split)

lemma timeline_pending_iff:
  assumes "timeline_inv s"
  shows "(tok, e) \<in> set (Timeline_pending s) \<longleftrightarrow> timeline_content s tok = Some e"
proof -
  have "(tok, e) \<in> set (Timeline_pending s) \<longleftrightarrow>
      (\<exists>at i en. ((at, i), en) \<in> set (tl_events s) \<and> tok = EventToken (tl_id s) i at \<and> e = te_event en)"
    by (force simp: Timeline_pending_def)
  also have "\<dots> \<longleftrightarrow> timeline_content s tok = Some e"
    using btree.entries_lookup [OF timeline_inv_bt [OF assms]]
    by (cases tok) (auto simp: timeline_map_def timeline_content_def)
  finally show ?thesis .
qed

section \<open>Theorems\<close>

text \<open>
  C25. Over any sequence of absolute and relative schedules, cancellations and pops nothing panics,
  the invariant (both limits, the byte total, no event in the past) holds, virtual time never
  moves backward, and events are delivered in strictly increasing order of moment and admission:
  first-in first-out at equal moments, however the operations interleave.
\<close>

theorem timeline_delivers_in_order:
  assumes "timeline_inv s"
  shows "\<exists>s' ds. timeline_run ops s = Ret (s', ds) \<and> timeline_inv s' \<and>
    Timeline_now s \<le> Timeline_now s' \<and>
    sorted_wrt (\<lambda>d e. event_at (delivery_token d) < event_at (delivery_token e) \<or>
      event_at (delivery_token d) = event_at (delivery_token e) \<and>
      event_token_id (delivery_token d) < event_token_id (delivery_token e)) ds"
proof -
  obtain s' ds where run: "timeline_run ops s = Ret (s', ds)" "timeline_step_ok s s' ds"
    using timeline_run_safe [OF assms] by blast
  have "sorted_wrt (\<lambda>d e. event_at (delivery_token d) < event_at (delivery_token e) \<or>
      event_at (delivery_token d) = event_at (delivery_token e) \<and>
      event_token_id (delivery_token d) < event_token_id (delivery_token e)) ds"
  proof (rule sorted_wrt_mono_rel)
    show "sorted_wrt (\<lambda>d e. delivery_key d < delivery_key e) ds"
      using run(2) by (simp add: timeline_step_ok_def sorted_wrt_map)
  qed (auto simp: less_prod_def)
  then show ?thesis
    using run by (auto simp: timeline_step_ok_def)
qed

definition timeline_demo :: "nat timeline" where
  "timeline_demo = Timeline_with_measure 1 \<lparr> tml_pending_events = 3, tml_retained_bytes = 50 \<rparr> of_nat"

lemma timeline_inv_demo: "timeline_inv timeline_demo"
  by (simp add: timeline_demo_def Timeline_with_measure_def timeline_inv_at)

theorem timeline_delivers_in_order_witness:
  "\<exists>s' ds. timeline_run [TimelineAt 5 9, TimelineAfter 2 1, TimelinePop, TimelinePop] timeline_demo =
      Ret (s', ds) \<and> timeline_inv s' \<and> Timeline_now timeline_demo \<le> Timeline_now s'"
  using timeline_delivers_in_order [OF timeline_inv_demo] by blast

text \<open>
  C26. Scheduling at a moment is admitted exactly when the moment is not in the past and the count,
  the bytes and an identity leave room; the event is then pending under a token that named nothing
  before. Cancelling that token at once gives the event back and restores the timeline's events
  and byte total. A refusal changes nothing and returns the event.
\<close>

theorem timeline_schedule_cancel_roundtrip:
  assumes "timeline_inv s"
  shows "case Timeline_schedule_at s at e of
      Panic \<Rightarrow> False
    | Ret (s', Inr tok) \<Rightarrow> Timeline_now s \<le> at \<and> timeline_admits s e \<and> event_at tok = at \<and>
        timeline_content s tok = None \<and> timeline_content s' = (timeline_content s)(tok \<mapsto> e) \<and>
        (\<exists>s''. Timeline_cancel s' tok = Ret (s'', Some e) \<and> timeline_agree s s'')
    | Ret (s', Inl err) \<Rightarrow> (at < Timeline_now s \<or> \<not> timeline_admits s e) \<and> s' = s \<and> se_event err = e"
proof (cases "at < Timeline_now s")
  case True
  then show ?thesis
    by (simp add: Timeline_schedule_at_def)
next
  case False
  then have at: "Timeline_now s \<le> at"
    by simp
  show ?thesis
  proof (rule timeline_schedule_cases [OF assms at, of e], goal_cases)
    case (1 f)
    then show ?thesis
      using False by (simp add: Timeline_schedule_at_def)
  next
    case (2 i)
    let ?tok = "EventToken (tl_id s) i at" and ?s = "timeline_put s at i e"
    note adm = timeline_schedule_admitted [OF assms 2 at]
    have j: "journal (timeline_content s) (timeline_content ?s) [?tok] []"
      unfolding adm(3) using adm(4) by (intro journal_insert [OF journal_start]) simp_all
    have m: "tl_measure ?s = tl_measure s"
      by (simp add: timeline_put_def)
    obtain s'' where "and_then (undo_inserted Timeline_cancel [?tok] ?s)
        (undo_removed (Timeline_restore (tl_measure s)) []) = Ret s''" "timeline_agree s s''"
      using timeline_store.rollback [of s "tl_measure s" ?s "[?tok]" "[]"] j adm(2,5) assms m by auto
    then obtain r where "Timeline_cancel ?s ?tok = Ret (s'', r)"
      by (auto simp: and_then_Ret_iff split: option.splits prod.splits)
    moreover have "r = Some e"
      using timeline_inv_cancel [OF adm(2) calculation] unfolding adm(3) by simp
    ultimately show ?thesis
      using \<open>timeline_agree s s''\<close> adm 2 at by (simp add: Timeline_schedule_at_eq)
  qed
qed

theorem timeline_schedule_cancel_roundtrip_witness:
  "\<exists>s' tok s''. Timeline_schedule_at timeline_demo 4 (9 :: nat) = Ret (s', Inr tok) \<and>
     timeline_content s' tok = Some 9 \<and> Timeline_cancel s' tok = Ret (s'', Some 9)"
proof -
  have "timeline_admits timeline_demo 9" "Timeline_now timeline_demo = 0"
    by (simp_all add: timeline_admits_def timeline_demo_def Timeline_with_measure_def Timeline_at_with_measure_def
        Timeline_now_def RetainedBytes_ZERO_def VirtualClock_at_def Moment_ORIGIN_def)
  note admitted = this timeline_schedule_cancel_roundtrip [OF timeline_inv_demo, of 4 9]
  obtain s' scheduled where run: "Timeline_schedule_at timeline_demo 4 (9 :: nat) = Ret (s', scheduled)"
    using admitted(3) by (cases "Timeline_schedule_at timeline_demo 4 (9 :: nat)") auto
  show ?thesis
    using run admitted by (cases scheduled) auto
qed

end
