(* ===== verification/Context.thy ===== *)
theory Context
  imports Timeline Next_Turn
begin

text \<open>
  One action's transaction (\<open>model/\<close>): the topology it may address, the routed events it publishes,
  and the \<open>ActionContext\<close> through which a callback sends, cancels and observes under hard limits.
  A context that is dropped without being committed puts the timeline back exactly.

  The consumer's callbacks are code this repository does not contain. A callback is a finite
  interaction tree: it finishes, unwinds, or asks the context for one operation and continues with
  the answer.
\<close>

section \<open>Topology and routed events\<close>

type_synonym topology = "duty_id list"

datatype topology_error = TopologyEmpty | TopologyDuplicate duty_id

fun adjacent_duplicate :: "duty_id list \<Rightarrow> duty_id option" where
  "adjacent_duplicate (x # y # rest) = (if x = y then Some x else adjacent_duplicate (y # rest))"
| "adjacent_duplicate _ = None"

definition Topology_new :: "duty_id list \<Rightarrow> topology_error + topology" where
  "Topology_new duties0 =
     (let duties = sort duties0 in
      if duties = [] then Inl TopologyEmpty
      else case adjacent_duplicate duties of
        Some duty \<Rightarrow> Inl (TopologyDuplicate duty)
      | None \<Rightarrow> Inr duties)"

definition Topology_contains :: "topology \<Rightarrow> duty_id \<Rightarrow> bool" where
  "Topology_contains self duty \<longleftrightarrow> binary_search duty self 0 (length self) \<noteq> None"

record 'e routed =
  routed_target :: duty_id
  routed_cause :: "action_id option"
  routed_event :: 'e

definition Routed_new :: "duty_id \<Rightarrow> action_id option \<Rightarrow> 'e \<Rightarrow> 'e routed" where
  "Routed_new target cause event =
     \<lparr> routed_target = target, routed_cause = cause, routed_event = event \<rparr>"

definition Routed_retained_bytes :: "('e \<Rightarrow> retained_bytes) \<Rightarrow> 'e routed \<Rightarrow> retained_bytes" where
  "Routed_retained_bytes event_bytes self = event_bytes (routed_event self)"

section \<open>Failures\<close>

datatype send_failure =
  SendEffectCapacity usize
| SendRetainedOverflow retained_bytes retained_bytes
| SendRetainedCapacity retained_bytes retained_bytes retained_bytes
| SendUnknownTarget duty_id
| SendTargetStopped duty_id
| SendTimeOverflow moment span
| SendBeyondTimeLimit moment moment
| SendTimeline schedule_failure

record 'e send_error =
  send_event :: 'e
  send_failed :: send_failure

datatype cancel_failure =
  CancelEffectCapacity usize
| CancelForeignTimeline timeline_id timeline_id
| CancelNotPending event_token
| CancelRetainedOverflow retained_bytes retained_bytes
| CancelRetainedCapacity retained_bytes retained_bytes retained_bytes

datatype observation_failure =
  ObservationCapacity usize
| ObservationRetainedOverflow retained_bytes retained_bytes
| ObservationRetainedCapacity retained_bytes retained_bytes retained_bytes

record 'o observation_error =
  observation_value :: 'o
  observation_failed :: observation_failure

section \<open>The action context\<close>

record action_context_limits =
  acl_effects :: usize
  acl_effect_bytes :: retained_bytes
  acl_observations :: usize
  acl_observation_bytes :: retained_bytes
  acl_max_time :: moment

text \<open>A \<open>BTreeSet\<close> is the standard library's \<open>BTreeMap\<close> with unit values.\<close>

type_synonym duty_set = "(duty_id, unit) btree"

record ('e, 'o) action_context =
  ac_timeline :: "'e routed timeline"
  ac_topology :: topology
  ac_stopped :: duty_set
  ac_action :: action_id
  ac_now :: moment
  ac_limits :: action_context_limits
  ac_effects :: usize
  ac_effect_bytes :: retained_bytes
  ac_observations :: "'o list"
  ac_observation_bytes :: retained_bytes
  ac_inserted :: "(event_token, retained_bytes) btree"
  ac_removed :: "(event_token \<times> 'e routed) list"
  ac_committed :: bool

definition ActionContext_new ::
  "'e routed timeline \<Rightarrow> topology \<Rightarrow> duty_set \<Rightarrow> action_id \<Rightarrow> moment \<Rightarrow> action_context_limits \<Rightarrow>
   ('e, 'o) action_context" where
  "ActionContext_new timeline topology stopped action now limits =
     \<lparr> ac_timeline = timeline, ac_topology = topology, ac_stopped = stopped, ac_action = action,
       ac_now = now, ac_limits = limits, ac_effects = 0, ac_effect_bytes = RetainedBytes_ZERO,
       ac_observations = [], ac_observation_bytes = RetainedBytes_ZERO, ac_inserted = [],
       ac_removed = [], ac_committed = False \<rparr>"

definition ActionContext_pending_for :: "('e, 'o) action_context \<Rightarrow> duty_id \<Rightarrow> nat" where
  "ActionContext_pending_for self duty =
     length (filter (\<lambda>(_, routed). routed_target routed = duty) (Timeline_pending (ac_timeline self)))"

definition ActionContext_commit :: "('e, 'o) action_context \<Rightarrow> ('e, 'o) action_context \<times> 'o list" where
  "ActionContext_commit self =
     (self \<lparr> ac_committed := True, ac_inserted := [], ac_removed := [], ac_observations := [] \<rparr>,
      ac_observations self)"

text \<open>
  The first argument of the operations below is the event type's \<open>Retained\<close> implementation.
  \<open>effects += 1\<close> cannot overflow: it follows the check \<open>effects < limit\<close>.
\<close>

definition context_admit ::
  "('e \<Rightarrow> retained_bytes) \<Rightarrow> ('e, 'o) action_context \<Rightarrow> duty_id \<Rightarrow> moment \<Rightarrow> 'e \<Rightarrow>
   (('e, 'o) action_context \<times> ('e send_error + event_token)) run" where
  "context_admit event_bytes self target at event =
     (let rejected = (\<lambda>failure. Ret (self, Inl \<lparr> send_event = event, send_failed = failure \<rparr>));
          retained = event_bytes event in
      case RetainedBytes_checked_add (ac_effect_bytes self) retained of
        None \<Rightarrow> rejected (SendRetainedOverflow (ac_effect_bytes self) retained)
      | Some next_bytes \<Rightarrow>
          if acl_effect_bytes (ac_limits self) < next_bytes
          then rejected (SendRetainedCapacity (acl_effect_bytes (ac_limits self))
                 (ac_effect_bytes self) retained)
          else
            and_then (Timeline_schedule_at (ac_timeline self) at
                (Routed_new target (Some (ac_action self)) event))
              (\<lambda>(timeline, scheduled).
                case scheduled of
                  Inl err \<Rightarrow>
                    Ret (self \<lparr> ac_timeline := timeline \<rparr>,
                         Inl \<lparr> send_event = routed_event (se_event err),
                               send_failed = SendTimeline (se_failure err) \<rparr>)
                | Inr token \<Rightarrow>
                    Ret (self \<lparr> ac_timeline := timeline, ac_effects := ac_effects self + 1,
                                ac_effect_bytes := next_bytes,
                                ac_inserted := bt_insert token retained (ac_inserted self) \<rparr>,
                         Inr token)))"

definition context_send_at ::
  "('e \<Rightarrow> retained_bytes) \<Rightarrow> ('e, 'o) action_context \<Rightarrow> duty_id \<Rightarrow> moment \<Rightarrow> 'e \<Rightarrow>
   (('e, 'o) action_context \<times> ('e send_error + event_token)) run" where
  "context_send_at event_bytes self target at event =
     (let rejected = (\<lambda>failure. Ret (self, Inl \<lparr> send_event = event, send_failed = failure \<rparr>)) in
      if acl_effects (ac_limits self) \<le> ac_effects self
      then rejected (SendEffectCapacity (acl_effects (ac_limits self)))
      else if \<not> Topology_contains (ac_topology self) target
      then rejected (SendUnknownTarget target)
      else if bt_get (ac_stopped self) target \<noteq> None
      then rejected (SendTargetStopped target)
      else if acl_max_time (ac_limits self) < at
      then rejected (SendBeyondTimeLimit at (acl_max_time (ac_limits self)))
      else context_admit event_bytes self target at event)"

definition context_send ::
  "('e \<Rightarrow> retained_bytes) \<Rightarrow> ('e, 'o) action_context \<Rightarrow> duty_id \<Rightarrow> 'e \<Rightarrow>
   (('e, 'o) action_context \<times> ('e send_error + event_token)) run" where
  "context_send event_bytes self target event =
     context_send_at event_bytes self target (ac_now self) event"

definition context_send_after ::
  "('e \<Rightarrow> retained_bytes) \<Rightarrow> ('e, 'o) action_context \<Rightarrow> duty_id \<Rightarrow> span \<Rightarrow> 'e \<Rightarrow>
   (('e, 'o) action_context \<times> ('e send_error + event_token)) run" where
  "context_send_after event_bytes self target delay event =
     (case Moment_checked_add (ac_now self) delay of
        None \<Rightarrow> Ret (self, Inl \<lparr> send_event = event, send_failed = SendTimeOverflow (ac_now self) delay \<rparr>)
      | Some at \<Rightarrow> context_send_at event_bytes self target at event)"

definition context_cancel ::
  "('e, 'o) action_context \<Rightarrow> event_token \<Rightarrow> (('e, 'o) action_context \<times> (cancel_failure + unit)) run" where
  "context_cancel self token =
     (if acl_effects (ac_limits self) \<le> ac_effects self
      then Ret (self, Inl (CancelEffectCapacity (acl_effects (ac_limits self))))
      else if event_timeline token \<noteq> tl_id (ac_timeline self)
      then Ret (self, Inl (CancelForeignTimeline (tl_id (ac_timeline self)) (event_timeline token)))
      else case Timeline_retained_for (ac_timeline self) token of
        None \<Rightarrow> Ret (self, Inl (CancelNotPending token))
      | Some retained \<Rightarrow>
          if bt_get (ac_inserted self) token \<noteq> None
          then
            and_then (Timeline_cancel (ac_timeline self) token) (\<lambda>(timeline, removed).
              and_then (expect removed) (\<lambda>_.
                and_then (expect (RetainedBytes_checked_sub (ac_effect_bytes self) retained)) (\<lambda>bytes.
                  Ret (self \<lparr> ac_timeline := timeline,
                              ac_inserted := bt_remove token (ac_inserted self),
                              ac_effect_bytes := bytes, ac_effects := ac_effects self + 1 \<rparr>,
                       Inr ()))))
          else case RetainedBytes_checked_add (ac_effect_bytes self) retained of
            None \<Rightarrow> Ret (self, Inl (CancelRetainedOverflow (ac_effect_bytes self) retained))
          | Some next_bytes \<Rightarrow>
              if acl_effect_bytes (ac_limits self) < next_bytes
              then Ret (self, Inl (CancelRetainedCapacity (acl_effect_bytes (ac_limits self))
                     (ac_effect_bytes self) retained))
              else
                and_then (Timeline_cancel (ac_timeline self) token) (\<lambda>(timeline, removed).
                  and_then (expect removed) (\<lambda>event.
                    Ret (self \<lparr> ac_timeline := timeline,
                                ac_removed := ac_removed self @ [(token, event)],
                                ac_effect_bytes := next_bytes, ac_effects := ac_effects self + 1 \<rparr>,
                         Inr ()))))"

definition context_observe ::
  "('o \<Rightarrow> retained_bytes) \<Rightarrow> ('e, 'o) action_context \<Rightarrow> 'o \<Rightarrow>
   ('e, 'o) action_context \<times> ('o observation_error + unit)" where
  "context_observe observation_bytes self observation =
     (let rejected = (\<lambda>failure. (self, Inl \<lparr> observation_value = observation,
                                            observation_failed = failure \<rparr>)) in
      if unat (acl_observations (ac_limits self)) \<le> length (ac_observations self)
      then rejected (ObservationCapacity (acl_observations (ac_limits self)))
      else let retained = observation_bytes observation in
        case RetainedBytes_checked_add (ac_observation_bytes self) retained of
          None \<Rightarrow> rejected (ObservationRetainedOverflow (ac_observation_bytes self) retained)
        | Some next_bytes \<Rightarrow>
            if acl_observation_bytes (ac_limits self) < next_bytes
            then rejected (ObservationRetainedCapacity (acl_observation_bytes (ac_limits self))
                   (ac_observation_bytes self) retained)
            else (self \<lparr> ac_observations := ac_observations self @ [observation],
                         ac_observation_bytes := next_bytes \<rparr>, Inr ()))"

text \<open>\<open>Drop\<close>: the timeline the context leaves behind.\<close>

definition ActionContext_drop ::
  "('e \<Rightarrow> retained_bytes) \<Rightarrow> ('e, 'o) action_context \<Rightarrow> 'e routed timeline run" where
  "ActionContext_drop event_bytes self =
     (if ac_committed self then Ret (ac_timeline self)
      else and_then (undo_inserted Timeline_cancel (map fst (ac_inserted self)) (ac_timeline self))
             (undo_removed (Timeline_restore (Routed_retained_bytes event_bytes)) (ac_removed self)))"

section \<open>Callbacks\<close>

datatype ('e, 'o) request =
  Send duty_id 'e
| SendAfter duty_id span 'e
| SendAt duty_id moment 'e
| CancelEvent event_token
| Observe 'o

datatype ('e, 'o) response =
  SendResult "'e send_error + event_token"
| CancelResult "cancel_failure + unit"
| ObserveResult "'o observation_error + unit"

datatype ('e, 'o, 'm, 'x) callback =
  Finish 'm "'x + turn"
| Unwind 'm
| Ask "('e, 'o) request" "('e, 'o) response \<Rightarrow> ('e, 'o, 'm, 'x) callback"

definition perform ::
  "('e \<Rightarrow> retained_bytes) \<Rightarrow> ('o \<Rightarrow> retained_bytes) \<Rightarrow> ('e, 'o) request \<Rightarrow> ('e, 'o) action_context \<Rightarrow>
   (('e, 'o) action_context \<times> ('e, 'o) response) run" where
  "perform event_bytes observation_bytes req ctx =
     (case req of
        Send target e \<Rightarrow>
          and_then (context_send event_bytes ctx target e) (\<lambda>p. Ret (fst p, SendResult (snd p)))
      | SendAfter target delay e \<Rightarrow>
          and_then (context_send_after event_bytes ctx target delay e) (\<lambda>p. Ret (fst p, SendResult (snd p)))
      | SendAt target at e \<Rightarrow>
          and_then (context_send_at event_bytes ctx target at e) (\<lambda>p. Ret (fst p, SendResult (snd p)))
      | CancelEvent token \<Rightarrow>
          and_then (context_cancel ctx token) (\<lambda>p. Ret (fst p, CancelResult (snd p)))
      | Observe observation \<Rightarrow>
          (let p = context_observe observation_bytes ctx observation
           in Ret (fst p, ObserveResult (snd p))))"

text \<open>
  Running a callback on a context: the context it leaves, the model state, and \<open>None\<close> if it
  unwound or its result if it returned.
\<close>

primrec run_callback ::
  "('e \<Rightarrow> retained_bytes) \<Rightarrow> ('o \<Rightarrow> retained_bytes) \<Rightarrow> ('e, 'o, 'm, 'x) callback \<Rightarrow>
   ('e, 'o) action_context \<Rightarrow> (('e, 'o) action_context \<times> 'm \<times> ('x + turn) option) run" where
  "run_callback eb ob (Finish m result) ctx = Ret (ctx, m, Some result)"
| "run_callback eb ob (Unwind m) ctx = Ret (ctx, m, None)"
| "run_callback eb ob (Ask req k) ctx =
     and_then (perform eb ob req ctx) (\<lambda>p. run_callback eb ob (k (snd p)) (fst p))"

section \<open>Invariant of a running action\<close>

definition removed_sizes :: "('e \<Rightarrow> retained_bytes) \<Rightarrow> (event_token \<times> 'e routed) list \<Rightarrow> retained_bytes multiset" where
  "removed_sizes eb removed = image_mset (\<lambda>p. Routed_retained_bytes eb (snd p)) (mset removed)"

definition inserted_sizes :: "(event_token, retained_bytes) btree \<Rightarrow> retained_bytes multiset" where
  "inserted_sizes inserted = image_mset snd (mset inserted)"

text \<open>What the context guarantees of an event its action has published.\<close>

definition published :: "('e, 'o) action_context \<Rightarrow> event_token \<Rightarrow> 'e routed \<Rightarrow> bool" where
  "published ctx tok r \<longleftrightarrow>
     Topology_contains (ac_topology ctx) (routed_target r) \<and>
     bt_get (ac_stopped ctx) (routed_target r) = None \<and>
     event_at tok \<le> acl_max_time (ac_limits ctx) \<and>
     routed_cause r = Some (ac_action ctx)"

definition context_timeline_ok :: "('e \<Rightarrow> retained_bytes) \<Rightarrow> 'e routed timeline \<Rightarrow> 'e routed timeline \<Rightarrow> bool" where
  "context_timeline_ok eb s0 s \<longleftrightarrow>
     timeline_inv s0 \<and> timeline_inv s \<and> timeline_later s0 s \<and> tl_measure s = Routed_retained_bytes eb"

definition context_effects_ok :: "('e \<Rightarrow> retained_bytes) \<Rightarrow> ('e, 'o) action_context \<Rightarrow> bool" where
  "context_effects_ok eb ctx \<longleftrightarrow>
     ac_effects ctx \<le> acl_effects (ac_limits ctx) \<and>
     ac_effect_bytes ctx \<le> acl_effect_bytes (ac_limits ctx) \<and>
     unat (ac_effect_bytes ctx) =
       total_bytes (inserted_sizes (ac_inserted ctx)) + total_bytes (removed_sizes eb (ac_removed ctx)) \<and>
     bt_ok (ac_inserted ctx) \<and>
     (\<forall>tok b. bt_get (ac_inserted ctx) tok = Some b \<longrightarrow>
        (\<exists>r. timeline_content (ac_timeline ctx) tok = Some r \<and> b = Routed_retained_bytes eb r))"

definition context_observations_ok :: "('o \<Rightarrow> retained_bytes) \<Rightarrow> ('e, 'o) action_context \<Rightarrow> bool" where
  "context_observations_ok ob ctx \<longleftrightarrow>
     length (ac_observations ctx) \<le> unat (acl_observations (ac_limits ctx)) \<and>
     ac_observation_bytes ctx \<le> acl_observation_bytes (ac_limits ctx) \<and>
     unat (ac_observation_bytes ctx) = total_bytes (mset (map ob (ac_observations ctx)))"

definition context_inv ::
  "('e \<Rightarrow> retained_bytes) \<Rightarrow> ('o \<Rightarrow> retained_bytes) \<Rightarrow> 'e routed timeline \<Rightarrow> ('e, 'o) action_context \<Rightarrow> bool" where
  "context_inv eb ob s0 ctx \<longleftrightarrow>
     context_timeline_ok eb s0 (ac_timeline ctx) \<and>
     journal (timeline_content s0) (timeline_content (ac_timeline ctx))
       (map fst (ac_inserted ctx)) (ac_removed ctx) \<and>
     (\<forall>tok r. timeline_content (ac_timeline ctx) tok = Some r \<longrightarrow>
        timeline_content s0 tok = Some r \<or> published ctx tok r) \<and>
     context_effects_ok eb ctx \<and> context_observations_ok ob ctx \<and> \<not> ac_committed ctx"

definition same_action :: "('e, 'o) action_context \<Rightarrow> ('e, 'o) action_context \<Rightarrow> bool" where
  "same_action c c' \<longleftrightarrow> ac_topology c' = ac_topology c \<and> ac_stopped c' = ac_stopped c \<and>
     ac_action c' = ac_action c \<and> ac_now c' = ac_now c \<and> ac_limits c' = ac_limits c"

lemma same_action_refl: "same_action c c"
  by (simp add: same_action_def)

lemma same_action_trans: "same_action a b \<Longrightarrow> same_action b c \<Longrightarrow> same_action a c"
  by (simp add: same_action_def)

lemma published_same: "same_action c c' \<Longrightarrow> published c' tok r \<longleftrightarrow> published c tok r"
  by (simp add: published_def same_action_def)

lemma context_inv_new:
  assumes "timeline_inv s" "tl_measure s = Routed_retained_bytes eb"
  shows "context_inv eb ob s (ActionContext_new s topo stopped action now limits)"
  using assms
  by (simp add: context_inv_def ActionContext_new_def context_timeline_ok_def timeline_later_refl
      journal_start context_effects_ok_def context_observations_ok_def inserted_sizes_def
      removed_sizes_def RetainedBytes_ZERO_def bt_get_def)

lemma timeline_schedule_at_cases:
  assumes inv: "timeline_inv s"
  obtains (rejected) f where "Timeline_schedule_at s at e = Ret (s, Inl \<lparr> se_event = e, se_failure = f \<rparr>)"
  | (admitted) i where "timeline_admits s e" "tl_next_id s = Some i" "Timeline_now s \<le> at"
      "Timeline_schedule_at s at e = Ret (timeline_put s at i e, Inr (EventToken (tl_id s) i at))"
proof (cases "Timeline_now s \<le> at")
  case False
  then show ?thesis
    using rejected [of "ScheduledInPast (Timeline_now s) at"]
    by (simp add: Timeline_schedule_at_def False [unfolded not_le])
next
  case True
  show ?thesis
  proof (rule timeline_schedule_cases [OF inv True, of e], goal_cases)
    case (1 f)
    then show ?case
      using rejected Timeline_schedule_at_eq [OF True] by simp
  next
    case (2 i)
    then show ?case
      using admitted timeline_schedule_admitted(1) [OF inv 2 True] Timeline_schedule_at_eq [OF True] True
      by simp
  qed
qed

lemma word_increment_le: "a < b \<Longrightarrow> a + 1 \<le> b" for a b :: "64 word"
  by (simp add: inc_le)

lemma bounded_add:
  fixes a b c :: "64 word"
  assumes "checked_add a b = Some c"
  shows "unat c = unat a + unat b" "c = a + b"
  using assms checked_add_SomeD [OF assms] by (auto simp: checked_add_def split: if_splits)

section \<open>Publishing\<close>

lemma context_inv_published:
  fixes ctx :: "('e, 'o) action_context"
  assumes inv: "context_inv eb ob s0 ctx"
    and adm: "timeline_admits (ac_timeline ctx) r" "tl_next_id (ac_timeline ctx) = Some i"
      "Timeline_now (ac_timeline ctx) \<le> at"
    and bytes: "checked_add (ac_effect_bytes ctx) (eb (routed_event r)) = Some total'"
      "\<not> acl_effect_bytes (ac_limits ctx) < total'"
    and room: "ac_effects ctx < acl_effects (ac_limits ctx)"
    and tok: "tok = EventToken (tl_id (ac_timeline ctx)) i at"
    and pub: "published ctx tok r"
  shows "context_inv eb ob s0 (ctx \<lparr> ac_timeline := timeline_put (ac_timeline ctx) at i r,
    ac_effects := ac_effects ctx + 1, ac_effect_bytes := total',
    ac_inserted := bt_insert tok (eb (routed_event r)) (ac_inserted ctx) \<rparr>)"
proof -
  let ?s = "ac_timeline ctx" and ?m = "bt_insert tok (eb (routed_event r)) (ac_inserted ctx)"
  let ?s' = "timeline_put ?s at i r"
  have t: "timeline_inv s0" "timeline_inv ?s" "timeline_later s0 ?s" "tl_measure ?s = Routed_retained_bytes eb"
    using inv by (simp_all add: context_inv_def context_timeline_ok_def)
  note put = timeline_schedule_admitted [OF t(2) adm]
  have j: "journal (timeline_content s0) (timeline_content ?s) (map fst (ac_inserted ctx)) (ac_removed ctx)"
    using inv by (simp add: context_inv_def)
  have e: "context_effects_ok eb ctx"
    using inv by (simp add: context_inv_def)
  have fresh0: "timeline_content s0 tok = None"
  proof (rule ccontr)
    assume "timeline_content s0 tok \<noteq> None"
    then obtain en where "bt_get (tl_events s0) (at, i) = Some en"
      by (auto simp: timeline_content_def timeline_map_def tok split: if_splits)
    then have "below_next i (tl_next_id s0)"
      by (rule timeline_entry_facts(2) [OF t(1)])
    then have "below_next i (tl_next_id ?s)"
      using t(3) below_next_mono by (auto simp: timeline_later_def)
    then show False
      using adm(2) by (simp add: below_next_def)
  qed
  have new: "bt_get (ac_inserted ctx) tok = None"
  proof (cases "bt_get (ac_inserted ctx) tok")
    case (Some b)
    then obtain y where "timeline_content ?s tok = Some y"
      using e unfolding context_effects_ok_def by blast
    then show ?thesis
      using put(4) tok by simp
  qed simp
  have keys: "set (map fst ?m) = insert tok (set (map fst (ac_inserted ctx)))"
    using bt_insert_keys [of tok _ "ac_inserted ctx"] by simp
  have ok: "bt_ok ?m"
    using e bt_ok_insert by (auto simp: context_effects_ok_def)
  have "journal (timeline_content s0) (timeline_content ?s') (map fst ?m) (ac_removed ctx)"
    unfolding put(3) using put(4) fresh0 keys bt_ok_distinct [OF ok]
    by (intro journal_insert [OF j]) (simp_all add: tok)
  moreover have "context_timeline_ok eb s0 ?s'"
    using t put(2) timeline_later_trans [OF t(3) put(5)]
    by (simp add: context_timeline_ok_def timeline_put_def)
  moreover have "\<forall>x y. timeline_content ?s' x = Some y \<longrightarrow>
      timeline_content s0 x = Some y \<or> published ctx x y"
    using inv pub unfolding put(3) by (auto simp: context_inv_def tok)
  moreover have "unat total' = total_bytes (inserted_sizes ?m) + total_bytes (removed_sizes eb (ac_removed ctx))"
    using e bounded_add(1) [OF bytes(1)] mset_bt_insert [OF new, of "eb (routed_event r)"]
    by (simp add: context_effects_ok_def inserted_sizes_def)
  moreover have "\<forall>x b. bt_get ?m x = Some b \<longrightarrow>
      (\<exists>y. timeline_content ?s' x = Some y \<and> b = Routed_retained_bytes eb y)"
    using e unfolding put(3) by (auto simp: context_effects_ok_def bt_get_insert tok Routed_retained_bytes_def)
  ultimately show ?thesis
    using inv e ok bytes(2) word_increment_le [OF room]
    by (simp add: context_inv_def context_effects_ok_def context_observations_ok_def published_def)
qed

lemma context_admit_ok:
  assumes inv: "context_inv eb ob s0 ctx"
    and room: "ac_effects ctx < acl_effects (ac_limits ctx)"
    and target: "Topology_contains (ac_topology ctx) target" "bt_get (ac_stopped ctx) target = None"
      "at \<le> acl_max_time (ac_limits ctx)"
  shows "\<exists>ctx' r. context_admit eb ctx target at e = Ret (ctx', r) \<and> context_inv eb ob s0 ctx' \<and>
    same_action ctx ctx' \<and> (\<forall>err. r = Inl err \<longrightarrow> ctx' = ctx \<and> send_event err = e)"
proof (cases "checked_add (ac_effect_bytes ctx) (eb e)")
  case None
  then show ?thesis
    using inv by (simp add: context_admit_def RetainedBytes_checked_add_def same_action_refl)
next
  case (Some nb)
  let ?r = "Routed_new target (Some (ac_action ctx)) e"
  show ?thesis
  proof (cases "acl_effect_bytes (ac_limits ctx) < nb")
    case True
    then show ?thesis
      using Some inv by (simp add: context_admit_def RetainedBytes_checked_add_def same_action_refl)
  next
    case False
    have t: "timeline_inv (ac_timeline ctx)"
      using inv by (simp add: context_inv_def context_timeline_ok_def)
    show ?thesis
    proof (rule timeline_schedule_at_cases [OF t, of at ?r], goal_cases)
      case (1 f)
      then have "context_admit eb ctx target at e =
          Ret (ctx, Inl \<lparr> send_event = e, send_failed = SendTimeline f \<rparr>)"
        using Some False by (simp add: context_admit_def RetainedBytes_checked_add_def Routed_new_def)
      then show ?case
        using inv by (simp add: same_action_refl)
    next
      case (2 i)
      let ?tok = "EventToken (tl_id (ac_timeline ctx)) i at"
      have r: "routed_event ?r = e" "published ctx ?tok ?r"
        using target by (simp_all add: Routed_new_def published_def)
      have "checked_add (ac_effect_bytes ctx) (eb (routed_event ?r)) = Some nb"
        using Some r(1) by simp
      from context_inv_published [OF inv 2(1-3) this False room refl r(2)] show ?case
        using Some False 2(4) r(1)
        by (simp add: context_admit_def RetainedBytes_checked_add_def same_action_def)
    qed
  qed
qed

lemma context_send_at_ok:
  assumes inv: "context_inv eb ob s0 ctx"
  shows "\<exists>ctx' r. context_send_at eb ctx target at e = Ret (ctx', r) \<and> context_inv eb ob s0 ctx' \<and>
    same_action ctx ctx' \<and> (\<forall>err. r = Inl err \<longrightarrow> ctx' = ctx \<and> send_event err = e)"
proof (cases "ac_effects ctx < acl_effects (ac_limits ctx) \<and> Topology_contains (ac_topology ctx) target \<and>
    bt_get (ac_stopped ctx) target = None \<and> at \<le> acl_max_time (ac_limits ctx)")
  case True
  then have "\<not> acl_effects (ac_limits ctx) \<le> ac_effects ctx" "\<not> acl_max_time (ac_limits ctx) < at"
    by (simp_all only: not_le not_less)
  then have "context_send_at eb ctx target at e = context_admit eb ctx target at e"
    using True by (simp add: context_send_at_def)
  then show ?thesis
    using context_admit_ok [OF inv, of target at e] True by simp
next
  case False
  then show ?thesis
    using inv by (auto simp: context_send_at_def Let_def same_action_refl not_le not_less)
qed

lemma context_send_after_ok:
  assumes inv: "context_inv eb ob s0 ctx"
  shows "\<exists>ctx' r. context_send_after eb ctx target delay e = Ret (ctx', r) \<and> context_inv eb ob s0 ctx' \<and>
    same_action ctx ctx' \<and> (\<forall>err. r = Inl err \<longrightarrow> ctx' = ctx \<and> send_event err = e)"
  using context_send_at_ok [OF inv, of target _ e] inv
  by (cases "Moment_checked_add (ac_now ctx) delay") (simp_all add: context_send_after_def same_action_refl)

section \<open>Cancelling\<close>

lemma mset_remove_inserted:
  assumes "bt_ok m" "bt_get m tok = Some b"
  shows "inserted_sizes m = add_mset b (inserted_sizes (bt_remove tok m))"
  using mset_bt_remove [OF assms] by (simp add: inserted_sizes_def)

lemma context_cancel_ok:
  assumes inv: "context_inv eb ob s0 ctx"
  shows "\<exists>ctx' r. context_cancel ctx token = Ret (ctx', r) \<and> context_inv eb ob s0 ctx' \<and>
    same_action ctx ctx' \<and> (\<forall>err. r = Inl err \<longrightarrow> ctx' = ctx)"
proof (cases "acl_effects (ac_limits ctx) \<le> ac_effects ctx \<or> event_timeline token \<noteq> tl_id (ac_timeline ctx) \<or>
    Timeline_retained_for (ac_timeline ctx) token = None")
  case True
  then show ?thesis
    using inv by (auto simp: context_cancel_def same_action_refl)
next
  case False
  let ?s = "ac_timeline ctx"
  have t: "timeline_inv s0" "timeline_inv ?s" "timeline_later s0 ?s" "tl_measure ?s = Routed_retained_bytes eb"
    using inv by (simp_all add: context_inv_def context_timeline_ok_def)
  have j: "journal (timeline_content s0) (timeline_content ?s) (map fst (ac_inserted ctx)) (ac_removed ctx)"
    and e: "context_effects_ok eb ctx"
    using inv by (simp_all add: context_inv_def)
  obtain r where r: "timeline_content ?s token = Some r"
      "Timeline_retained_for ?s token = Some (Routed_retained_bytes eb r)"
    using False timeline_retained_for_eq [OF t(2), of token] t(4) by auto
  obtain s1 where s1: "Timeline_cancel ?s token = Ret (s1, Some r)" "timeline_inv s1"
      "timeline_content s1 = (timeline_content ?s)(token := None)" "timeline_later s0 s1"
      "tl_measure s1 = tl_measure ?s"
    using timeline_store.cancel_hit [of ?s "tl_measure ?s" token r] t r(1) by auto
  have frame: "context_timeline_ok eb s0 s1"
    using t s1 by (simp add: context_timeline_ok_def)
  have pub: "\<forall>x y. timeline_content s1 x = Some y \<longrightarrow> timeline_content s0 x = Some y \<or> published ctx x y"
    using inv unfolding s1(3) by (auto simp: context_inv_def)
  have le: "ac_effects ctx + 1 \<le> acl_effects (ac_limits ctx)"
    using False by (intro word_increment_le) (simp add: not_le)
  show ?thesis
  proof (cases "bt_get (ac_inserted ctx) token")
    case (Some b)
    let ?m = "bt_remove token (ac_inserted ctx)"
    let ?bytes = "ac_effect_bytes ctx - b"
    have b: "b = Routed_retained_bytes eb r"
      using e Some r(1) by (force simp: context_effects_ok_def)
    have parts: "inserted_sizes (ac_inserted ctx) = add_mset b (inserted_sizes ?m)" "bt_ok ?m"
      using e mset_remove_inserted [OF _ Some] bt_ok_remove by (auto simp: context_effects_ok_def)
    then have total: "b \<le> ac_effect_bytes ctx" "unat ?bytes =
        total_bytes (inserted_sizes ?m) + total_bytes (removed_sizes eb (ac_removed ctx))"
      using e by (simp_all add: context_effects_ok_def word_le_nat_alt unat_sub)
    then have bytes_le: "?bytes \<le> acl_effect_bytes (ac_limits ctx)"
      using e by (auto simp: context_effects_ok_def word_le_nat_alt unat_sub)
    let ?ctx = "ctx \<lparr> ac_timeline := s1, ac_inserted := ?m, ac_effect_bytes := ?bytes,
      ac_effects := ac_effects ctx + 1 \<rparr>"
    have eq: "context_cancel ctx token = Ret (?ctx, Inr ())"
      using False r(2) s1(1) Some total(1) b
      by (simp add: context_cancel_def RetainedBytes_checked_sub_def)
    have "token \<in> set (map fst (ac_inserted ctx))" "set (map fst ?m) = set (map fst (ac_inserted ctx)) - {token}"
      using Some by (auto simp: bt_get_def bt_remove_def dest: map_of_SomeD intro: rev_image_eqI)
    then have "journal (timeline_content s0) (timeline_content s1) (map fst ?m) (ac_removed ctx)"
      unfolding s1(3) using bt_ok_distinct [OF parts(2)] by (intro journal_uninsert [OF j]) simp_all
    moreover have "\<forall>x y. bt_get ?m x = Some y \<longrightarrow>
        (\<exists>z. timeline_content s1 x = Some z \<and> y = Routed_retained_bytes eb z)"
      using e unfolding s1(3) bt_get_remove by (auto simp: context_effects_ok_def)
    ultimately have "context_inv eb ob s0 ?ctx"
      using inv e frame pub le total(2) bytes_le parts(2)
      by (simp add: context_inv_def context_effects_ok_def context_observations_ok_def published_def)
    then show ?thesis
      using eq by (simp add: same_action_def)
  next
    case None
    note foreign = None
    show ?thesis
    proof (cases "checked_add (ac_effect_bytes ctx) (Routed_retained_bytes eb r)")
      case None
      then show ?thesis
        using False r(2) foreign inv
        by (simp add: context_cancel_def RetainedBytes_checked_add_def same_action_refl)
    next
      case (Some nb)
      show ?thesis
      proof (cases "acl_effect_bytes (ac_limits ctx) < nb")
        case True
        then show ?thesis
          using False r(2) foreign Some inv
          by (simp add: context_cancel_def RetainedBytes_checked_add_def same_action_refl)
      next
        case fits: False
        let ?ctx = "ctx \<lparr> ac_timeline := s1, ac_removed := ac_removed ctx @ [(token, r)],
          ac_effect_bytes := nb, ac_effects := ac_effects ctx + 1 \<rparr>"
        have eq: "context_cancel ctx token = Ret (?ctx, Inr ())"
          using False r(2) foreign Some fits s1(1)
          by (simp add: context_cancel_def RetainedBytes_checked_add_def)
        have absent: "token \<notin> set (map fst (ac_inserted ctx))"
          using foreign by (auto simp: bt_get_def map_of_eq_None_iff)
        then have "journal (timeline_content s0) (timeline_content s1) (map fst (ac_inserted ctx))
            (ac_removed ctx @ [(token, r)])"
          unfolding s1(3) by (rule journal_remove [OF j _ r(1)])
        moreover have "unat nb = total_bytes (inserted_sizes (ac_inserted ctx)) +
            total_bytes (removed_sizes eb (ac_removed ctx @ [(token, r)]))"
          using e bounded_add(1) [OF Some] by (simp add: context_effects_ok_def removed_sizes_def)
        moreover have "\<forall>x y. bt_get (ac_inserted ctx) x = Some y \<longrightarrow>
            (\<exists>z. timeline_content s1 x = Some z \<and> y = Routed_retained_bytes eb z)"
          using e foreign unfolding s1(3) by (auto simp: context_effects_ok_def)
        ultimately have "context_inv eb ob s0 ?ctx"
          using inv e frame pub le fits
          by (simp add: context_inv_def context_effects_ok_def context_observations_ok_def published_def)
        then show ?thesis
          using eq by (simp add: same_action_def)
      qed
    qed
  qed
qed

section \<open>Observing, and whole callbacks\<close>

lemma context_observe_ok:
  assumes inv: "context_inv eb ob s0 ctx"
  shows "\<exists>ctx' r. context_observe ob ctx obs = (ctx', r) \<and> context_inv eb ob s0 ctx' \<and>
    same_action ctx ctx' \<and> (\<forall>err. r = Inl err \<longrightarrow> ctx' = ctx \<and> observation_value err = obs)"
proof (cases "unat (acl_observations (ac_limits ctx)) \<le> length (ac_observations ctx)")
  case True
  then show ?thesis
    using inv by (simp add: context_observe_def same_action_refl)
next
  case False
  show ?thesis
  proof (cases "checked_add (ac_observation_bytes ctx) (ob obs)")
    case None
    then show ?thesis
      using False inv
      by (simp add: context_observe_def RetainedBytes_checked_add_def same_action_refl Let_def)
  next
    case (Some nb)
    have o: "context_observations_ok ob ctx"
      using inv by (simp add: context_inv_def)
    show ?thesis
    proof (cases "acl_observation_bytes (ac_limits ctx) < nb")
      case True
      then show ?thesis
        using False Some inv
        by (simp add: context_observe_def RetainedBytes_checked_add_def same_action_refl Let_def)
    next
      case fits: False
      let ?ctx = "ctx \<lparr> ac_observations := ac_observations ctx @ [obs], ac_observation_bytes := nb \<rparr>"
      have "context_observe ob ctx obs = (?ctx, Inr ())"
        using False Some fits by (simp add: context_observe_def RetainedBytes_checked_add_def Let_def)
      moreover have "context_inv eb ob s0 ?ctx"
        using inv o False fits bounded_add(1) [OF Some]
        by (simp add: context_inv_def context_effects_ok_def context_observations_ok_def published_def)
      ultimately show ?thesis
        by (simp add: same_action_def)
    qed
  qed
qed

lemma perform_ok:
  assumes inv: "context_inv eb ob s0 ctx"
  shows "\<exists>ctx' r. perform eb ob req ctx = Ret (ctx', r) \<and> context_inv eb ob s0 ctx' \<and> same_action ctx ctx'"
proof (cases req)
  case (Send target e)
  then show ?thesis
    using context_send_at_ok [OF inv, of target "ac_now ctx" e] by (auto simp: perform_def context_send_def)
next
  case (SendAfter target delay e)
  then show ?thesis
    using context_send_after_ok [OF inv, of target delay e] by (auto simp: perform_def)
next
  case (SendAt target at e)
  then show ?thesis
    using context_send_at_ok [OF inv, of target at e] by (auto simp: perform_def)
next
  case (CancelEvent tok)
  then show ?thesis
    using context_cancel_ok [OF inv, of tok] by (auto simp: perform_def)
next
  case (Observe obs)
  then show ?thesis
    using context_observe_ok [OF inv, of obs] by (auto simp: perform_def)
qed

lemma run_callback_ok:
  assumes "context_inv eb ob s0 ctx"
  shows "\<exists>ctx' m r. run_callback eb ob cb ctx = Ret (ctx', m, r) \<and> context_inv eb ob s0 ctx' \<and>
    same_action ctx ctx'"
  using assms
proof (induction cb arbitrary: ctx)
  case (Ask req k)
  obtain c1 r where 1: "perform eb ob req ctx = Ret (c1, r)" "context_inv eb ob s0 c1" "same_action ctx c1"
    using perform_ok [OF Ask.prems] by blast
  obtain c2 m v where "run_callback eb ob (k r) c1 = Ret (c2, m, v)" "context_inv eb ob s0 c2"
      "same_action c1 c2"
    using Ask.IH [OF _ 1(2)] by blast
  then show ?case
    using 1 same_action_trans by fastforce
qed (simp_all add: same_action_refl)

lemma context_drop_ok:
  assumes inv: "context_inv eb ob s0 ctx"
  shows "\<exists>s. ActionContext_drop eb ctx = Ret s \<and> timeline_agree s0 s \<and> timeline_inv s \<and>
    timeline_later s0 s \<and> tl_measure s = Routed_retained_bytes eb"
proof -
  have t: "timeline_inv s0" "timeline_inv (ac_timeline ctx)" "timeline_later s0 (ac_timeline ctx)"
      "tl_measure (ac_timeline ctx) = Routed_retained_bytes eb"
    using inv by (simp_all add: context_inv_def context_timeline_ok_def)
  have "tl_measure s0 = Routed_retained_bytes eb"
    using t(3,4) by (simp add: timeline_later_def)
  then show ?thesis
    using t inv timeline_store.rollback [of s0 "Routed_retained_bytes eb" "ac_timeline ctx"
        "map fst (ac_inserted ctx)" "ac_removed ctx"]
    by (auto simp: context_inv_def ActionContext_drop_def)
qed

section \<open>What a callback did\<close>

text \<open>
  The operations of a callback with the answers they got. An effect is a send that was given a token,
  or a cancellation that was granted.
\<close>

primrec callback_log ::
  "('e \<Rightarrow> retained_bytes) \<Rightarrow> ('o \<Rightarrow> retained_bytes) \<Rightarrow> ('e, 'o, 'm, 'x) callback \<Rightarrow>
   ('e, 'o) action_context \<Rightarrow> (('e, 'o) request \<times> ('e, 'o) response) list" where
  "callback_log eb ob (Finish m result) ctx = []"
| "callback_log eb ob (Unwind m) ctx = []"
| "callback_log eb ob (Ask req k) ctx =
     (case perform eb ob req ctx of
        Panic \<Rightarrow> []
      | Ret (ctx', response) \<Rightarrow> (req, response) # callback_log eb ob (k response) ctx')"

definition effect_granted :: "('e, 'o) request \<times> ('e, 'o) response \<Rightarrow> bool" where
  "effect_granted entry =
     (case snd entry of SendResult (Inr _) \<Rightarrow> True | CancelResult (Inr _) \<Rightarrow> True | _ \<Rightarrow> False)"

definition observation_granted :: "('e, 'o) request \<times> ('e, 'o) response \<Rightarrow> 'o option" where
  "observation_granted entry =
     (case entry of (Observe observation, ObserveResult (Inr _)) \<Rightarrow> Some observation | _ \<Rightarrow> None)"

lemma increment_counts: "\<not> b \<le> a \<Longrightarrow> unat (a + 1) = unat a + 1" for a b :: usize
  using unsigned_less [of b, where ?'a = nat] by (simp add: word_le_nat_alt not_le unat_word_ariths)

lemma admit_counts:
  assumes "context_admit eb ctx target at e = Ret (ctx', result)"
    and room: "\<not> acl_effects (ac_limits ctx) \<le> ac_effects ctx"
  shows "unat (ac_effects ctx') = unat (ac_effects ctx) + (case result of Inl _ \<Rightarrow> 0 | Inr _ \<Rightarrow> 1) \<and>
    ac_observations ctx' = ac_observations ctx"
proof (cases "RetainedBytes_checked_add (ac_effect_bytes ctx) (eb e)")
  case None
  then show ?thesis
    using assms by (auto simp: context_admit_def Let_def)
next
  case (Some bytes)
  show ?thesis
  proof (cases "acl_effect_bytes (ac_limits ctx) < bytes")
    case True
    then show ?thesis
      using assms Some by (auto simp: context_admit_def Let_def)
  next
    case False
    then obtain timeline scheduled where
      "Timeline_schedule_at (ac_timeline ctx) at (Routed_new target (Some (ac_action ctx)) e) = Ret (timeline, scheduled)"
      using assms(1) Some by (auto simp: context_admit_def Let_def and_then_Ret_iff)
    then show ?thesis
      using assms(1) Some False increment_counts [OF room]
      by (cases scheduled) (auto simp: context_admit_def Let_def)
  qed
qed

lemma send_at_counts:
  assumes "context_send_at eb ctx target at e = Ret (ctx', result)"
  shows "unat (ac_effects ctx') = unat (ac_effects ctx) + (case result of Inl _ \<Rightarrow> 0 | Inr _ \<Rightarrow> 1) \<and>
    ac_observations ctx' = ac_observations ctx"
  using assms admit_counts [of eb ctx target at e ctx' result]
  by (auto simp: context_send_at_def Let_def split: if_splits)

lemma cancel_counts:
  assumes "context_cancel ctx token = Ret (ctx', result)"
  shows "unat (ac_effects ctx') = unat (ac_effects ctx) + (case result of Inl _ \<Rightarrow> 0 | Inr _ \<Rightarrow> 1) \<and>
    ac_observations ctx' = ac_observations ctx"
  using assms
  by (auto simp: context_cancel_def Let_def increment_counts and_then_Ret_iff split: if_splits option.splits)

lemma observe_counts:
  assumes "context_observe ob ctx observation = (ctx', result)"
  shows "ac_effects ctx' = ac_effects ctx \<and>
    ac_observations ctx' = ac_observations ctx @ (case result of Inl _ \<Rightarrow> [] | Inr _ \<Rightarrow> [observation])"
  using assms by (auto simp: context_observe_def Let_def split: if_splits option.splits)

lemma perform_counts:
  assumes "perform eb ob req ctx = Ret (ctx', response)"
  shows "unat (ac_effects ctx') = unat (ac_effects ctx) + (if effect_granted (req, response) then 1 else 0) \<and>
    ac_observations ctx' = ac_observations ctx @ (case observation_granted (req, response) of None \<Rightarrow> [] | Some x \<Rightarrow> [x])"
proof (cases req)
  case (Send target e)
  then show ?thesis
    using assms send_at_counts [of eb ctx target "ac_now ctx" e]
    by (auto simp: perform_def context_send_def and_then_Ret_iff effect_granted_def observation_granted_def split: sum.splits)
next
  case (SendAfter target delay e)
  then show ?thesis
    using assms send_at_counts [of eb ctx target _ e]
    by (auto simp: perform_def context_send_after_def and_then_Ret_iff effect_granted_def observation_granted_def
        split: sum.splits option.splits)
next
  case (SendAt target at e)
  then show ?thesis
    using assms send_at_counts [of eb ctx target at e]
    by (auto simp: perform_def and_then_Ret_iff effect_granted_def observation_granted_def split: sum.splits)
next
  case (CancelEvent token)
  then show ?thesis
    using assms cancel_counts [of ctx token]
    by (auto simp: perform_def and_then_Ret_iff effect_granted_def observation_granted_def split: sum.splits)
next
  case (Observe observation)
  then show ?thesis
    using assms observe_counts [of ob ctx observation "fst (context_observe ob ctx observation)"
        "snd (context_observe ob ctx observation)"]
    by (auto simp: perform_def Let_def effect_granted_def observation_granted_def split: sum.splits)
qed

lemma callback_counts:
  assumes "run_callback eb ob cb ctx = Ret (ctx', m, r)"
  shows "unat (ac_effects ctx') = unat (ac_effects ctx) + length (filter effect_granted (callback_log eb ob cb ctx)) \<and>
    ac_observations ctx' = ac_observations ctx @ List.map_filter observation_granted (callback_log eb ob cb ctx)"
  using assms
proof (induction cb arbitrary: ctx)
  case (Ask req k)
  then obtain c1 response where 1: "perform eb ob req ctx = Ret (c1, response)"
    and rest: "run_callback eb ob (k response) c1 = Ret (ctx', m, r)"
    by (auto simp: and_then_Ret_iff)
  from Ask.IH [OF _ rest] have
    "unat (ac_effects ctx') = unat (ac_effects c1) + length (filter effect_granted (callback_log eb ob (k response) c1)) \<and>
     ac_observations ctx' = ac_observations c1 @ List.map_filter observation_granted (callback_log eb ob (k response) c1)"
    by blast
  then show ?case
    using perform_counts [OF 1] 1 by (simp add: map_filter_simps split: option.splits)
qed (simp_all add: List.map_filter_def)

text \<open>The bytes of the events that one store has and the other has not.\<close>

definition event_bytes_in ::
  "('e \<Rightarrow> retained_bytes) \<Rightarrow> (event_token \<Rightarrow> 'e routed option) \<Rightarrow> (event_token \<Rightarrow> 'e routed option) \<Rightarrow> nat" where
  "event_bytes_in eb here there = (\<Sum>tok\<in>dom here - dom there. unat (Routed_retained_bytes eb (the (here tok))))"

lemma total_bytes_distinct:
  assumes "distinct (map fst xs)"
  shows "total_bytes (image_mset f (mset xs)) = (\<Sum>k\<in>set (map fst xs). unat (f (k, the (map_of xs k))))"
  using assms
proof (induction xs)
  case (Cons x xs)
  have "(\<Sum>k\<in>set (map fst xs). unat (f (k, the (map_of (x # xs) k)))) =
      (\<Sum>k\<in>set (map fst xs). unat (f (k, the (map_of xs k))))"
    using Cons.prems by (intro sum.cong) (auto simp: image_iff)
  then show ?case
    using Cons by (cases x) (simp add: total_bytes_def)
qed (simp add: total_bytes_def)

lemma effect_bytes_exact:
  assumes "context_inv eb ob s0 ctx"
  shows "unat (ac_effect_bytes ctx) =
    event_bytes_in eb (timeline_content (ac_timeline ctx)) (timeline_content s0) +
    event_bytes_in eb (timeline_content s0) (timeline_content (ac_timeline ctx))"
proof -
  let ?new = "timeline_content (ac_timeline ctx)" and ?before = "timeline_content s0"
  have j: "journal ?before ?new (map fst (ac_inserted ctx)) (ac_removed ctx)" and e: "context_effects_ok eb ctx"
    using assms by (simp_all add: context_inv_def)
  have ins: "dom ?new - dom ?before = set (map fst (ac_inserted ctx))"
    using j by (auto simp: journal_def split: if_splits)
  have "?before tok \<noteq> None \<and> ?new tok = None" if "tok \<in> set (map fst (ac_removed ctx))" for tok
  proof -
    have "?before tok \<noteq> None"
      using j that by (auto simp: journal_def)
    moreover from this have "tok \<notin> set (map fst (ac_inserted ctx))"
      using j by (auto simp: journal_def)
    moreover from this have "?new tok = None"
      using j that by (simp add: journal_def)
    ultimately show ?thesis
      by simp
  qed
  moreover have "tok \<in> set (map fst (ac_removed ctx))" if "?before tok \<noteq> None" "?new tok = None" for tok
  proof -
    have "tok \<notin> set (map fst (ac_inserted ctx))"
      using j that(2) by (auto simp: journal_def)
    then have "?new tok = (if tok \<in> fst ` set (ac_removed ctx) then None else ?before tok)"
      using j by (simp add: journal_def)
    then show ?thesis
      using that by (simp split: if_splits)
  qed
  ultimately have "tok \<in> set (map fst (ac_removed ctx)) \<longleftrightarrow> ?before tok \<noteq> None \<and> ?new tok = None" for tok
    by meson
  then have rem: "dom ?before - dom ?new = set (map fst (ac_removed ctx))"
    unfolding set_eq_iff by (simp add: dom_def)
  have "total_bytes (inserted_sizes (ac_inserted ctx)) =
      (\<Sum>k\<in>set (map fst (ac_inserted ctx)). unat (the (map_of (ac_inserted ctx) k)))"
    unfolding inserted_sizes_def using j by (subst total_bytes_distinct) (simp_all add: journal_def)
  also have "\<dots> = event_bytes_in eb ?new ?before"
    unfolding event_bytes_in_def ins
  proof (rule sum.cong [OF refl])
    fix k
    assume "k \<in> set (map fst (ac_inserted ctx))"
    then obtain b where b: "bt_get (ac_inserted ctx) k = Some b"
      by (auto simp: bt_get_def dest: weak_map_of_SomeI)
    then have "\<exists>r. ?new k = Some r \<and> b = Routed_retained_bytes eb r"
      using e by (simp add: context_effects_ok_def)
    then show "unat (the (map_of (ac_inserted ctx) k)) = unat (Routed_retained_bytes eb (the (?new k)))"
      using b by (auto simp: bt_get_def)
  qed
  finally have inserted: "total_bytes (inserted_sizes (ac_inserted ctx)) = event_bytes_in eb ?new ?before" .
  have "total_bytes (removed_sizes eb (ac_removed ctx)) =
      (\<Sum>k\<in>set (map fst (ac_removed ctx)). unat (Routed_retained_bytes eb (the (map_of (ac_removed ctx) k))))"
    unfolding removed_sizes_def using j by (subst total_bytes_distinct) (simp_all add: journal_def)
  also have "\<dots> = event_bytes_in eb ?before ?new"
    unfolding event_bytes_in_def rem
  proof (rule sum.cong [OF refl])
    fix k
    assume "k \<in> set (map fst (ac_removed ctx))"
    then obtain r where r: "map_of (ac_removed ctx) k = Some r"
      by (auto dest: weak_map_of_SomeI)
    then have "?before k = Some r"
      using j map_of_SomeD [OF r] by (auto simp: journal_def)
    then show "unat (Routed_retained_bytes eb (the (map_of (ac_removed ctx) k))) =
        unat (Routed_retained_bytes eb (the (?before k)))"
      using r by simp
  qed
  finally show ?thesis
    using inserted e by (simp add: context_effects_ok_def)
qed

section \<open>Theorems\<close>

text \<open>
  C18. Rollback is exact. Whatever a callback did through its context before it failed or unwound
  (sends, delayed sends, cancellations of old events and of its own, observations), dropping the
  uncommitted context never panics and puts the timeline back: the same events under the same
  tokens, the same byte total, the same clock. Only the counter of event identities may be ahead.
\<close>

theorem context_rollback_exact:
  assumes "timeline_inv s0" "tl_measure s0 = Routed_retained_bytes eb"
    and "run_callback eb ob cb (ActionContext_new s0 topo stopped action now limits) = Ret (ctx, m, r)"
  shows "\<exists>s. ActionContext_drop eb ctx = Ret s \<and> s0 = s \<lparr> tl_next_id := tl_next_id s0 \<rparr>"
  using run_callback_ok [OF context_inv_new [OF assms(1,2)], of ob cb topo stopped action now limits]
    context_drop_ok [of eb ob s0 ctx] assms(3)
  by (auto simp: timeline_agree_def)

definition routed_demo :: "nat routed timeline" where
  "routed_demo = Timeline_with_measure 1 \<lparr> tml_pending_events = 3, tml_retained_bytes = 50 \<rparr>
     (Routed_retained_bytes of_nat)"

lemma routed_demo_inv: "timeline_inv routed_demo" "tl_measure routed_demo = Routed_retained_bytes of_nat"
  by (simp_all add: routed_demo_def Timeline_with_measure_def timeline_inv_at)
    (simp add: Timeline_at_with_measure_def)

definition context_limits_demo :: action_context_limits where
  "context_limits_demo = \<lparr> acl_effects = 4, acl_effect_bytes = 100, acl_observations = 2,
     acl_observation_bytes = 8, acl_max_time = 1000 \<rparr>"

theorem context_rollback_exact_witness:
  "\<exists>ctx s. run_callback of_nat of_nat
      (Ask (Send 2 9) (\<lambda>_. Ask (SendAfter 2 5 8) (\<lambda>_. Unwind ())) :: (nat, nat, unit, unit) callback)
      (ActionContext_new routed_demo [2] [] 0 0 context_limits_demo) = Ret (ctx, (), None) \<and>
    ActionContext_drop of_nat ctx = Ret s \<and> routed_demo = s \<lparr> tl_next_id := tl_next_id routed_demo \<rparr>"
proof -
  let ?cb = "Ask (Send 2 9) (\<lambda>_. Ask (SendAfter 2 5 8) (\<lambda>_. Unwind ())) :: (nat, nat, unit, unit) callback"
  let ?c0 = "ActionContext_new routed_demo [2] [] 0 0 context_limits_demo :: (nat, nat) action_context"
  obtain ctx m r where run: "run_callback of_nat of_nat ?cb ?c0 = Ret (ctx, m, r)"
    using run_callback_ok [OF context_inv_new [OF routed_demo_inv], of of_nat ?cb "[2]" "[]" 0 0
        context_limits_demo] by blast
  then have "r = None"
    by (auto simp: and_then_Ret_iff)
  moreover have "m = ()"
    by simp
  ultimately show ?thesis
    using run context_rollback_exact [OF routed_demo_inv, of of_nat ?cb] by metis
qed

text \<open>
  C24. A callback cannot exceed its budgets or reach a dead duty. However it uses its context, no
  operation panics. The effects it was granted (its sends that were given a token and its granted
  cancellations, as its own log has them) are counted exactly and are within the limit; so are the
  bytes of the events it added to the timeline and of those it took from it, taken together; the
  observations it was granted are kept, in order, within their count and their bytes. Every event
  pending afterwards was pending before or targets a duty of the topology that has not stopped, no
  later than the time limit, with this action as its cause.
\<close>

theorem callback_stays_within_limits:
  fixes cb :: "('e, 'o, 'm, 'x) callback"
  assumes "timeline_inv s0" "tl_measure s0 = Routed_retained_bytes eb"
  shows "\<exists>ctx m r. run_callback eb ob cb (ActionContext_new s0 topo stopped action now limits) = Ret (ctx, m, r) \<and>
    timeline_inv (ac_timeline ctx) \<and>
    (let log = callback_log eb ob cb (ActionContext_new s0 topo stopped action now limits) in
     unat (ac_effects ctx) = length (filter effect_granted log) \<and>
     length (filter effect_granted log) \<le> unat (acl_effects limits) \<and>
     ac_observations ctx = List.map_filter observation_granted log) \<and>
    event_bytes_in eb (timeline_content (ac_timeline ctx)) (timeline_content s0) +
      event_bytes_in eb (timeline_content s0) (timeline_content (ac_timeline ctx)) \<le> unat (acl_effect_bytes limits) \<and>
    ac_effects ctx \<le> acl_effects limits \<and> ac_effect_bytes ctx \<le> acl_effect_bytes limits \<and>
    length (ac_observations ctx) \<le> unat (acl_observations limits) \<and>
    total_bytes (mset (map ob (ac_observations ctx))) \<le> unat (acl_observation_bytes limits) \<and>
    (\<forall>tok routed. timeline_content (ac_timeline ctx) tok = Some routed \<longrightarrow>
       timeline_content s0 tok = Some routed \<or>
       Topology_contains topo (routed_target routed) \<and> bt_get stopped (routed_target routed) = None \<and>
       event_at tok \<le> acl_max_time limits \<and> routed_cause routed = Some action)"
proof -
  let ?c0 = "ActionContext_new s0 topo stopped action now limits :: ('e, 'o) action_context"
  obtain ctx m r where run: "run_callback eb ob cb ?c0 = Ret (ctx, m, r)"
      "context_inv eb ob s0 ctx" "same_action ?c0 ctx"
    using run_callback_ok [OF context_inv_new [OF assms], of ob cb topo stopped action now limits]
    by blast
  have frame: "ac_limits ctx = limits" "ac_topology ctx = topo" "ac_stopped ctx = stopped" "ac_action ctx = action"
    using run(3) by (simp_all add: same_action_def ActionContext_new_def)
  have counted: "unat (ac_effects ctx) = length (filter effect_granted (callback_log eb ob cb ?c0))"
    "ac_observations ctx = List.map_filter observation_granted (callback_log eb ob cb ?c0)"
    using callback_counts [OF run(1)] by (simp_all add: ActionContext_new_def)
  have within: "ac_effects ctx \<le> acl_effects limits" "ac_effect_bytes ctx \<le> acl_effect_bytes limits"
    "length (ac_observations ctx) \<le> unat (acl_observations limits)"
    "total_bytes (mset (map ob (ac_observations ctx))) \<le> unat (acl_observation_bytes limits)"
    using run(2) frame
    by (simp_all add: context_inv_def context_effects_ok_def context_observations_ok_def word_le_nat_alt)
  have "timeline_inv (ac_timeline ctx)"
    using run(2) by (simp add: context_inv_def context_timeline_ok_def)
  moreover have "event_bytes_in eb (timeline_content (ac_timeline ctx)) (timeline_content s0) +
      event_bytes_in eb (timeline_content s0) (timeline_content (ac_timeline ctx)) \<le> unat (acl_effect_bytes limits)"
    using effect_bytes_exact [OF run(2)] within(2) by (simp add: word_le_nat_alt)
  moreover have "length (filter effect_granted (callback_log eb ob cb ?c0)) \<le> unat (acl_effects limits)"
    using counted(1) within(1) by (simp add: word_le_nat_alt)
  moreover have "timeline_content s0 tok = Some routed \<or> published ctx tok routed"
    if "timeline_content (ac_timeline ctx) tok = Some routed" for tok routed
    using run(2) that by (simp add: context_inv_def)
  ultimately show ?thesis
    using run(1) counted within unfolding published_def frame Let_def by (intro exI [of _ ctx] exI conjI) blast+
qed

theorem callback_stays_within_limits_witness:
  "\<exists>ctx r. run_callback of_nat of_nat
      (Ask (Send 2 9) (\<lambda>_. Finish () (Inr Turn_waiting)) :: (nat, nat, unit, unit) callback)
      (ActionContext_new routed_demo [2] [] 0 0 context_limits_demo) = Ret (ctx, (), r) \<and>
    ac_effects ctx \<le> 4 \<and>
    unat (ac_effects ctx) = length (filter effect_granted (callback_log of_nat of_nat
      (Ask (Send 2 9) (\<lambda>_. Finish () (Inr Turn_waiting)) :: (nat, nat, unit, unit) callback)
      (ActionContext_new routed_demo [2] [] 0 0 context_limits_demo)))"
  using callback_stays_within_limits [OF routed_demo_inv, of of_nat
      "Ask (Send 2 9) (\<lambda>_. Finish () (Inr Turn_waiting)) :: (nat, nat, unit, unit) callback" "[2]" "[]" 0 0
      context_limits_demo]
  by (auto simp: context_limits_demo_def Let_def)

end
