(* ===== verification/Schedulers.thy ===== *)
theory Schedulers
  imports Next_Turn Sim_Event
begin

text \<open>
  Action metadata and the schedulers of the simulator (\<open>action.rs\<close>, \<open>trace/entry.rs\<close>,
  \<open>scheduler/\<close>): first-in first-out, round robin over duties, seeded selection from an entropy
  stream, and replay of a recorded trace. \<open>scheduler_contract\<close> is what the simulation needs of a
  scheduler (a nonempty ready set is answered without unwinding, by one of its own actions or an
  error); every scheduler of the crate is shown to satisfy it.

  Consumer code that unwinds is an answer \<open>None\<close>, next to the state it leaves.
\<close>

section \<open>Action records\<close>

record action_meta =
  am_id :: action_id
  am_key :: action_key
  am_at :: moment
  am_cause :: "action_id option"

record 'o action_record =
  ar_meta :: action_meta
  ar_turn :: turn
  ar_observations :: "'o list"

record trace_entry =
  trace_meta :: action_meta
  trace_turn :: turn

definition TraceEntry_new :: "action_meta \<Rightarrow> turn \<Rightarrow> trace_entry" where
  "TraceEntry_new meta turn = \<lparr> trace_meta = meta, trace_turn = turn \<rparr>"

definition TraceEntry_from_record :: "'o action_record \<Rightarrow> trace_entry" where
  "TraceEntry_from_record r = \<lparr> trace_meta = ar_meta r, trace_turn = ar_turn r \<rparr>"

section \<open>The contract\<close>

record ('s, 'x) scheduler_code =
  sc_choose :: "'s \<Rightarrow> moment \<Rightarrow> ready_set \<Rightarrow> 's \<times> ('x + action_key) option"
  sc_committed :: "'s \<Rightarrow> action_meta \<Rightarrow> turn \<Rightarrow> 's \<times> ('x + unit) option"
  sc_finished :: "'s \<Rightarrow> 's \<times> ('x + unit) option"

locale scheduler_contract =
  fixes code :: "('s, 'x) scheduler_code"
    and ok :: "'s \<Rightarrow> bool"
  assumes choose_ok: "ok s \<Longrightarrow> ready \<noteq> [] \<Longrightarrow> sorted ready \<Longrightarrow>
      \<exists>s' r. sc_choose code s now ready = (s', Some r) \<and> ok s' \<and> (\<forall>a. r = Inr a \<longrightarrow> a \<in> set ready)"
    and committed_ok: "ok s \<Longrightarrow> \<exists>s' r. sc_committed code s meta turn = (s', Some r) \<and> ok s'"
    and finished_ok: "ok s \<Longrightarrow> \<exists>s' r. sc_finished code s = (s', Some r) \<and> ok s'"
begin

lemma choose_member:
  "ok s \<Longrightarrow> ready \<noteq> [] \<Longrightarrow> sorted ready \<Longrightarrow> sc_choose code s now ready = (s', Some (Inr a)) \<Longrightarrow>
    ReadySet_contains ready a"
  using choose_ok [of s ready now] by (auto simp: ReadySet_contains_iff)

lemma choose_answers:
  "ok s \<Longrightarrow> ready \<noteq> [] \<Longrightarrow> sorted ready \<Longrightarrow> snd (sc_choose code s now ready) \<noteq> None"
  using choose_ok [of s ready now] by auto

end

text \<open>The trait's default methods.\<close>

definition default_committed :: "'s \<Rightarrow> action_meta \<Rightarrow> turn \<Rightarrow> 's \<times> ('x + unit) option" where
  "default_committed self action turn = (self, Some (Inr ()))"

definition default_finished :: "'s \<Rightarrow> 's \<times> ('x + unit) option" where
  "default_finished self = (self, Some (Inr ()))"

section \<open>First in, first out\<close>

definition Fifo_choose :: "unit \<Rightarrow> moment \<Rightarrow> ready_set \<Rightarrow> unit \<times> ('x + action_key) option" where
  "Fifo_choose self now ready =
     (case ReadySet_first ready of Some action \<Rightarrow> (self, Some (Inr action)) | None \<Rightarrow> (self, None))"

definition Fifo_code :: "(unit, 'x) scheduler_code" where
  "Fifo_code = \<lparr> sc_choose = Fifo_choose, sc_committed = default_committed,
     sc_finished = default_finished \<rparr>"

section \<open>Round robin\<close>

record round_robin =
  rr_cursor :: "duty_id option"

definition RoundRobin_new :: round_robin where
  "RoundRobin_new = \<lparr> rr_cursor = None \<rparr>"

fun iter_min :: "'a::linorder list \<Rightarrow> 'a option" where
  "iter_min [] = None"
| "iter_min (x # xs) = (case iter_min xs of None \<Rightarrow> Some x | Some y \<Rightarrow> Some (if x \<le> y then x else y))"

definition RoundRobin_choose ::
  "round_robin \<Rightarrow> moment \<Rightarrow> ready_set \<Rightarrow> round_robin \<times> ('x + action_key) option" where
  "RoundRobin_choose self now ready =
     (let after = (case rr_cursor self of
                     None \<Rightarrow> None
                   | Some cursor \<Rightarrow> iter_min (filter (\<lambda>duty. cursor < duty) (map action_duty ready)));
          owner = (case after of Some d \<Rightarrow> Some d | None \<Rightarrow> iter_min (map action_duty ready)) in
      case owner of
        None \<Rightarrow> (self, None)
      | Some owner \<Rightarrow>
          (case find (\<lambda>action. action_duty action = owner) ready of
             None \<Rightarrow> (self, None)
           | Some action \<Rightarrow> (self \<lparr> rr_cursor := Some owner \<rparr>, Some (Inr action))))"

definition RoundRobin_code :: "(round_robin, 'x) scheduler_code" where
  "RoundRobin_code = \<lparr> sc_choose = RoundRobin_choose, sc_committed = default_committed,
     sc_finished = default_finished \<rparr>"

section \<open>Seeded selection\<close>

record seeded =
  sd_entropy :: split_mix64
  sd_selections :: u64

datatype seeded_error = ReadySetTooLarge nat | SelectionsExhausted

definition Seeded_new :: "u64 \<Rightarrow> u64 \<Rightarrow> seeded" where
  "Seeded_new seed stream = \<lparr> sd_entropy = SplitMix64_new seed stream, sd_selections = 0 \<rparr>"

text \<open>
  The scaled index is computed in 128 bits, so the product is exact. The length of a vector is a
  \<open>usize\<close>, which \<open>u64::try_from\<close> always accepts on a 64-bit target.
\<close>

definition Seeded_choose ::
  "seeded \<Rightarrow> moment \<Rightarrow> ready_set \<Rightarrow> seeded \<times> (seeded_error + action_key) option" where
  "Seeded_choose self now ready =
     (case checked_add (sd_selections self) 1 of
        None \<Rightarrow> (self, Some (Inl SelectionsExhausted))
      | Some next_selections \<Rightarrow>
          if \<not> length ready < 2 ^ 64 then (self, Some (Inl (ReadySetTooLarge (length ready))))
          else if length ready = 0 then (self, None)
          else let (entropy, draw) = SplitMix64_next_u64 (sd_entropy self);
                   index = (unat draw * length ready) div 2 ^ 64
               in (self \<lparr> sd_entropy := entropy, sd_selections := next_selections \<rparr>,
                   Some (Inr (ready ! index))))"

definition Seeded_code :: "(seeded, seeded_error) scheduler_code" where
  "Seeded_code = \<lparr> sc_choose = Seeded_choose, sc_committed = default_committed,
     sc_finished = default_finished \<rparr>"

section \<open>Replay\<close>

type_synonym replay_position = u64

datatype replay_divergence =
  TraceExhausted replay_position moment nat
| ReplayMoment replay_position trace_entry moment
| ReplayUnavailable replay_position trace_entry nat
| ReplayCommitted replay_position trace_entry trace_entry
| TraceRemaining replay_position nat
| PendingCommit replay_position
| UnexpectedCommit replay_position trace_entry

fun ReplayDivergence_position :: "replay_divergence \<Rightarrow> replay_position" where
  "ReplayDivergence_position (TraceExhausted position _ _) = position"
| "ReplayDivergence_position (ReplayMoment position _ _) = position"
| "ReplayDivergence_position (ReplayUnavailable position _ _) = position"
| "ReplayDivergence_position (ReplayCommitted position _ _) = position"
| "ReplayDivergence_position (TraceRemaining position _) = position"
| "ReplayDivergence_position (PendingCommit position) = position"
| "ReplayDivergence_position (UnexpectedCommit position _) = position"

record replay =
  rp_entries :: "trace_entry list"
  rp_cursor :: usize
  rp_position :: replay_position
  rp_awaiting_commit :: bool

definition Replay_from_entries :: "trace_entry list \<Rightarrow> replay" where
  "Replay_from_entries entries =
     \<lparr> rp_entries = entries, rp_cursor = 0, rp_position = 0, rp_awaiting_commit = False \<rparr>"

definition Replay_remaining :: "replay \<Rightarrow> nat" where
  "Replay_remaining self = length (rp_entries self) - unat (rp_cursor self)"

definition Replay_is_complete :: "replay \<Rightarrow> bool" where
  "Replay_is_complete self \<longleftrightarrow> Replay_remaining self = 0 \<and> \<not> rp_awaiting_commit self"

definition Replay_expected :: "replay \<Rightarrow> trace_entry option" where
  "Replay_expected self =
     (if unat (rp_cursor self) < length (rp_entries self)
      then Some (rp_entries self ! unat (rp_cursor self)) else None)"

definition Replay_choose ::
  "replay \<Rightarrow> moment \<Rightarrow> ready_set \<Rightarrow> replay \<times> (replay_divergence + action_key) option" where
  "Replay_choose self now ready =
     (if rp_awaiting_commit self then (self, Some (Inl (PendingCommit (rp_position self))))
      else case Replay_expected self of
        None \<Rightarrow> (self, Some (Inl (TraceExhausted (rp_position self) now (length ready))))
      | Some expected \<Rightarrow>
          if am_at (trace_meta expected) \<noteq> now
          then (self, Some (Inl (ReplayMoment (rp_position self) expected now)))
          else if \<not> ReadySet_contains ready (am_key (trace_meta expected))
          then (self, Some (Inl (ReplayUnavailable (rp_position self) expected (length ready))))
          else (self \<lparr> rp_awaiting_commit := True \<rparr>, Some (Inr (am_key (trace_meta expected)))))"

definition Replay_committed ::
  "replay \<Rightarrow> action_meta \<Rightarrow> turn \<Rightarrow> replay \<times> (replay_divergence + unit) option" where
  "Replay_committed self action turn =
     (let actual = TraceEntry_new action turn in
      if \<not> rp_awaiting_commit self
      then (self, Some (Inl (UnexpectedCommit (rp_position self) actual)))
      else case Replay_expected self of
        None \<Rightarrow> (self, None)
      | Some expected \<Rightarrow>
          if actual \<noteq> expected
          then (self, Some (Inl (ReplayCommitted (rp_position self) expected actual)))
          else case checked_add (rp_cursor self) 1 of
            None \<Rightarrow> (self, None)
          | Some cursor \<Rightarrow>
              (case checked_add (rp_position self) 1 of
                 None \<Rightarrow> (self \<lparr> rp_cursor := cursor \<rparr>, None)
               | Some position \<Rightarrow>
                   (self \<lparr> rp_cursor := cursor, rp_position := position,
                           rp_awaiting_commit := False \<rparr>, Some (Inr ()))))"

definition Replay_finished :: "replay \<Rightarrow> replay \<times> (replay_divergence + unit) option" where
  "Replay_finished self =
     (if rp_awaiting_commit self then (self, Some (Inl (PendingCommit (rp_position self))))
      else if Replay_remaining self \<noteq> 0
      then (self, Some (Inl (TraceRemaining (rp_position self) (Replay_remaining self))))
      else (self, Some (Inr ())))"

definition Replay_code :: "(replay, replay_divergence) scheduler_code" where
  "Replay_code = \<lparr> sc_choose = Replay_choose, sc_committed = Replay_committed,
     sc_finished = Replay_finished \<rparr>"

section \<open>Every scheduler satisfies the contract\<close>

lemma iter_min_None_iff: "iter_min xs = None \<longleftrightarrow> xs = []"
  by (cases xs) (auto split: option.split)

lemma iter_min_SomeD: "iter_min xs = Some m \<Longrightarrow> m \<in> set xs \<and> (\<forall>x\<in>set xs. m \<le> x)"
proof (induction xs arbitrary: m)
  case (Cons x xs)
  then show ?case
    by (cases "iter_min xs") (force simp: iter_min_None_iff split: if_splits)+
qed simp

definition rr_owner :: "duty_id option \<Rightarrow> duty_id list \<Rightarrow> duty_id option" where
  "rr_owner cursor duties =
     (case (case cursor of None \<Rightarrow> None | Some c \<Rightarrow> iter_min (filter (\<lambda>d. c < d) duties)) of
        Some d \<Rightarrow> Some d | None \<Rightarrow> iter_min duties)"

lemma rr_owner_member: "rr_owner c ds = Some d \<Longrightarrow> d \<in> set ds"
  by (auto simp: rr_owner_def dest!: iter_min_SomeD split: option.splits)

lemma rr_owner_None: "rr_owner c ds = None \<Longrightarrow> ds = []"
  by (auto simp: rr_owner_def iter_min_None_iff split: option.splits)

lemma RoundRobin_choose_eq:
  assumes "ready \<noteq> []"
  shows "\<exists>a\<in>set ready. rr_owner (rr_cursor s) (map action_duty ready) = Some (action_duty a) \<and>
    RoundRobin_choose s now ready = (s \<lparr> rr_cursor := Some (action_duty a) \<rparr>, Some (Inr a))"
proof -
  obtain d where d: "rr_owner (rr_cursor s) (map action_duty ready) = Some d"
    using rr_owner_None [of "rr_cursor s" "map action_duty ready"] assms by fastforce
  then obtain b where "b \<in> set ready" "action_duty b = d"
    using rr_owner_member by fastforce
  then obtain a where a: "find (\<lambda>action. action_duty action = d) ready = Some a"
    by (cases "find (\<lambda>action. action_duty action = d) ready") (auto simp: find_None_iff)
  then have "a \<in> set ready" "action_duty a = d"
    by (auto simp: find_Some_iff)
  then show ?thesis
    using d a by (intro bexI [of _ a]) (simp_all add: RoundRobin_choose_def rr_owner_def Let_def)
qed

lemma scaled_index_less: "0 < n \<Longrightarrow> (unat x * n) div 2 ^ 64 < n" for x :: u64
  using unat_less_exp [of x] by (simp add: div_less_iff_less_mult mult.commute)

interpretation fifo: scheduler_contract Fifo_code "\<lambda>_. True"
  by unfold_locales
    (auto simp: Fifo_code_def Fifo_choose_def ReadySet_first_def default_committed_def
      default_finished_def)

interpretation round_robin: scheduler_contract RoundRobin_code "\<lambda>_. True"
proof (unfold_locales, goal_cases)
  case (1 s ready now)
  then show ?case
    using RoundRobin_choose_eq [OF 1(2), of s now] by (auto simp: RoundRobin_code_def)
qed (simp_all add: RoundRobin_code_def default_committed_def default_finished_def)

interpretation seeded: scheduler_contract Seeded_code "\<lambda>_. True"
  using scaled_index_less
  by unfold_locales
    (auto simp: Seeded_code_def Seeded_choose_def Let_def case_prod_unfold default_committed_def
      default_finished_def split: option.split)

text \<open>
  A replay's cursor and position move together and stay below the length of its trace, a vector's
  length, so neither counter can overflow.
\<close>

definition replay_ok :: "replay \<Rightarrow> bool" where
  "replay_ok s \<longleftrightarrow> length (rp_entries s) < 2 ^ 64 \<and> rp_position s = rp_cursor s \<and>
     unat (rp_cursor s) \<le> length (rp_entries s) \<and>
     (rp_awaiting_commit s \<longrightarrow> unat (rp_cursor s) < length (rp_entries s))"

lemma replay_advance:
  assumes "replay_ok s" "unat (rp_cursor s) < length (rp_entries s)"
  shows "checked_add (rp_cursor s) 1 = Some (rp_cursor s + 1)"
    "unat (rp_cursor s + 1) = unat (rp_cursor s) + 1"
proof -
  have "unat (rp_cursor s) + 1 < 2 ^ 64"
    using assms by (simp add: replay_ok_def)
  then show "checked_add (rp_cursor s) 1 = Some (rp_cursor s + 1)"
      "unat (rp_cursor s + 1) = unat (rp_cursor s) + 1"
    by (simp_all add: checked_add_def unat_word_ariths)
qed

interpretation replay: scheduler_contract Replay_code replay_ok
proof (unfold_locales, goal_cases)
  case (1 s ready now)
  then show ?case
    by (auto simp: Replay_code_def Replay_choose_def Replay_expected_def replay_ok_def
        ReadySet_contains_iff)
next
  case (2 s meta turn)
  show ?case
  proof (cases "rp_awaiting_commit s")
    case True
    then have "unat (rp_cursor s) < length (rp_entries s)" "rp_position s = rp_cursor s"
      using 2 by (simp_all add: replay_ok_def)
    then show ?thesis
      using True 2 replay_advance [OF 2]
      by (auto simp: Replay_code_def Replay_committed_def Replay_expected_def replay_ok_def Let_def)
  qed (use 2 in \<open>auto simp: Replay_code_def Replay_committed_def Let_def\<close>)
next
  case (3 s)
  then show ?case
    by (auto simp: Replay_code_def Replay_finished_def)
qed

section \<open>Fairness of round robin\<close>

text \<open>The duties served by round robin over a sequence of ready sets.\<close>

fun rr_served :: "round_robin \<Rightarrow> ready_set list \<Rightarrow> duty_id list" where
  "rr_served s [] = []"
| "rr_served s (ready # rest) =
     (case RoundRobin_choose s 0 ready :: round_robin \<times> (unit + action_key) option of
        (s', Some (Inr a)) \<Rightarrow> action_duty a # rr_served s' rest
      | _ \<Rightarrow> [])"

text \<open>
  The duties of a universe that may still be served before \<open>d\<close> is: those strictly between the
  cursor and \<open>d\<close> in cyclic order.
\<close>

definition rr_before :: "duty_id option \<Rightarrow> duty_id \<Rightarrow> duty_id set \<Rightarrow> duty_id set" where
  "rr_before cursor d U =
     (case cursor of
        None \<Rightarrow> {x\<in>U. x < d}
      | Some c \<Rightarrow> if c < d then {x\<in>U. c < x \<and> x < d} else {x\<in>U. c < x \<or> x < d})"

lemma rr_owner_progress:
  assumes owner: "rr_owner c ds = Some e" and d: "d \<in> set ds" "e \<noteq> d" and U: "set ds \<subseteq> U"
  shows "rr_before (Some e) d U \<subset> rr_before c d U"
proof -
  have e: "e \<in> U"
    using rr_owner_member [OF owner] U by blast
  consider (first) "(case c of None \<Rightarrow> None | Some c \<Rightarrow> iter_min (filter (\<lambda>x. c < x) ds)) = None"
      "iter_min ds = Some e"
    | (later) c' where "c = Some c'" "iter_min (filter (\<lambda>x. c' < x) ds) = Some e"
    using owner by (auto simp: rr_owner_def split: option.splits)
  then show ?thesis
  proof cases
    case first
    have "e < d"
      using iter_min_SomeD [OF first(2)] d by (auto simp: order.strict_iff_order)
    moreover have "c = None \<or> (\<exists>c'. c = Some c' \<and> (\<forall>x\<in>set ds. x \<le> c'))"
      using first(1) by (cases c) (auto simp: iter_min_None_iff filter_empty_conv not_less)
    ultimately have "rr_before (Some e) d U \<subseteq> rr_before c d U" "e \<in> rr_before c d U"
      using e d(1) by (force simp: rr_before_def)+
    moreover have "e \<notin> rr_before (Some e) d U"
      using \<open>e < d\<close> by (simp add: rr_before_def)
    ultimately show ?thesis
      by blast
  next
    case later
    have m: "c' < e" "\<forall>x\<in>set ds. c' < x \<longrightarrow> e \<le> x"
      using iter_min_SomeD [OF later(2)] by auto
    have "c' < d \<Longrightarrow> e < d"
      using m d by (auto simp: order.strict_iff_order)
    then have "rr_before (Some e) d U \<subseteq> rr_before c d U" "e \<in> rr_before c d U"
      using e m(1) later(1) by (auto simp: rr_before_def)
    moreover have "e \<notin> rr_before (Some e) d U"
      using d(2) by (auto simp: rr_before_def)
    ultimately show ?thesis
      by blast
  qed
qed

lemma rr_served_within:
  assumes "finite U" "\<forall>ready\<in>set rs. d \<in> action_duty ` set ready \<and> action_duty ` set ready \<subseteq> U"
    and "card (rr_before (rr_cursor s) d U) < length rs"
  shows "d \<in> set (rr_served s rs)"
  using assms(2,3)
proof (induction rs arbitrary: s)
  case (Cons ready rest)
  have ready: "ready \<noteq> []" "d \<in> set (map action_duty ready)" "set (map action_duty ready) \<subseteq> U"
    using Cons.prems(1) by auto
  obtain a where a: "rr_owner (rr_cursor s) (map action_duty ready) = Some (action_duty a)"
      "(RoundRobin_choose s 0 ready :: round_robin \<times> (unit + action_key) option) =
        (s \<lparr> rr_cursor := Some (action_duty a) \<rparr>, Some (Inr a))"
    using RoundRobin_choose_eq [OF ready(1)] by blast
  show ?case
  proof (cases "action_duty a = d")
    case False
    have "card (rr_before (Some (action_duty a)) d U) < card (rr_before (rr_cursor s) d U)"
    proof (rule psubset_card_mono)
      show "finite (rr_before (rr_cursor s) d U)"
        using assms(1) by (auto simp: rr_before_def split: option.split)
    qed (rule rr_owner_progress [OF a(1) ready(2) False ready(3)])
    then have "d \<in> set (rr_served (s \<lparr> rr_cursor := Some (action_duty a) \<rparr>) rest)"
      using Cons.prems by (intro Cons.IH) auto
    then show ?thesis
      using a(2) by simp
  qed (use a(2) in simp)
qed simp

section \<open>Theorems\<close>

text \<open>
  C27. Round robin is fair. If a duty has a ready action in each of a run of consecutive ready
  sets, and the run is at least as long as the number of duties that appear in it, then the duty is
  served within the run, wherever the cursor started.
\<close>

theorem round_robin_fair:
  assumes "\<forall>ready\<in>set rs. d \<in> action_duty ` set ready \<and> action_duty ` set ready \<subseteq> set duties"
    and "card (set duties) \<le> length rs" "rs \<noteq> []"
  shows "d \<in> set (rr_served s rs)"
proof -
  have d: "d \<in> set duties"
    using assms(1,3) by (cases rs) auto
  let ?B = "rr_before (rr_cursor s) d (set duties)"
  have "d \<notin> ?B"
    by (auto simp: rr_before_def split: option.splits if_splits)
  moreover have "?B \<subseteq> set duties"
    by (auto simp: rr_before_def split: option.splits)
  ultimately have "?B \<subset> set duties"
    using d by blast
  then have "card ?B < card (set duties)"
    by (rule psubset_card_mono [OF finite_set])
  then show ?thesis
    using assms(1,2) by (intro rr_served_within [of "set duties"]) auto
qed

theorem round_robin_fair_witness:
  "5 \<in> set (rr_served \<lparr> rr_cursor = Some 5 \<rparr>
     [[ActionKey_turn 3, ActionKey_turn 5], [ActionKey_turn 5, ActionKey_turn 9],
      [ActionKey_turn 3, ActionKey_turn 5, ActionKey_turn 9]])"
  by (rule round_robin_fair [where duties = "[3, 5, 9]"]) (simp_all add: ActionKey_turn_def)

text \<open>
  C37. Seeded selection stays in range: with a nonempty ready set it always returns one of its
  actions, at the index the 64-bit draw scales to, and it consumes exactly one draw and one
  selection; when the selections are used up it fails without touching its entropy. Equal
  schedulers make equal choices on equal ready sets.
\<close>

theorem seeded_choice_in_range:
  assumes "ready \<noteq> []" "length ready < 2 ^ 64"
  shows "Seeded_choose s now ready =
    (if sd_selections s = - 1 then (s, Some (Inl SelectionsExhausted))
     else (s \<lparr> sd_entropy := fst (SplitMix64_next_u64 (sd_entropy s)), sd_selections := sd_selections s + 1 \<rparr>,
           Some (Inr (ready ! ((unat (snd (SplitMix64_next_u64 (sd_entropy s))) * length ready) div 2 ^ 64))))) \<and>
    (unat (snd (SplitMix64_next_u64 (sd_entropy s))) * length ready) div 2 ^ 64 < length ready"
proof -
  have "unat (sd_selections s) + 1 < 2 ^ 64 \<longleftrightarrow> sd_selections s \<noteq> - 1"
    using unat_less_exp [of "sd_selections s"] unat_minus_one_full [where 'a = 64]
    by (auto simp: word_unat_eq_iff)
  then have "checked_add (sd_selections s) 1 =
      (if sd_selections s = - 1 then None else Some (sd_selections s + 1))"
    by (simp add: checked_add_def)
  then show ?thesis
    using assms scaled_index_less [of "length ready"]
    by (simp add: Seeded_choose_def Let_def case_prod_unfold)
qed

theorem seeded_choice_in_range_witness:
  "\<exists>key. snd (Seeded_choose (Seeded_new 7 1) 0 [ActionKey_turn 3, ActionKey_turn 5]) = Some (Inr key) \<and>
     key \<in> {ActionKey_turn 3, ActionKey_turn 5}"
proof -
  let ?ready = "[ActionKey_turn 3, ActionKey_turn 5]" and ?s = "Seeded_new 7 1"
  let ?i = "(unat (snd (SplitMix64_next_u64 (sd_entropy ?s))) * length ?ready) div 2 ^ 64"
  have "snd (Seeded_choose ?s 0 ?ready) = Some (Inr (?ready ! ?i))" "?i < length ?ready"
    using seeded_choice_in_range [of ?ready ?s 0] by (simp_all add: Seeded_new_def)
  moreover from this(2) have "?ready ! ?i \<in> set ?ready"
    by (rule nth_mem)
  ultimately show ?thesis
    by simp
qed

end
