(* ===== verification/Simulation.thy ===== *)
theory Simulation
  imports Context Schedulers
begin

text \<open>
  The deterministic simulation (\<open>simulation/\<close>): construction under limits, injection, one step
  (canonical ready set, selection, execution of a turn or a delivery as a transaction, or the
  advance of virtual time), and runs to quiescence or completion.

  The model, the scheduler and the monitor are consumer code, given as records of functions. Each
  answers with \<open>None\<close> when it unwinds: the step then unwinds too and leaves the simulation
  poisoned. \<open>Panic\<close> is a panic of the simulator's own invariant checks.
\<close>

section \<open>Consumer code\<close>

record ('m, 'e, 'o, 'x) model_code =
  mc_turn :: "'m \<Rightarrow> duty_id \<Rightarrow> moment \<Rightarrow> action_id \<Rightarrow> ('e, 'o, 'm, 'x) callback"
  mc_deliver :: "'m \<Rightarrow> duty_id \<Rightarrow> 'e delivery \<Rightarrow> action_id \<Rightarrow> ('e, 'o, 'm, 'x) callback"
  mc_event_bytes :: "'e \<Rightarrow> retained_bytes"
  mc_observation_bytes :: "'o \<Rightarrow> retained_bytes"

datatype simulation_phase = Active | Completed | Failed

record duty_state =
  ds_next :: next_run
  ds_turns :: u64
  ds_deliveries :: u64

definition DutyState_initial :: duty_state where
  "DutyState_initial = \<lparr> ds_next = Now, ds_turns = 0, ds_deliveries = 0 \<rparr>"

record duty_snapshot =
  dsn_duty :: duty_id
  dsn_state :: duty_state

record simulation_snapshot =
  ssn_phase :: simulation_phase
  ssn_timeline :: timeline_snapshot
  ssn_duties :: nat
  ssn_stopped :: nat
  ssn_actions :: u64
  ssn_actions_at_moment :: u64

record 'm simulation_view =
  sv_model :: 'm
  sv_topology :: topology
  sv_states :: "(duty_id, duty_state) btree"
  sv_snapshot :: simulation_snapshot

record ('n, 'm, 'o, 'x) monitor_code =
  nc_after_action :: "'n \<Rightarrow> 'm simulation_view \<Rightarrow> 'o action_record \<Rightarrow> 'n \<times> ('x + unit) option"

text \<open>\<open>NoopMonitor\<close>\<close>

definition NoopMonitor_code :: "(unit, 'm, 'o, 'x) monitor_code" where
  "NoopMonitor_code = \<lparr> nc_after_action = (\<lambda>self view action. (self, Some (Inr ()))) \<rparr>"

section \<open>Limits\<close>

record simulation_limits =
  sl_max_duties :: usize
  sl_timeline :: timeline_limits
  sl_effects_per_action :: usize
  sl_effect_bytes_per_action :: retained_bytes
  sl_observations_per_action :: usize
  sl_observation_bytes_per_action :: retained_bytes
  sl_total_actions :: u64
  sl_actions_per_moment :: u64
  sl_max_virtual_time :: moment

definition SimulationLimits_new :: "timeline_limits \<Rightarrow> simulation_limits" where
  "SimulationLimits_new timeline =
     \<lparr> sl_max_duties = 256, sl_timeline = timeline, sl_effects_per_action = 256,
       sl_effect_bytes_per_action = 16 * 1024 * 1024, sl_observations_per_action = 256,
       sl_observation_bytes_per_action = 4 * 1024 * 1024, sl_total_actions = 1000000,
       sl_actions_per_moment = 100000, sl_max_virtual_time = - 1 \<rparr>"

text \<open>The builder's methods; a limit is never zero.\<close>

definition SimulationLimits_with_max_duties :: "simulation_limits \<Rightarrow> usize \<Rightarrow> simulation_limits" where
  "SimulationLimits_with_max_duties self limit = self \<lparr> sl_max_duties := limit \<rparr>"

definition SimulationLimits_with_effects_per_action :: "simulation_limits \<Rightarrow> usize \<Rightarrow> simulation_limits" where
  "SimulationLimits_with_effects_per_action self limit = self \<lparr> sl_effects_per_action := limit \<rparr>"

definition SimulationLimits_with_effect_bytes_per_action :: "simulation_limits \<Rightarrow> retained_bytes \<Rightarrow> simulation_limits" where
  "SimulationLimits_with_effect_bytes_per_action self limit = self \<lparr> sl_effect_bytes_per_action := limit \<rparr>"

definition SimulationLimits_with_observations_per_action :: "simulation_limits \<Rightarrow> usize \<Rightarrow> simulation_limits" where
  "SimulationLimits_with_observations_per_action self limit = self \<lparr> sl_observations_per_action := limit \<rparr>"

definition SimulationLimits_with_observation_bytes_per_action :: "simulation_limits \<Rightarrow> retained_bytes \<Rightarrow> simulation_limits" where
  "SimulationLimits_with_observation_bytes_per_action self limit = self \<lparr> sl_observation_bytes_per_action := limit \<rparr>"

definition SimulationLimits_with_total_actions :: "simulation_limits \<Rightarrow> u64 \<Rightarrow> simulation_limits" where
  "SimulationLimits_with_total_actions self limit = self \<lparr> sl_total_actions := limit \<rparr>"

definition SimulationLimits_with_actions_per_moment :: "simulation_limits \<Rightarrow> u64 \<Rightarrow> simulation_limits" where
  "SimulationLimits_with_actions_per_moment self limit = self \<lparr> sl_actions_per_moment := limit \<rparr>"

definition SimulationLimits_with_max_virtual_time :: "simulation_limits \<Rightarrow> moment \<Rightarrow> simulation_limits" where
  "SimulationLimits_with_max_virtual_time self limit = self \<lparr> sl_max_virtual_time := limit \<rparr>"

definition SimulationLimits_action_context :: "simulation_limits \<Rightarrow> action_context_limits" where
  "SimulationLimits_action_context self =
     \<lparr> acl_effects = sl_effects_per_action self, acl_effect_bytes = sl_effect_bytes_per_action self,
       acl_observations = sl_observations_per_action self,
       acl_observation_bytes = sl_observation_bytes_per_action self,
       acl_max_time = sl_max_virtual_time self \<rparr>"

section \<open>Errors and outcomes\<close>

datatype kernel_failure =
  UnknownDeliveryTarget event_token duty_id
| DeliveryTargetsStopped event_token duty_id
| DeliveryTargetMismatch event_token duty_id duty_id
| TimelineLostEvent event_token
| StoppedWithPending duty_id nat
| ActionIdsExhausted
| NoFutureProgress moment

datatype limit_failure =
  TotalActions u64
| ActionsAtMoment moment u64
| VirtualTime moment moment

datatype ('mx, 'nx, 'sx) step_error =
  ModelError action_meta 'mx
| MonitorError action_meta 'nx
| SchedulerError 'sx
| InvalidSelection action_key
| KernelError kernel_failure
| LimitError limit_failure
| Poisoned
| Inactive simulation_phase

datatype 'o step =
  StepAction "'o action_record"
| TimeAdvanced moment moment
| Quiescent simulation_snapshot
| StepCompleted simulation_snapshot

datatype build_failure =
  DutyCapacity usize nat
| ReadyCapacityOverflow nat usize
| InitialTimeBeyondLimit moment moment

datatype injection_failure =
  InjectionPoisoned
| InjectionInactive simulation_phase
| InjectionUnknownTarget duty_id
| InjectionTargetStopped duty_id
| InjectionTimeOverflow moment span
| InjectionBeyondTimeLimit moment moment
| InjectionTimeline schedule_failure

record 'e injection_error =
  ie_event :: 'e
  ie_failure :: injection_failure

datatype run_end = RunCompleted | RunQuiescent

record run_report =
  rr_end :: run_end
  rr_snapshot :: simulation_snapshot

datatype 'x run_error = RunStep 'x | Deadlock simulation_snapshot

section \<open>State\<close>

record ('m, 'e, 's, 'n) simulation =
  sim_model :: 'm
  sim_topology :: topology
  sim_states :: "(duty_id, duty_state) btree"
  sim_stopped :: duty_set
  sim_timeline :: "'e routed timeline"
  sim_limits :: simulation_limits
  sim_scheduler :: 's
  sim_monitor :: 'n
  sim_phase :: simulation_phase
  sim_poisoned :: bool
  sim_next_action :: "u64 option"
  sim_actions :: u64
  sim_actions_at_moment :: u64
  sim_ready :: ready_set

definition Simulation_with_parts ::
  "('e \<Rightarrow> retained_bytes) \<Rightarrow> timeline_id \<Rightarrow> moment \<Rightarrow> 'm \<Rightarrow> topology \<Rightarrow> simulation_limits \<Rightarrow> 's \<Rightarrow> 'n \<Rightarrow>
   build_failure \<times> 'm \<times> topology \<times> 's \<times> 'n + ('m, 'e, 's, 'n) simulation" where
  "Simulation_with_parts event_bytes ident now model topology limits scheduler monitor =
     (let events = tml_pending_events (sl_timeline limits);
          ready_capacity_overflows = \<not> length topology + unat events < 2 ^ 64;
          failure =
            (if unat (sl_max_duties limits) < length topology
             then Some (DutyCapacity (sl_max_duties limits) (length topology))
             else if sl_max_virtual_time limits < now
             then Some (InitialTimeBeyondLimit now (sl_max_virtual_time limits))
             else if ready_capacity_overflows
             then Some (ReadyCapacityOverflow (length topology) events)
             else None) in
      case failure of
        Some failure \<Rightarrow> Inl (failure, model, topology, scheduler, monitor)
      | None \<Rightarrow>
          Inr \<lparr> sim_model = model, sim_topology = topology,
                sim_states = foldl (\<lambda>m duty. bt_insert duty DutyState_initial m) [] topology,
                sim_stopped = [],
                sim_timeline = Timeline_at_with_measure ident now (sl_timeline limits)
                  (Routed_retained_bytes event_bytes),
                sim_limits = limits, sim_scheduler = scheduler, sim_monitor = monitor,
                sim_phase = Active, sim_poisoned = False, sim_next_action = Some 0, sim_actions = 0,
                sim_actions_at_moment = 0, sim_ready = [] \<rparr>)"

text \<open>Without a monitor of the caller's, and without a scheduler of the caller's.\<close>

definition Simulation_with_scheduler ::
  "('e \<Rightarrow> retained_bytes) \<Rightarrow> timeline_id \<Rightarrow> 'm \<Rightarrow> topology \<Rightarrow> simulation_limits \<Rightarrow> 's \<Rightarrow>
   build_failure \<times> 'm \<times> topology \<times> 's \<times> unit + ('m, 'e, 's, unit) simulation" where
  "Simulation_with_scheduler event_bytes ident model topology limits scheduler =
     Simulation_with_parts event_bytes ident 0 model topology limits scheduler ()"

definition Simulation_new ::
  "('e \<Rightarrow> retained_bytes) \<Rightarrow> timeline_id \<Rightarrow> 'm \<Rightarrow> topology \<Rightarrow> simulation_limits \<Rightarrow>
   build_failure \<times> 'm \<times> topology \<times> unit \<times> unit + ('m, 'e, unit, unit) simulation" where
  "Simulation_new event_bytes ident model topology limits =
     Simulation_with_parts event_bytes ident 0 model topology limits () ()"

definition Simulation_into_components :: "('m, 'e, 's, 'n) simulation \<Rightarrow> 'm \<times> topology \<times> 's \<times> 'n" where
  "Simulation_into_components self = (sim_model self, sim_topology self, sim_scheduler self, sim_monitor self)"

definition Simulation_now :: "('m, 'e, 's, 'n) simulation \<Rightarrow> moment" where
  "Simulation_now self = Timeline_now (sim_timeline self)"

definition Simulation_snapshot :: "('m, 'e, 's, 'n) simulation \<Rightarrow> simulation_snapshot" where
  "Simulation_snapshot self =
     \<lparr> ssn_phase = sim_phase self, ssn_timeline = Timeline_snapshot (sim_timeline self),
       ssn_duties = length (sim_topology self), ssn_stopped = length (sim_stopped self),
       ssn_actions = sim_actions self, ssn_actions_at_moment = sim_actions_at_moment self \<rparr>"

definition Simulation_duty :: "('m, 'e, 's, 'n) simulation \<Rightarrow> duty_id \<Rightarrow> duty_snapshot option" where
  "Simulation_duty self duty =
     map_option (\<lambda>state. \<lparr> dsn_duty = duty, dsn_state = state \<rparr>) (bt_get (sim_states self) duty)"

definition Simulation_fail :: "('m, 'e, 's, 'n) simulation \<Rightarrow> ('m, 'e, 's, 'n) simulation" where
  "Simulation_fail self = self \<lparr> sim_phase := Failed \<rparr>"

section \<open>Injection\<close>

definition Simulation_inject_at ::
  "('m, 'e, 's, 'n) simulation \<Rightarrow> duty_id \<Rightarrow> moment \<Rightarrow> 'e \<Rightarrow>
   (('m, 'e, 's, 'n) simulation \<times> ('e injection_error + event_token)) run" where
  "Simulation_inject_at self target at event =
     (let rejected = (\<lambda>failure. Ret (self, Inl \<lparr> ie_event = event, ie_failure = failure \<rparr>)) in
      if sim_poisoned self then rejected InjectionPoisoned
      else if sim_phase self \<noteq> Active then rejected (InjectionInactive (sim_phase self))
      else if \<not> Topology_contains (sim_topology self) target then rejected (InjectionUnknownTarget target)
      else if bt_get (sim_stopped self) target \<noteq> None then rejected (InjectionTargetStopped target)
      else if sl_max_virtual_time (sim_limits self) < at
      then rejected (InjectionBeyondTimeLimit at (sl_max_virtual_time (sim_limits self)))
      else
        and_then (Timeline_schedule_at (sim_timeline self) at (Routed_new target None event))
          (\<lambda>(timeline, scheduled).
             case scheduled of
               Inr token \<Rightarrow> Ret (self \<lparr> sim_timeline := timeline \<rparr>, Inr token)
             | Inl err \<Rightarrow>
                 Ret (self \<lparr> sim_timeline := timeline \<rparr>,
                      Inl \<lparr> ie_event = routed_event (se_event err),
                            ie_failure = InjectionTimeline (se_failure err) \<rparr>)))"

definition Simulation_inject ::
  "('m, 'e, 's, 'n) simulation \<Rightarrow> duty_id \<Rightarrow> 'e \<Rightarrow>
   (('m, 'e, 's, 'n) simulation \<times> ('e injection_error + event_token)) run" where
  "Simulation_inject self target event = Simulation_inject_at self target (Simulation_now self) event"

definition Simulation_inject_after ::
  "('m, 'e, 's, 'n) simulation \<Rightarrow> duty_id \<Rightarrow> span \<Rightarrow> 'e \<Rightarrow>
   (('m, 'e, 's, 'n) simulation \<times> ('e injection_error + event_token)) run" where
  "Simulation_inject_after self target delay event =
     (case Moment_checked_add (Simulation_now self) delay of
        None \<Rightarrow> Ret (self, Inl \<lparr> ie_event = event,
                               ie_failure = InjectionTimeOverflow (Simulation_now self) delay \<rparr>)
      | Some at \<Rightarrow> Simulation_inject_at self target at event)"

section \<open>Executing an action\<close>

text \<open>
  The results below pair the simulation afterwards with \<open>None\<close> if consumer code unwound through the
  call, or with the returned \<open>Result\<close>. \<open>PoisonGuard\<close> sets the poison flag around every call of
  consumer code and clears it on a normal return, so the flag is set exactly when that call unwound.
\<close>

definition commit_context ::
  "('e \<Rightarrow> retained_bytes) \<Rightarrow> duty_id \<Rightarrow> turn \<Rightarrow> ('e, 'o) action_context \<Rightarrow>
   ('e routed timeline \<times> (kernel_failure + 'o list)) run" where
  "commit_context event_bytes duty turn ctx =
     (let pending = ActionContext_pending_for ctx duty in
      if turn_next turn = Stop \<and> pending \<noteq> 0
      then and_then (ActionContext_drop event_bytes ctx) (\<lambda>timeline.
             Ret (timeline, Inl (StoppedWithPending duty pending)))
      else let (ctx', observations) = ActionContext_commit ctx in
        and_then (ActionContext_drop event_bytes ctx') (\<lambda>timeline.
          Ret (timeline, Inr observations)))"

definition update_owner ::
  "('m, 'e, 's, 'n) simulation \<Rightarrow> duty_id \<Rightarrow> turn \<Rightarrow> bool \<Rightarrow> ('m, 'e, 's, 'n) simulation run" where
  "update_owner self duty turn delivery =
     (case bt_get (sim_states self) duty of
        None \<Rightarrow> Panic
      | Some state \<Rightarrow>
          let state' = (if delivery
                then state \<lparr> ds_next := turn_next turn, ds_deliveries := saturating_add (ds_deliveries state) 1 \<rparr>
                else state \<lparr> ds_next := turn_next turn, ds_turns := saturating_add (ds_turns state) 1 \<rparr>) in
          Ret (self \<lparr> sim_states := bt_insert duty state' (sim_states self),
                      sim_stopped := (if turn_next turn = Stop then bt_insert duty () (sim_stopped self)
                                      else sim_stopped self) \<rparr>))"

definition finish_action ::
  "('s, 'sx) scheduler_code \<Rightarrow> ('n, 'm, 'o, 'nx) monitor_code \<Rightarrow> ('m, 'e, 's, 'n) simulation \<Rightarrow>
   action_meta \<Rightarrow> turn \<Rightarrow> 'o list \<Rightarrow>
   ('m, 'e, 's, 'n) simulation \<times> (('mx, 'nx, 'sx) step_error + 'o action_record) option" where
  "finish_action sc nc self meta turn observations =
     (let record' = \<lparr> ar_meta = meta, ar_turn = turn, ar_observations = observations \<rparr>;
          (scheduler, committed) = sc_committed sc (sim_scheduler self) meta turn;
          self = self \<lparr> sim_scheduler := scheduler \<rparr> in
      case committed of
        None \<Rightarrow> (self \<lparr> sim_poisoned := True \<rparr>, None)
      | Some (Inl source) \<Rightarrow> (Simulation_fail self, Some (Inl (SchedulerError source)))
      | Some (Inr _) \<Rightarrow>
          let view = \<lparr> sv_model = sim_model self, sv_topology = sim_topology self,
                       sv_states = sim_states self, sv_snapshot = Simulation_snapshot self \<rparr>;
              (monitor, observed) = nc_after_action nc (sim_monitor self) view record';
              self = self \<lparr> sim_monitor := monitor \<rparr> in
          case observed of
            None \<Rightarrow> (self \<lparr> sim_poisoned := True \<rparr>, None)
          | Some (Inl source) \<Rightarrow> (Simulation_fail self, Some (Inl (MonitorError meta source)))
          | Some (Inr _) \<Rightarrow> (self, Some (Inr record')))"

text \<open>What \<open>execute_turn\<close> and \<open>execute_delivery\<close> do with their callback once the context is made.\<close>

definition execute_callback ::
  "('m, 'e, 'o, 'mx) model_code \<Rightarrow> ('s, 'sx) scheduler_code \<Rightarrow> ('n, 'm, 'o, 'nx) monitor_code \<Rightarrow>
   ('m, 'e, 's, 'n) simulation \<Rightarrow> action_meta \<Rightarrow> bool \<Rightarrow> ('e, 'o, 'm, 'mx) callback \<Rightarrow>
   (('m, 'e, 's, 'n) simulation \<times> (('mx, 'nx, 'sx) step_error + 'o action_record) option) run" where
  "execute_callback mc sc nc self meta delivery callback =
     (let duty = action_duty (am_key meta);
          ctx = ActionContext_new (sim_timeline self) (sim_topology self) (sim_stopped self)
                  (am_id meta) (Simulation_now self) (SimulationLimits_action_context (sim_limits self)) in
      and_then (run_callback (mc_event_bytes mc) (mc_observation_bytes mc) callback ctx)
        (\<lambda>(ctx', model, result).
          case result of
            None \<Rightarrow>
              and_then (ActionContext_drop (mc_event_bytes mc) ctx') (\<lambda>timeline.
                Ret (self \<lparr> sim_model := model, sim_timeline := timeline, sim_poisoned := True \<rparr>, None))
          | Some (Inl source) \<Rightarrow>
              and_then (ActionContext_drop (mc_event_bytes mc) ctx') (\<lambda>timeline.
                Ret (Simulation_fail (self \<lparr> sim_model := model, sim_timeline := timeline \<rparr>),
                     Some (Inl (ModelError meta source))))
          | Some (Inr turn) \<Rightarrow>
              and_then (commit_context (mc_event_bytes mc) duty turn ctx') (\<lambda>(timeline, committed).
                let self = self \<lparr> sim_model := model, sim_timeline := timeline \<rparr> in
                case committed of
                  Inl failure \<Rightarrow> Ret (Simulation_fail self, Some (Inl (KernelError failure)))
                | Inr observations \<Rightarrow>
                    and_then (update_owner self duty turn delivery) (\<lambda>self.
                      Ret (finish_action sc nc self meta turn observations)))))"

definition execute_turn ::
  "('m, 'e, 'o, 'mx) model_code \<Rightarrow> ('s, 'sx) scheduler_code \<Rightarrow> ('n, 'm, 'o, 'nx) monitor_code \<Rightarrow>
   ('m, 'e, 's, 'n) simulation \<Rightarrow> action_key \<Rightarrow> action_id \<Rightarrow>
   (('m, 'e, 's, 'n) simulation \<times> (('mx, 'nx, 'sx) step_error + 'o action_record) option) run" where
  "execute_turn mc sc nc self key ident =
     (let now = Simulation_now self;
          meta = \<lparr> am_id = ident, am_key = key, am_at = now, am_cause = None \<rparr> in
      execute_callback mc sc nc self meta False
        (mc_turn mc (sim_model self) (action_duty key) now ident))"

definition execute_delivery ::
  "('m, 'e, 'o, 'mx) model_code \<Rightarrow> ('s, 'sx) scheduler_code \<Rightarrow> ('n, 'm, 'o, 'nx) monitor_code \<Rightarrow>
   ('m, 'e, 's, 'n) simulation \<Rightarrow> action_key \<Rightarrow> action_id \<Rightarrow> event_token \<Rightarrow>
   (('m, 'e, 's, 'n) simulation \<times> (('mx, 'nx, 'sx) step_error + 'o action_record) option) run" where
  "execute_delivery mc sc nc self key ident token =
     and_then (Timeline_cancel (sim_timeline self) token) (\<lambda>(timeline, removed).
       let self = self \<lparr> sim_timeline := timeline \<rparr> in
       case removed of
         None \<Rightarrow> Ret (Simulation_fail self, Some (Inl (KernelError (TimelineLostEvent token))))
       | Some routed \<Rightarrow>
           if routed_target routed \<noteq> action_duty key
           then Ret (Simulation_fail self, Some (Inl (KernelError
                  (DeliveryTargetMismatch token (action_duty key) (routed_target routed)))))
           else let meta = \<lparr> am_id = ident, am_key = key, am_at = Simulation_now self,
                             am_cause = routed_cause routed \<rparr>;
                    delivery = \<lparr> delivery_token = token, delivery_event = routed_event routed \<rparr> in
             execute_callback mc sc nc self meta True
               (mc_deliver mc (sim_model self) (action_duty key) delivery ident))"

definition execute_selected ::
  "('m, 'e, 'o, 'mx) model_code \<Rightarrow> ('s, 'sx) scheduler_code \<Rightarrow> ('n, 'm, 'o, 'nx) monitor_code \<Rightarrow>
   ('m, 'e, 's, 'n) simulation \<Rightarrow> action_key \<Rightarrow> action_id \<Rightarrow>
   (('m, 'e, 's, 'n) simulation \<times> (('mx, 'nx, 'sx) step_error + 'o action_record) option) run" where
  "execute_selected mc sc nc self key ident =
     (case action_kind key of
        Delivery token \<Rightarrow> execute_delivery mc sc nc self key ident token
      | TurnAction \<Rightarrow> execute_turn mc sc nc self key ident)"

section \<open>One step\<close>

text \<open>
  \<open>build_ready\<close>: deliveries due now, checked against the topology, and runnable duties. On a failure
  the code leaves a part of the set in its private buffer, which nothing reads before the next call
  clears it; the model returns the failure alone.
\<close>

fun ready_deliveries ::
  "'e routed timeline \<Rightarrow> topology \<Rightarrow> duty_set \<Rightarrow> event_token list \<Rightarrow> (kernel_failure + action_key list) run" where
  "ready_deliveries timeline topology stopped [] = Ret (Inr [])"
| "ready_deliveries timeline topology stopped (token # tokens) =
     and_then (expect (Timeline_event timeline token)) (\<lambda>routed.
       if \<not> Topology_contains topology (routed_target routed)
       then Ret (Inl (UnknownDeliveryTarget token (routed_target routed)))
       else if bt_get stopped (routed_target routed) \<noteq> None
       then Ret (Inl (DeliveryTargetsStopped token (routed_target routed)))
       else and_then (ready_deliveries timeline topology stopped tokens) (\<lambda>rest.
         Ret (case rest of Inl failure \<Rightarrow> Inl failure
              | Inr keys \<Rightarrow> Inr (ActionKey_delivery (routed_target routed) token # keys))))"

definition duty_runnable :: "duty_state \<Rightarrow> moment \<Rightarrow> bool" where
  "duty_runnable state now =
     (case ds_next state of
        Now \<Rightarrow> True
      | WakeOr deadline \<Rightarrow> Deadline_is_elapsed_at deadline now
      | Wake \<Rightarrow> False
      | Stop \<Rightarrow> False)"

definition ready_turns :: "(duty_id, duty_state) btree \<Rightarrow> moment \<Rightarrow> action_key list" where
  "ready_turns states now =
     map (\<lambda>(duty, _). ActionKey_turn duty) (filter (\<lambda>(_, state). duty_runnable state now) states)"

definition build_ready ::
  "('m, 'e, 's, 'n) simulation \<Rightarrow> (kernel_failure + ready_set) run" where
  "build_ready self =
     (let now = Simulation_now self in
      and_then (ready_deliveries (sim_timeline self) (sim_topology self) (sim_stopped self)
          (Timeline_tokens_at (sim_timeline self) now)) (\<lambda>deliveries.
        Ret (case deliveries of
               Inl failure \<Rightarrow> Inl failure
             | Inr keys \<Rightarrow> Inr (remdups_adj (sort (keys @ ready_turns (sim_states self) now))))))"

definition next_deadline :: "('m, 'e, 's, 'n) simulation \<Rightarrow> moment option" where
  "next_deadline self =
     iter_min (List.map_filter (\<lambda>(_, state). case ds_next state of
         WakeOr deadline \<Rightarrow> Some deadline | Now \<Rightarrow> None | Wake \<Rightarrow> None | Stop \<Rightarrow> None)
       (sim_states self))"

fun earliest :: "moment option \<Rightarrow> moment option \<Rightarrow> moment option" where
  "earliest (Some left) (Some right) = Some (min left right)"
| "earliest (Some value) None = Some value"
| "earliest None (Some value) = Some value"
| "earliest None None = None"

definition enforce_action_limits ::
  "('m, 'e, 's, 'n) simulation \<Rightarrow> limit_failure option" where
  "enforce_action_limits self =
     (if sl_total_actions (sim_limits self) \<le> sim_actions self
      then Some (TotalActions (sl_total_actions (sim_limits self)))
      else if sl_actions_per_moment (sim_limits self) \<le> sim_actions_at_moment self
      then Some (ActionsAtMoment (Simulation_now self) (sl_actions_per_moment (sim_limits self)))
      else None)"

definition advance_or_finish ::
  "('s, 'sx) scheduler_code \<Rightarrow> ('m, 'e, 's, 'n) simulation \<Rightarrow>
   (('m, 'e, 's, 'n) simulation \<times> (('mx, 'nx, 'sx) step_error + 'o step) option) run" where
  "advance_or_finish sc self =
     (if length (sim_stopped self) = length (sim_topology self)
      then (case Timeline_pending (sim_timeline self) of
          (token, routed) # _ \<Rightarrow>
            Ret (Simulation_fail self,
                 Some (Inl (KernelError (DeliveryTargetsStopped token (routed_target routed)))))
        | [] \<Rightarrow>
            let (scheduler, finished) = sc_finished sc (sim_scheduler self);
                self = self \<lparr> sim_scheduler := scheduler \<rparr> in
            case finished of
              None \<Rightarrow> Ret (self \<lparr> sim_poisoned := True \<rparr>, None)
            | Some (Inl source) \<Rightarrow> Ret (Simulation_fail self, Some (Inl (SchedulerError source)))
            | Some (Inr _) \<Rightarrow>
                let self = self \<lparr> sim_phase := Completed \<rparr> in
                Ret (self, Some (Inr (StepCompleted (Simulation_snapshot self)))))
      else
        let now = Simulation_now self in
        case earliest (Timeline_next_at (sim_timeline self)) (next_deadline self) of
          None \<Rightarrow> Ret (self, Some (Inr (Quiescent (Simulation_snapshot self))))
        | Some nxt \<Rightarrow>
            if nxt \<le> now
            then Ret (Simulation_fail self, Some (Inl (KernelError (NoFutureProgress now))))
            else if sl_max_virtual_time (sim_limits self) < nxt
            then Ret (Simulation_fail self,
                      Some (Inl (LimitError (VirtualTime nxt (sl_max_virtual_time (sim_limits self))))))
            else and_then (Timeline_advance_to (sim_timeline self) nxt) (\<lambda>timeline.
              Ret (self \<lparr> sim_timeline := timeline, sim_actions_at_moment := 0 \<rparr>,
                   Some (Inr (TimeAdvanced now nxt)))))"

definition select_and_execute ::
  "('m, 'e, 'o, 'mx) model_code \<Rightarrow> ('s, 'sx) scheduler_code \<Rightarrow> ('n, 'm, 'o, 'nx) monitor_code \<Rightarrow>
   ('m, 'e, 's, 'n) simulation \<Rightarrow>
   (('m, 'e, 's, 'n) simulation \<times> (('mx, 'nx, 'sx) step_error + 'o step) option) run" where
  "select_and_execute mc sc nc self =
     (let (scheduler, choice) = sc_choose sc (sim_scheduler self) (Simulation_now self) (sim_ready self);
          self = self \<lparr> sim_scheduler := scheduler \<rparr> in
      case choice of
        None \<Rightarrow> Ret (self \<lparr> sim_poisoned := True \<rparr>, None)
      | Some (Inl source) \<Rightarrow> Ret (Simulation_fail self, Some (Inl (SchedulerError source)))
      | Some (Inr selected) \<Rightarrow>
          if \<not> ReadySet_contains (sim_ready self) selected
          then Ret (Simulation_fail self, Some (Inl (InvalidSelection selected)))
          else case sim_next_action self of
            None \<Rightarrow> Ret (Simulation_fail self, Some (Inl (KernelError ActionIdsExhausted)))
          | Some raw \<Rightarrow>
              let self = self \<lparr> sim_next_action := checked_add raw 1,
                                sim_actions := sim_actions self + 1,
                                sim_actions_at_moment := sim_actions_at_moment self + 1 \<rparr> in
              and_then (execute_selected mc sc nc self selected raw) (\<lambda>(self, result).
                Ret (self, map_option (map_sum id StepAction) result)))"

definition Simulation_step ::
  "('m, 'e, 'o, 'mx) model_code \<Rightarrow> ('s, 'sx) scheduler_code \<Rightarrow> ('n, 'm, 'o, 'nx) monitor_code \<Rightarrow>
   ('m, 'e, 's, 'n) simulation \<Rightarrow>
   (('m, 'e, 's, 'n) simulation \<times> (('mx, 'nx, 'sx) step_error + 'o step) option) run" where
  "Simulation_step mc sc nc self =
     (if sim_poisoned self then Ret (self, Some (Inl Poisoned))
      else if sim_phase self \<noteq> Active then Ret (self, Some (Inl (Inactive (sim_phase self))))
      else and_then (build_ready self) (\<lambda>built.
        case built of
          Inl failure \<Rightarrow> Ret (Simulation_fail self, Some (Inl (KernelError failure)))
        | Inr ready \<Rightarrow>
            let self = self \<lparr> sim_ready := ready \<rparr> in
            if ready = [] then advance_or_finish sc self
            else case enforce_action_limits self of
              Some failure \<Rightarrow> Ret (Simulation_fail self, Some (Inl (LimitError failure)))
            | None \<Rightarrow> select_and_execute mc sc nc self))"

section \<open>Runs\<close>

text \<open>
  \<open>run_to_quiescence\<close> loops while steps are actions or advances of time. The loop is a partial
  function: \<open>None\<close> would be a run that never returns.
\<close>

definition step_continues :: "(('x + 'o step) option) \<Rightarrow> bool" where
  "step_continues result =
     (case result of
        Some (Inr (StepAction _)) \<Rightarrow> True
      | Some (Inr (TimeAdvanced _ _)) \<Rightarrow> True
      | _ \<Rightarrow> False)"

definition run_outcome :: "(('x + 'o step) option) \<Rightarrow> ('x + run_report) option" where
  "run_outcome result =
     (case result of
        Some (Inl e) \<Rightarrow> Some (Inl e)
      | Some (Inr (Quiescent snapshot)) \<Rightarrow> Some (Inr \<lparr> rr_end = RunQuiescent, rr_snapshot = snapshot \<rparr>)
      | Some (Inr (StepCompleted snapshot)) \<Rightarrow> Some (Inr \<lparr> rr_end = RunCompleted, rr_snapshot = snapshot \<rparr>)
      | _ \<Rightarrow> None)"

partial_function (option) run_to_quiescence ::
  "('m, 'e, 'o, 'mx) model_code \<Rightarrow> ('s, 'sx) scheduler_code \<Rightarrow> ('n, 'm, 'o, 'nx) monitor_code \<Rightarrow>
   ('m, 'e, 's, 'n) simulation \<Rightarrow>
   (('m, 'e, 's, 'n) simulation \<times> (('mx, 'nx, 'sx) step_error + run_report) option) run option" where
  "run_to_quiescence mc sc nc self =
     (case Simulation_step mc sc nc self of
        Panic \<Rightarrow> Some Panic
      | Ret (self, stepped) \<Rightarrow>
          if step_continues stepped then run_to_quiescence mc sc nc self
          else Some (Ret (self, run_outcome stepped)))"

definition run_to_completion ::
  "('m, 'e, 'o, 'mx) model_code \<Rightarrow> ('s, 'sx) scheduler_code \<Rightarrow> ('n, 'm, 'o, 'nx) monitor_code \<Rightarrow>
   ('m, 'e, 's, 'n) simulation \<Rightarrow>
   (('m, 'e, 's, 'n) simulation \<times> (('mx, 'nx, 'sx) step_error run_error + run_report) option) run option" where
  "run_to_completion mc sc nc self =
     map_option (\<lambda>r. and_then r (\<lambda>(self, outcome).
         Ret (self, map_option (\<lambda>result. case result of
             Inl e \<Rightarrow> Inl (RunStep e)
           | Inr report \<Rightarrow>
               if rr_end report = RunCompleted then Inr report
               else Inl (Deadlock (rr_snapshot report))) outcome)))
       (run_to_quiescence mc sc nc self)"

section \<open>Invariant\<close>

text \<open>Every pending event can be delivered: its target is a live duty and its moment is allowed.\<close>

definition events_deliverable :: "('m, 'e, 's, 'n) simulation \<Rightarrow> bool" where
  "events_deliverable sim \<longleftrightarrow>
     (\<forall>tok routed. timeline_content (sim_timeline sim) tok = Some routed \<longrightarrow>
        Topology_contains (sim_topology sim) (routed_target routed) \<and>
        bt_get (sim_stopped sim) (routed_target routed) = None \<and>
        event_at tok \<le> sl_max_virtual_time (sim_limits sim))"

definition duties_consistent :: "('m, 'e, 's, 'n) simulation \<Rightarrow> bool" where
  "duties_consistent sim \<longleftrightarrow>
     sorted_wrt (<) (sim_topology sim) \<and> bt_ok (sim_states sim) \<and> bt_ok (sim_stopped sim) \<and>
     (\<forall>d. bt_get (sim_states sim) d \<noteq> None \<longleftrightarrow> d \<in> set (sim_topology sim)) \<and>
     (\<forall>d. bt_get (sim_stopped sim) d \<noteq> None \<longleftrightarrow>
        (\<exists>state. bt_get (sim_states sim) d = Some state \<and> ds_next state = Stop))"

definition counters_within :: "('m, 'e, 's, 'n) simulation \<Rightarrow> bool" where
  "counters_within sim \<longleftrightarrow>
     sim_actions sim \<le> sl_total_actions (sim_limits sim) \<and>
     sim_actions_at_moment sim \<le> sl_actions_per_moment (sim_limits sim) \<and>
     sim_next_action sim = Some (sim_actions sim)"

definition simulation_core :: "('e \<Rightarrow> retained_bytes) \<Rightarrow> ('m, 'e, 's, 'n) simulation \<Rightarrow> bool" where
  "simulation_core eb sim \<longleftrightarrow>
     timeline_inv (sim_timeline sim) \<and> tl_measure (sim_timeline sim) = Routed_retained_bytes eb \<and>
     Simulation_now sim \<le> sl_max_virtual_time (sim_limits sim) \<and>
     events_deliverable sim \<and> duties_consistent sim \<and> counters_within sim"

definition all_stopped :: "('m, 'e, 's, 'n) simulation \<Rightarrow> bool" where
  "all_stopped sim \<longleftrightarrow> (\<forall>d\<in>set (sim_topology sim). bt_get (sim_stopped sim) d \<noteq> None)"

definition simulation_inv :: "('e \<Rightarrow> retained_bytes) \<Rightarrow> ('m, 'e, 's, 'n) simulation \<Rightarrow> bool" where
  "simulation_inv eb sim \<longleftrightarrow> simulation_core eb sim \<and>
     (sim_phase sim = Completed \<longrightarrow> tl_events (sim_timeline sim) = [] \<and> all_stopped sim)"

lemmas sim_parts = events_deliverable_def duties_consistent_def counters_within_def Simulation_now_def

lemma simulation_core_cong:
  assumes "sim_timeline b = sim_timeline a" "sim_topology b = sim_topology a" "sim_states b = sim_states a"
    "sim_stopped b = sim_stopped a" "sim_limits b = sim_limits a" "sim_actions b = sim_actions a"
    "sim_actions_at_moment b = sim_actions_at_moment a" "sim_next_action b = sim_next_action a"
  shows "simulation_core eb b \<longleftrightarrow> simulation_core eb a"
  using assms by (simp add: simulation_core_def sim_parts)

lemma simulation_core_simps [simp]:
  "simulation_core eb (sim \<lparr> sim_scheduler := x1 \<rparr>) = simulation_core eb sim"
  "simulation_core eb (sim \<lparr> sim_monitor := x2 \<rparr>) = simulation_core eb sim"
  "simulation_core eb (sim \<lparr> sim_phase := x3 \<rparr>) = simulation_core eb sim"
  "simulation_core eb (sim \<lparr> sim_poisoned := x4 \<rparr>) = simulation_core eb sim"
  "simulation_core eb (sim \<lparr> sim_ready := x5 \<rparr>) = simulation_core eb sim"
  "simulation_core eb (sim \<lparr> sim_model := x6 \<rparr>) = simulation_core eb sim"
  by (simp_all add: simulation_core_def sim_parts)

lemma Simulation_now_simps [simp]:
  "Simulation_now (sim \<lparr> sim_scheduler := x1 \<rparr>) = Simulation_now sim"
  "Simulation_now (sim \<lparr> sim_monitor := x2 \<rparr>) = Simulation_now sim"
  "Simulation_now (sim \<lparr> sim_phase := x3 \<rparr>) = Simulation_now sim"
  "Simulation_now (sim \<lparr> sim_poisoned := x4 \<rparr>) = Simulation_now sim"
  "Simulation_now (sim \<lparr> sim_ready := x5 \<rparr>) = Simulation_now sim"
  "Simulation_now (sim \<lparr> sim_model := x6 \<rparr>) = Simulation_now sim"
  "Simulation_now (sim \<lparr> sim_actions_at_moment := x7 \<rparr>) = Simulation_now sim"
  "Simulation_now (sim \<lparr> sim_actions := x8 \<rparr>) = Simulation_now sim"
  "Simulation_now (sim \<lparr> sim_next_action := x9 \<rparr>) = Simulation_now sim"
  by (simp_all add: Simulation_now_def)

lemma Topology_contains_iff: "sorted_wrt (<) topo \<Longrightarrow> Topology_contains topo d \<longleftrightarrow> d \<in> set topo"
  using binary_search_complete [of topo "length topo" 0 _ d] binary_search_sound [of d topo 0 "length topo"]
  by (fastforce simp: Topology_contains_def in_set_conv_nth strict_sorted_iff)

section \<open>The ready set\<close>

lemma ready_deliveries_ok:
  assumes "\<forall>tok\<in>set toks. \<exists>r. timeline_content s tok = Some r \<and> Topology_contains topo (routed_target r) \<and>
    bt_get stopped (routed_target r) = None"
  shows "ready_deliveries s topo stopped toks =
    Ret (Inr (map (\<lambda>tok. ActionKey_delivery (routed_target (the (timeline_content s tok))) tok) toks))"
  using assms by (induction toks) (auto simp: timeline_event_eq)

lemma ready_turns_iff:
  assumes "bt_ok states"
  shows "a \<in> set (ready_turns states now) \<longleftrightarrow>
    (\<exists>d st. bt_get states d = Some st \<and> duty_runnable st now \<and> a = ActionKey_turn d)"
  using btree.entries_lookup [OF assms] by (force simp: ready_turns_def)

definition ready_actions :: "('m, 'e, 's, 'n) simulation \<Rightarrow> action_key set" where
  "ready_actions sim =
     {ActionKey_delivery (routed_target r) tok | tok r.
        event_at tok = Simulation_now sim \<and> timeline_content (sim_timeline sim) tok = Some r} \<union>
     {ActionKey_turn d | d st. bt_get (sim_states sim) d = Some st \<and> duty_runnable st (Simulation_now sim)}"

lemma build_ready_ok:
  assumes core: "simulation_core eb sim"
  shows "\<exists>ready. build_ready sim = Ret (Inr ready) \<and> sorted ready \<and> set ready = ready_actions sim"
proof -
  let ?s = "sim_timeline sim" and ?now = "Simulation_now sim"
  let ?toks = "Timeline_tokens_at ?s ?now"
  let ?keys = "map (\<lambda>tok. ActionKey_delivery (routed_target (the (timeline_content ?s tok))) tok) ?toks"
  let ?ready = "remdups_adj (sort (?keys @ ready_turns (sim_states sim) ?now))"
  have inv: "timeline_inv ?s"
    using core by (simp add: simulation_core_def)
  have toks: "tok \<in> set ?toks \<longleftrightarrow> event_at tok = ?now \<and> timeline_content ?s tok \<noteq> None" for tok
    using tokens_at_iff [OF inv] by (simp add: timeline_content_def)
  have "ready_deliveries ?s (sim_topology sim) (sim_stopped sim) ?toks = Ret (Inr ?keys)"
    using core toks by (intro ready_deliveries_ok) (auto simp: simulation_core_def events_deliverable_def)
  then have "build_ready sim = Ret (Inr ?ready)"
    by (simp add: build_ready_def Let_def)
  moreover have "sorted ?ready"
    by (simp add: sorted_remdups_adj)
  moreover have "bt_ok (sim_states sim)"
    using core by (simp add: simulation_core_def duties_consistent_def)
  then have "set ?ready = ready_actions sim"
    using toks by (auto simp: ready_actions_def ready_turns_iff image_iff) (force+)
  ultimately show ?thesis
    by blast
qed

section \<open>Executing an action keeps the invariant\<close>

text \<open>
  What every part of a step guarantees: the core invariant, the same world, time not moving
  backward, and no kernel failure but a duty that stops with deliveries pending.
\<close>

definition benign :: "(('mx, 'nx, 'sx) step_error + 'r) option \<Rightarrow> bool" where
  "benign r \<longleftrightarrow> (\<forall>f. r = Some (Inl (KernelError f)) \<longrightarrow> (\<exists>d n. f = StoppedWithPending d n \<and> n \<noteq> 0))"

definition same_world :: "('m, 'e, 's, 'n) simulation \<Rightarrow> ('m, 'e, 's, 'n) simulation \<Rightarrow> bool" where
  "same_world a b \<longleftrightarrow> sim_topology b = sim_topology a \<and> sim_limits b = sim_limits a \<and>
     sim_actions b = sim_actions a \<and> sim_actions_at_moment b = sim_actions_at_moment a \<and>
     sim_next_action b = sim_next_action a \<and> Simulation_now b = Simulation_now a"

lemma benign_simps [simp]: "benign None" "benign (Some (Inr x))"
  by (simp_all add: benign_def)

definition part_ok ::
  "('e \<Rightarrow> retained_bytes) \<Rightarrow> ('m, 'e, 's, 'n) simulation \<Rightarrow>
   (('m, 'e, 's, 'n) simulation \<times> (('mx, 'nx, 'sx) step_error + 'r) option) run \<Rightarrow> bool" where
  "part_ok eb sim result \<longleftrightarrow> (\<exists>sim' r. result = Ret (sim', r) \<and> simulation_core eb sim' \<and>
     same_world sim sim' \<and> benign r \<and> (sim_phase sim' = sim_phase sim \<or> sim_phase sim' = Failed))"

lemma part_ok_trans:
  "same_world a b \<Longrightarrow> sim_phase b = sim_phase a \<Longrightarrow> part_ok eb b res \<Longrightarrow> part_ok eb a res"
  by (fastforce simp: part_ok_def same_world_def)

lemma finish_action_ok:
  fixes sc :: "('s, 'sx) scheduler_code" and nc :: "('n, 'm, 'o, 'nx) monitor_code"
    and sim :: "('m, 'e, 's, 'n) simulation"
  assumes "simulation_core eb sim"
  shows "part_ok eb sim (Ret (finish_action sc nc sim meta turn obs ::
    ('m, 'e, 's, 'n) simulation \<times> (('mx, 'nx, 'sx) step_error + 'o action_record) option))"
proof -
  obtain sim' and r :: "(('mx, 'nx, 'sx) step_error + 'o action_record) option" where
    fin: "finish_action sc nc sim meta turn obs = (sim', r)"
    by fastforce
  have "simulation_core eb sim' \<longleftrightarrow> simulation_core eb sim"
    by (rule simulation_core_cong)
      (use fin in \<open>auto simp: finish_action_def Simulation_fail_def Let_def
        split: prod.splits option.splits sum.splits\<close>)
  moreover have "same_world sim sim' \<and> benign r \<and> (sim_phase sim' = sim_phase sim \<or> sim_phase sim' = Failed)"
    using fin by (auto simp: finish_action_def Simulation_fail_def Let_def same_world_def benign_def
        Simulation_now_def split: prod.splits option.splits sum.splits)
  ultimately show ?thesis
    using assms fin by (simp add: part_ok_def)
qed

lemma pending_for_zero:
  assumes "timeline_inv (ac_timeline ctx)" "ActionContext_pending_for ctx d = 0"
    "timeline_content (ac_timeline ctx) tok = Some r"
  shows "routed_target r \<noteq> d"
  using assms timeline_pending_iff [OF assms(1), of tok r]
  by (auto simp: ActionContext_pending_for_def filter_empty_conv)

lemma commit_context_ok:
  assumes inv: "context_inv eb ob s0 ctx"
  shows "(\<exists>s n. commit_context eb d turn ctx = Ret (s, Inl (StoppedWithPending d n)) \<and> n \<noteq> 0 \<and>
      timeline_agree s0 s \<and> timeline_inv s \<and> timeline_later s0 s \<and> tl_measure s = Routed_retained_bytes eb) \<or>
    commit_context eb d turn ctx = Ret (ac_timeline ctx, Inr (ac_observations ctx)) \<and>
      (turn_next turn = Stop \<longrightarrow> ActionContext_pending_for ctx d = 0)"
  using context_drop_ok [OF inv]
  by (auto simp: commit_context_def ActionContext_commit_def ActionContext_drop_def [of _ "_ \<lparr> ac_committed := True,
        ac_inserted := _, ac_removed := _, ac_observations := _ \<rparr>"] Let_def)

lemma timeline_agree_content: "timeline_agree s0 s \<Longrightarrow> timeline_content s = timeline_content s0"
proof -
  assume agree: "timeline_agree s0 s"
  have "tl_id s0 = tl_id s" "tl_events s0 = tl_events s"
    using arg_cong [OF agree [unfolded timeline_agree_def], of tl_id]
      arg_cong [OF agree [unfolded timeline_agree_def], of tl_events] by simp_all
  then show ?thesis
    by (simp add: timeline_content_def timeline_map_def fun_eq_iff)
qed

lemma simulation_core_rollback:
  assumes core: "simulation_core eb sim" and agree: "timeline_agree (sim_timeline sim) s"
    and s: "timeline_inv s" "timeline_later (sim_timeline sim) s" "tl_measure s = Routed_retained_bytes eb"
  shows "simulation_core eb (sim \<lparr> sim_model := m, sim_timeline := s, sim_poisoned := p, sim_phase := ph \<rparr>) \<and>
    same_world sim (sim \<lparr> sim_model := m, sim_timeline := s, sim_poisoned := p, sim_phase := ph \<rparr>)"
  using core s timeline_agree_content [OF agree]
  by (simp add: simulation_core_def sim_parts Timeline_now_def timeline_later_def same_world_def)

lemma update_owner_ok:
  assumes core: "simulation_core eb sim" and d: "d \<in> set (sim_topology sim)" "bt_get (sim_stopped sim) d = None"
    and clear: "turn_next turn = Stop \<longrightarrow>
      (\<forall>tok r. timeline_content (sim_timeline sim) tok = Some r \<longrightarrow> routed_target r \<noteq> d)"
  shows "\<exists>sim'. update_owner sim d turn delivery = Ret sim' \<and> simulation_core eb sim' \<and>
    same_world sim sim' \<and> sim_phase sim' = sim_phase sim"
proof -
  have dc: "duties_consistent sim"
    using core by (simp add: simulation_core_def)
  then obtain st where st: "bt_get (sim_states sim) d = Some st"
    using d(1) unfolding duties_consistent_def by blast
  define st' where "st' = (if delivery
      then st \<lparr> ds_next := turn_next turn, ds_deliveries := saturating_add (ds_deliveries st) 1 \<rparr>
      else st \<lparr> ds_next := turn_next turn, ds_turns := saturating_add (ds_turns st) 1 \<rparr>)"
  let ?stopped = "if turn_next turn = Stop then bt_insert d () (sim_stopped sim) else sim_stopped sim"
  let ?sim = "sim \<lparr> sim_states := bt_insert d st' (sim_states sim), sim_stopped := ?stopped \<rparr>"
  have eq: "update_owner sim d turn delivery = Ret ?sim"
    by (simp add: update_owner_def st st'_def Let_def)
  have nxt: "ds_next st' = turn_next turn"
    by (simp add: st'_def)
  have "bt_ok (bt_insert d st' (sim_states sim))" "bt_ok ?stopped"
    using dc bt_ok_insert by (auto simp: duties_consistent_def)
  moreover have "\<forall>x. bt_get (bt_insert d st' (sim_states sim)) x \<noteq> None \<longleftrightarrow> x \<in> set (sim_topology sim)"
    using dc d(1) by (auto simp: duties_consistent_def bt_get_insert)
  moreover have "\<forall>x. bt_get ?stopped x \<noteq> None \<longleftrightarrow>
      (\<exists>state. bt_get (bt_insert d st' (sim_states sim)) x = Some state \<and> ds_next state = Stop)"
  proof -
    have "\<not> (\<exists>state. bt_get (sim_states sim) d = Some state \<and> ds_next state = Stop)"
      using dc d(2) unfolding duties_consistent_def by metis
    then show ?thesis
      using dc d(2) nxt by (auto simp: duties_consistent_def bt_get_insert)
  qed
  ultimately have "duties_consistent ?sim"
    using dc by (simp add: duties_consistent_def)
  moreover have "events_deliverable ?sim"
    using core clear by (auto simp: simulation_core_def events_deliverable_def bt_get_insert)
  ultimately have "simulation_core eb ?sim"
    using core by (simp add: simulation_core_def counters_within_def Simulation_now_def)
  then show ?thesis
    using eq by (simp add: same_world_def Simulation_now_def)
qed

lemma execute_callback_ok:
  assumes core: "simulation_core (mc_event_bytes mc) sim"
    and d: "action_duty (am_key meta) \<in> set (sim_topology sim)" "bt_get (sim_stopped sim) (action_duty (am_key meta)) = None"
  shows "part_ok (mc_event_bytes mc) sim (execute_callback mc sc nc sim meta delivery cb)"
proof -
  let ?eb = "mc_event_bytes mc" and ?ob = "mc_observation_bytes mc" and ?s = "sim_timeline sim"
  let ?d = "action_duty (am_key meta)"
  let ?c0 = "ActionContext_new ?s (sim_topology sim) (sim_stopped sim) (am_id meta)
    (Simulation_now sim) (SimulationLimits_action_context (sim_limits sim))"
  have tl: "timeline_inv ?s" "tl_measure ?s = Routed_retained_bytes ?eb"
    using core by (simp_all add: simulation_core_def)
  obtain ctx m r where run: "run_callback ?eb ?ob cb ?c0 = Ret (ctx, m, r)"
      "context_inv ?eb ?ob ?s ctx" "same_action ?c0 ctx"
    using run_callback_ok [OF context_inv_new [OF tl], of ?ob cb "sim_topology sim" "sim_stopped sim"
        "am_id meta" "Simulation_now sim" "SimulationLimits_action_context (sim_limits sim)"] by blast
  obtain s1 where s1: "ActionContext_drop ?eb ctx = Ret s1" "timeline_agree ?s s1" "timeline_inv s1"
      "timeline_later ?s s1" "tl_measure s1 = Routed_retained_bytes ?eb"
    using context_drop_ok [OF run(2)] by blast
  note undone_poisoned = simulation_core_rollback [OF core, where m = m and p = True and ph = "sim_phase sim"]
  note undone_failed = simulation_core_rollback [OF core, where m = m and p = "sim_poisoned sim" and ph = Failed]
  show ?thesis
  proof (cases r)
    case None
    then show ?thesis
      using run(1) s1 undone_poisoned [OF s1(2-5)]
      by (simp add: execute_callback_def part_ok_def Let_def)
  next
    case (Some res)
    show ?thesis
    proof (cases res)
      case (Inl e)
      then show ?thesis
        using Some run(1) s1 undone_failed [OF s1(2-5)]
        by (simp add: execute_callback_def part_ok_def Let_def Simulation_fail_def benign_def)
    next
      case (Inr turn)
      from commit_context_ok [OF run(2), of ?d turn] show ?thesis
      proof (elim disjE exE conjE, goal_cases)
        case (1 s n)
        then show ?thesis
          using Some Inr run(1) undone_failed [of s]
          by (simp add: execute_callback_def part_ok_def Let_def Simulation_fail_def benign_def)
      next
        case 2
        let ?sim = "sim \<lparr> sim_model := m, sim_timeline := ac_timeline ctx \<rparr>"
        have ctx: "timeline_inv (ac_timeline ctx)" "timeline_later ?s (ac_timeline ctx)"
            "tl_measure (ac_timeline ctx) = Routed_retained_bytes ?eb"
          using run(2) by (simp_all add: context_inv_def context_timeline_ok_def)
        have "events_deliverable ?sim"
          using core run(2,3)
          by (force simp: simulation_core_def events_deliverable_def context_inv_def published_def
              same_action_def ActionContext_new_def SimulationLimits_action_context_def)
        then have core': "simulation_core ?eb ?sim" and world: "same_world sim ?sim"
          using core ctx by (simp_all add: simulation_core_def sim_parts Timeline_now_def
              timeline_later_def same_world_def)
        obtain sim2 where up: "update_owner ?sim ?d turn delivery = Ret sim2" "simulation_core ?eb sim2"
            "same_world ?sim sim2" "sim_phase sim2 = sim_phase ?sim"
          using update_owner_ok [OF core', of ?d turn delivery] d 2(2) pending_for_zero [OF ctx(1)] by auto
        have eq: "execute_callback mc sc nc sim meta delivery cb =
            Ret (finish_action sc nc sim2 meta turn (ac_observations ctx))"
          using Some Inr run(1) 2(1) up(1) by (simp add: execute_callback_def Let_def)
        have "same_world sim sim2" "sim_phase sim2 = sim_phase sim"
          using up(3,4) world by (simp_all add: same_world_def)
        then show ?thesis
          unfolding eq by (rule part_ok_trans) (rule finish_action_ok [OF up(2)])
      qed
    qed
  qed
qed

lemma ready_action_duty:
  assumes core: "simulation_core eb sim" and a: "a \<in> ready_actions sim"
  shows "action_duty a \<in> set (sim_topology sim)" "bt_get (sim_stopped sim) (action_duty a) = None"
proof -
  have dc: "duties_consistent sim" "events_deliverable sim"
    using core by (simp_all add: simulation_core_def)
  have contains: "Topology_contains (sim_topology sim) d \<longleftrightarrow> d \<in> set (sim_topology sim)" for d
    using dc(1) by (intro Topology_contains_iff) (simp add: duties_consistent_def)
  from a consider tok r where "a = ActionKey_delivery (routed_target r) tok"
      "timeline_content (sim_timeline sim) tok = Some r"
    | d st where "a = ActionKey_turn d" "bt_get (sim_states sim) d = Some st" "duty_runnable st (Simulation_now sim)"
    by (auto simp: ready_actions_def)
  then have "action_duty a \<in> set (sim_topology sim) \<and> bt_get (sim_stopped sim) (action_duty a) = None"
  proof cases
    case (1 tok r)
    then show ?thesis
      using dc(2) contains by (auto simp: events_deliverable_def ActionKey_delivery_def)
  next
    case (2 d st)
    have "d \<in> set (sim_topology sim)"
      using dc(1) 2(2) unfolding duties_consistent_def by blast
    moreover have "ds_next st \<noteq> Stop"
      using 2(3) by (auto simp: duty_runnable_def)
    then have "bt_get (sim_stopped sim) d = None"
      using dc(1) 2(2) unfolding duties_consistent_def by (metis option.inject)
    ultimately show ?thesis
      using 2(1) by (simp add: ActionKey_turn_def)
  qed
  then show "action_duty a \<in> set (sim_topology sim)" "bt_get (sim_stopped sim) (action_duty a) = None"
    by simp_all
qed

lemma simulation_core_cancel:
  assumes core: "simulation_core eb sim" and cancel: "Timeline_cancel (sim_timeline sim) tok = Ret (s, r)"
  shows "simulation_core eb (sim \<lparr> sim_timeline := s \<rparr>)"
    "Simulation_now (sim \<lparr> sim_timeline := s \<rparr>) = Simulation_now sim"
  using core timeline_inv_cancel [OF _ cancel]
  by (auto simp: simulation_core_def sim_parts Timeline_now_def)

lemma execute_selected_ok:
  assumes core: "simulation_core (mc_event_bytes mc) sim" and a: "key \<in> ready_actions sim"
  shows "part_ok (mc_event_bytes mc) sim (execute_selected mc sc nc sim key ident)"
proof (cases "action_kind key")
  case TurnAction
  then show ?thesis
    using ready_action_duty [OF core a]
    by (auto simp: execute_selected_def execute_turn_def Let_def intro!: execute_callback_ok [OF core])
next
  case (Delivery tok)
  have key: "key = ActionKey (action_duty key) (Delivery tok)"
    using Delivery by (cases key) simp
  then obtain r where r: "timeline_content (sim_timeline sim) tok = Some r" "routed_target r = action_duty key"
    using a by (auto simp: ready_actions_def ActionKey_delivery_def ActionKey_turn_def)
  have inv: "timeline_inv (sim_timeline sim)"
    using core by (simp add: simulation_core_def)
  obtain s where s: "Timeline_cancel (sim_timeline sim) tok = Ret (s, Some r)"
    using timeline_store.cancel_hit [of "sim_timeline sim" "tl_measure (sim_timeline sim)" tok r] inv r(1)
    by blast
  note core' = simulation_core_cancel [OF core s]
  let ?sim = "sim \<lparr> sim_timeline := s \<rparr>"
  let ?meta = "\<lparr> am_id = ident, am_key = key, am_at = Simulation_now ?sim, am_cause = routed_cause r \<rparr>"
  have "part_ok (mc_event_bytes mc) ?sim (execute_callback mc sc nc ?sim ?meta True
      (mc_deliver mc (sim_model sim) (action_duty key) \<lparr> delivery_token = tok, delivery_event = routed_event r \<rparr> ident))"
    using ready_action_duty [OF core a] by (intro execute_callback_ok [OF core'(1)]) simp_all
  then show ?thesis
    using Delivery s r(2) core'(2)
    by (simp add: execute_selected_def execute_delivery_def Let_def part_ok_def same_world_def)
qed

section \<open>Advancing time\<close>

lemma next_at_some:
  assumes inv: "timeline_inv s" and at: "Timeline_next_at s = Some at"
  shows "\<exists>tok r. timeline_content s tok = Some r \<and> event_at tok = at"
    and "timeline_content s x = Some y \<Longrightarrow> at \<le> event_at x"
proof -
  obtain i en where first: "bt_first (tl_events s) = Some ((at, i), en)"
    using at by (auto simp: Timeline_next_at_def)
  have least: "bt_get (tl_events s) (at, i) = Some en"
      "bt_get (tl_events s) k = Some w \<Longrightarrow> (at, i) \<le> k" for k w
    using bt_first_least [OF timeline_inv_bt [OF inv] first] by blast+
  have "timeline_content s (EventToken (tl_id s) i at) = Some (te_event en)"
    using least(1) by (simp add: timeline_content_def timeline_map_def)
  then show "\<exists>tok r. timeline_content s tok = Some r \<and> event_at tok = at"
    by (intro exI [of _ "EventToken (tl_id s) i at"]) simp
  assume "timeline_content s x = Some y"
  then obtain w where "bt_get (tl_events s) (event_at x, event_token_id x) = Some w"
    by (auto simp: timeline_content_def timeline_map_def split: if_splits)
  then have "(at, i) \<le> (event_at x, event_token_id x)"
    by (rule least(2))
  then show "at \<le> event_at x"
    by (auto simp: less_eq_prod_def)
qed

lemma next_at_none: "Timeline_next_at s = None \<longleftrightarrow> tl_events s = []"
  by (simp add: Timeline_next_at_def bt_first_None_iff)

lemma next_deadline_some:
  assumes ok: "bt_ok (sim_states sim)" and t: "next_deadline sim = Some t"
  shows "\<exists>d st. bt_get (sim_states sim) d = Some st \<and> ds_next st = WakeOr t"
    and "bt_get (sim_states sim) d = Some st \<Longrightarrow> ds_next st = WakeOr u \<Longrightarrow> t \<le> u"
proof -
  let ?f = "\<lambda>(_ :: duty_id, state). case ds_next state of
      WakeOr deadline \<Rightarrow> Some deadline | Now \<Rightarrow> None | Wake \<Rightarrow> None | Stop \<Rightarrow> None"
  have mem: "u \<in> set (List.map_filter ?f (sim_states sim)) \<longleftrightarrow>
      (\<exists>d st. bt_get (sim_states sim) d = Some st \<and> ds_next st = WakeOr u)" for u
    unfolding map_filter_mem_iff
    using btree.entries_lookup [OF ok] by (force split: next_run.splits)
  show "\<exists>d st. bt_get (sim_states sim) d = Some st \<and> ds_next st = WakeOr t"
    using iter_min_SomeD [OF t [unfolded next_deadline_def]] mem by blast
  show "bt_get (sim_states sim) d = Some st \<Longrightarrow> ds_next st = WakeOr u \<Longrightarrow> t \<le> u"
    using iter_min_SomeD [OF t [unfolded next_deadline_def]] mem by blast
qed

lemma earliest_cases:
  assumes "earliest a b = Some t"
  shows "a = Some t \<or> b = Some t" "a = Some x \<Longrightarrow> t \<le> x" "b = Some y \<Longrightarrow> t \<le> y"
  using assms by (cases a; cases b; auto simp: min_def split: if_splits)+

lemma event_not_past:
  "timeline_inv s \<Longrightarrow> timeline_content s tok = Some r \<Longrightarrow> Timeline_now s \<le> event_at tok"
  by (auto simp: timeline_content_def timeline_map_def dest: timeline_entry_facts(1) split: if_splits)

text \<open>With nothing ready, the next moment lies in the future, and at it something is ready.\<close>

lemma advance_makes_progress:
  assumes core: "simulation_core eb sim" and idle: "ready_actions sim = {}"
    and nxt: "earliest (Timeline_next_at (sim_timeline sim)) (next_deadline sim) = Some t"
  shows "Simulation_now sim < t"
    and "timeline_content (sim_timeline sim) x = Some y \<Longrightarrow> t \<le> event_at x"
    and "(\<exists>tok r. timeline_content (sim_timeline sim) tok = Some r \<and> event_at tok = t) \<or>
      (\<exists>d st. bt_get (sim_states sim) d = Some st \<and> ds_next st = WakeOr t)"
proof -
  let ?s = "sim_timeline sim"
  have inv: "timeline_inv ?s" and ok: "bt_ok (sim_states sim)"
    using core by (simp_all add: simulation_core_def duties_consistent_def)
  show "(\<exists>tok r. timeline_content ?s tok = Some r \<and> event_at tok = t) \<or>
      (\<exists>d st. bt_get (sim_states sim) d = Some st \<and> ds_next st = WakeOr t)"
    using earliest_cases(1) [OF nxt] next_at_some(1) [OF inv] next_deadline_some(1) [OF ok] by blast
  then show "Simulation_now sim < t"
  proof (elim disjE exE conjE)
    fix tok r assume tok: "timeline_content ?s tok = Some r" "event_at tok = t"
    then have "Simulation_now sim \<le> t" "t \<noteq> Simulation_now sim"
      using event_not_past [OF inv] idle by (auto simp: Simulation_now_def ready_actions_def)
    then show ?thesis
      by (simp add: order.strict_iff_order)
  next
    fix d st assume "bt_get (sim_states sim) d = Some st" "ds_next st = WakeOr t"
    then have "\<not> duty_runnable st (Simulation_now sim)"
      using idle by (auto simp: ready_actions_def)
    then show ?thesis
      using \<open>ds_next st = WakeOr t\<close> by (simp add: duty_runnable_def Deadline_is_elapsed_at_def not_le)
  qed
  assume x: "timeline_content ?s x = Some y"
  then have "tl_events ?s \<noteq> []"
    by (auto simp: timeline_content_def timeline_map_def bt_get_def split: if_splits)
  then obtain at where at: "Timeline_next_at ?s = Some at"
    using next_at_none [of ?s] by fastforce
  then show "t \<le> event_at x"
    using earliest_cases(2) [OF nxt at] next_at_some(2) [OF inv at x] by simp
qed

lemma Timeline_advance_to_ok:
  assumes inv: "timeline_inv s" and t: "Timeline_now s \<le> t"
    and later: "\<And>tok r. timeline_content s tok = Some r \<Longrightarrow> t \<le> event_at tok"
  shows "Timeline_advance_to s t = Ret (s \<lparr> tl_clock := \<lparr> vc_now = t \<rparr> \<rparr>)"
    and "timeline_inv (s \<lparr> tl_clock := \<lparr> vc_now = t \<rparr> \<rparr>)"
    and "timeline_content (s \<lparr> tl_clock := \<lparr> vc_now = t \<rparr> \<rparr>) = timeline_content s"
proof -
  have "\<not> t < vc_now (tl_clock s)"
    using t by (simp add: Timeline_now_def)
  then show "Timeline_advance_to s t = Ret (s \<lparr> tl_clock := \<lparr> vc_now = t \<rparr> \<rparr>)"
    by (simp add: Timeline_advance_to_def VirtualClock_advance_to_def)
  have "t \<le> at" if "((at, i), en) \<in> set (tl_events s)" for at i en
  proof -
    have "timeline_content s (EventToken (tl_id s) i at) = Some (te_event en)"
      using that btree.entries_lookup [OF timeline_inv_bt [OF inv], of "(at, i)" en]
      by (simp add: timeline_content_def timeline_map_def)
    then show ?thesis
      using later by fastforce
  qed
  then show "timeline_inv (s \<lparr> tl_clock := \<lparr> vc_now = t \<rparr> \<rparr>)"
    using inv by (auto simp: timeline_inv_def timeline_sizes_def Timeline_now_def)
  show "timeline_content (s \<lparr> tl_clock := \<lparr> vc_now = t \<rparr> \<rparr>) = timeline_content s"
    by (simp add: timeline_content_def timeline_map_def fun_eq_iff)
qed

lemma stopped_count:
  assumes dc: "duties_consistent sim"
  shows "length (sim_stopped sim) = length (sim_topology sim) \<longleftrightarrow> all_stopped sim"
proof -
  let ?keys = "fst ` set (sim_stopped sim)"
  have ok: "bt_ok (sim_stopped sim)" "distinct (sim_topology sim)"
    using dc by (auto simp: duties_consistent_def strict_sorted_iff)
  have key: "d \<in> ?keys \<longleftrightarrow> bt_get (sim_stopped sim) d \<noteq> None" for d
    using btree.entries_lookup [OF ok(1)] by force
  have card: "length (sim_stopped sim) = card ?keys" "length (sim_topology sim) = card (set (sim_topology sim))"
    using distinct_card [OF bt_ok_distinct [OF ok(1)]] distinct_card [OF ok(2)] by simp_all
  have dc': "bt_get (sim_states sim) d \<noteq> None \<longleftrightarrow> d \<in> set (sim_topology sim)"
      "bt_get (sim_stopped sim) d \<noteq> None \<longleftrightarrow>
        (\<exists>state. bt_get (sim_states sim) d = Some state \<and> ds_next state = Stop)" for d
    using dc unfolding duties_consistent_def by (meson, meson)
  have sub: "?keys \<subseteq> set (sim_topology sim)"
  proof
    fix d assume "d \<in> ?keys"
    then obtain st where "bt_get (sim_states sim) d = Some st"
      using key dc'(2) by blast
    then show "d \<in> set (sim_topology sim)"
      using dc'(1) [of d] by simp
  qed
  show ?thesis
  proof
    assume "length (sim_stopped sim) = length (sim_topology sim)"
    then have "?keys = set (sim_topology sim)"
      using card card_subset_eq [OF finite_set sub] by simp
    then show "all_stopped sim"
      using key by (auto simp: all_stopped_def)
  next
    assume "all_stopped sim"
    then have "?keys = set (sim_topology sim)"
      using key sub by (auto simp: all_stopped_def)
    then show "length (sim_stopped sim) = length (sim_topology sim)"
      using card by simp
  qed
qed

section \<open>One step\<close>

definition step_shape ::
  "('m, 'e, 's, 'n) simulation \<Rightarrow> ('m, 'e, 's, 'n) simulation \<Rightarrow>
   (('mx, 'nx, 'sx) step_error + 'o step) option \<Rightarrow> bool" where
  "step_shape sim sim' r \<longleftrightarrow>
     (\<forall>a. r = Some (Inr (StepAction a)) \<longrightarrow>
        unat (sim_actions sim') = unat (sim_actions sim) + 1 \<and>
        sim_actions sim < sl_total_actions (sim_limits sim) \<and>
        Simulation_now sim' = Simulation_now sim) \<and>
     (\<forall>a b. r = Some (Inr (TimeAdvanced a b)) \<longrightarrow>
        a = Simulation_now sim \<and> b = Simulation_now sim' \<and> a < b \<and>
        sim_actions sim' = sim_actions sim \<and> ready_actions sim = {} \<and> ready_actions sim' \<noteq> {}) \<and>
     (\<forall>x. r = Some (Inr (StepCompleted x)) \<longrightarrow> sim_phase sim' = Completed) \<and>
     (\<forall>x. r = Some (Inr (Quiescent x)) \<longrightarrow>
        sim_phase sim' = Active \<and> tl_events (sim_timeline sim') = [] \<and> ready_actions sim' = {} \<and>
        (\<forall>d st t. bt_get (sim_states sim') d = Some st \<longrightarrow> ds_next st \<noteq> WakeOr t) \<and> \<not> all_stopped sim')"

definition step_ok ::
  "('e \<Rightarrow> retained_bytes) \<Rightarrow> ('m, 'e, 's, 'n) simulation \<Rightarrow>
   (('m, 'e, 's, 'n) simulation \<times> (('mx, 'nx, 'sx) step_error + 'o step) option) run \<Rightarrow> bool" where
  "step_ok eb sim result \<longleftrightarrow> (\<exists>sim' r. result = Ret (sim', r) \<and> simulation_inv eb sim' \<and>
     sim_topology sim' = sim_topology sim \<and> sim_limits sim' = sim_limits sim \<and>
     Simulation_now sim \<le> Simulation_now sim' \<and> benign r \<and> step_shape sim sim' r)"

lemma ready_actions_cong:
  "sim_timeline b = sim_timeline a \<Longrightarrow> sim_states b = sim_states a \<Longrightarrow> ready_actions b = ready_actions a"
  by (simp add: ready_actions_def Simulation_now_def)

lemma step_ok_ready: "step_ok eb (sim \<lparr> sim_ready := ready \<rparr>) result \<longleftrightarrow> step_ok eb sim result"
  by (simp add: step_ok_def step_shape_def Simulation_now_def ready_actions_def)

text \<open>A step that only ends in an error or an unwinding.\<close>

lemma step_ok_stopped:
  assumes "simulation_core eb sim" "simulation_core eb sim'" "sim_phase sim' \<noteq> Completed"
    and "sim_topology sim' = sim_topology sim" "sim_limits sim' = sim_limits sim"
    and "Simulation_now sim' = Simulation_now sim" "benign r" "\<forall>x. r \<noteq> Some (Inr x)"
  shows "step_ok eb sim (Ret (sim', r))"
  using assms by (simp add: step_ok_def simulation_inv_def step_shape_def)

lemma no_pending_when_stopped:
  assumes core: "simulation_core eb sim" and stopped: "all_stopped sim"
  shows "tl_events (sim_timeline sim) = []"
proof (rule ccontr)
  let ?s = "sim_timeline sim"
  have inv: "timeline_inv ?s" and dc: "duties_consistent sim" "events_deliverable sim"
    using core by (simp_all add: simulation_core_def)
  assume "tl_events ?s \<noteq> []"
  then obtain at where "Timeline_next_at ?s = Some at"
    using next_at_none [of ?s] by fastforce
  then obtain tok r where "timeline_content ?s tok = Some r"
    using next_at_some(1) [OF inv] by blast
  then have "routed_target r \<in> set (sim_topology sim)" "bt_get (sim_stopped sim) (routed_target r) = None"
    using dc Topology_contains_iff [of "sim_topology sim"]
    by (auto simp: events_deliverable_def duties_consistent_def)
  then show False
    using stopped by (auto simp: all_stopped_def)
qed

lemma advance_or_finish_ok:
  fixes sc :: "('s, 'sx) scheduler_code" and sim :: "('m, 'e, 's, 'n) simulation"
  assumes core: "simulation_core eb sim" and idle: "ready_actions sim = {}" and phase: "sim_phase sim = Active"
  shows "step_ok eb sim (advance_or_finish sc sim ::
    (('m, 'e, 's, 'n) simulation \<times> (('mx, 'nx, 'sx) step_error + 'o step) option) run)"
proof (cases "all_stopped sim")
  case True
  note none = no_pending_when_stopped [OF core True]
  have dc: "duties_consistent sim"
    using core by (simp add: simulation_core_def)
  then have len: "length (sim_stopped sim) = length (sim_topology sim)"
    using stopped_count True by blast
  obtain s' f where fin: "sc_finished sc (sim_scheduler sim) = (s', f)"
    by fastforce
  have eq: "Timeline_pending (sim_timeline sim) = []"
    by (simp add: Timeline_pending_def none)
  show ?thesis
  proof (cases f)
    case None
    then show ?thesis
      using len fin eq core phase
      by (simp add: advance_or_finish_def) (rule step_ok_stopped, simp_all)
  next
    case (Some res)
    show ?thesis
    proof (cases res)
      case (Inl e)
      then show ?thesis
        using Some len fin eq core phase
        by (simp add: advance_or_finish_def Simulation_fail_def)
          (rule step_ok_stopped, simp_all add: benign_def)
    next
      case (Inr u)
      then show ?thesis
        using Some len fin eq core none True
        by (simp add: advance_or_finish_def step_ok_def simulation_inv_def step_shape_def
            all_stopped_def Let_def)
    qed
  qed
next
  case False
  have inv: "timeline_inv (sim_timeline sim)" and dc: "duties_consistent sim"
    using core by (simp_all add: simulation_core_def)
  have len: "length (sim_stopped sim) \<noteq> length (sim_topology sim)"
    using stopped_count [OF dc] False by blast
  show ?thesis
  proof (cases "earliest (Timeline_next_at (sim_timeline sim)) (next_deadline sim)")
    case None
    then have none: "Timeline_next_at (sim_timeline sim) = None" "next_deadline sim = None"
      by (cases "Timeline_next_at (sim_timeline sim)"; cases "next_deadline sim"; simp)+
    have "ds_next st \<noteq> WakeOr t" if "bt_get (sim_states sim) d = Some st" for d st t
    proof
      assume "ds_next st = WakeOr t"
      moreover have "(d, st) \<in> set (sim_states sim)"
        using that dc btree.entries_lookup [of "sim_states sim" d st] by (simp add: duties_consistent_def)
      ultimately have "t \<in> set (List.map_filter (\<lambda>(_ :: duty_id, state). case ds_next state of
         WakeOr deadline \<Rightarrow> Some deadline | Now \<Rightarrow> None | Wake \<Rightarrow> None | Stop \<Rightarrow> None) (sim_states sim))"
        unfolding map_filter_mem_iff by force
      then show False
        using none(2) unfolding next_deadline_def iter_min_None_iff by simp
    qed
    then show ?thesis
      using None none(1) [unfolded next_at_none] len core phase idle False
      by (simp add: advance_or_finish_def step_ok_def simulation_inv_def step_shape_def)
  next
    case (Some t)
    note progress = advance_makes_progress [OF core idle Some]
    have future: "\<not> t \<le> Simulation_now sim"
      using progress(1) by (simp only: not_le)
    show ?thesis
    proof (cases "sl_max_virtual_time (sim_limits sim) < t")
      case True
      show ?thesis
        using True Some len future core
        by (simp add: advance_or_finish_def Simulation_fail_def Let_def)
          (rule step_ok_stopped, simp_all add: benign_def)
    next
      case fits: False
      let ?s = "sim_timeline sim \<lparr> tl_clock := \<lparr> vc_now = t \<rparr> \<rparr>"
      let ?sim = "sim \<lparr> sim_timeline := ?s, sim_actions_at_moment := 0 \<rparr>"
      have le: "Timeline_now (sim_timeline sim) \<le> t"
        using progress(1) by (simp add: Simulation_now_def)
      note adv = Timeline_advance_to_ok [OF inv le progress(2)]
      have now: "Simulation_now ?sim = t"
        by (simp add: Simulation_now_def Timeline_now_def)
      have "simulation_core eb ?sim"
        using core adv(2,3) fits now
        by (simp add: simulation_core_def events_deliverable_def duties_consistent_def counters_within_def not_less)
      moreover have "ready_actions ?sim \<noteq> {}"
        using progress(3)
      proof (elim disjE exE conjE)
        fix tok r assume "timeline_content (sim_timeline sim) tok = Some r" "event_at tok = t"
        then have "ActionKey_delivery (routed_target r) tok \<in> ready_actions ?sim"
          unfolding ready_actions_def now using adv(3) by auto
        then show ?thesis
          by blast
      next
        fix d st assume "bt_get (sim_states sim) d = Some st" "ds_next st = WakeOr t"
        then have "ActionKey_turn d \<in> ready_actions ?sim"
          unfolding ready_actions_def now by (auto simp: duty_runnable_def Deadline_is_elapsed_at_def)
        then show ?thesis
          by blast
      qed
      moreover have "advance_or_finish sc sim =
          (Ret (?sim, Some (Inr (TimeAdvanced (Simulation_now sim) t))) ::
            (('m, 'e, 's, 'n) simulation \<times> (('mx, 'nx, 'sx) step_error + 'o step) option) run)"
        using Some len future fits adv(1) by (simp add: advance_or_finish_def Let_def)
      moreover have "sim_phase ?sim = Active" "sim_topology ?sim = sim_topology sim"
          "sim_limits ?sim = sim_limits sim" "sim_actions ?sim = sim_actions sim"
        using phase by simp_all
      ultimately show ?thesis
        unfolding step_ok_def simulation_inv_def step_shape_def
        using progress(1) less_imp_le [OF progress(1)] idle now
        by (intro exI [of _ ?sim] exI [of _ "Some (Inr (TimeAdvanced (Simulation_now sim) t))"]) simp
    qed
  qed
qed

lemma counter_below:
  assumes "x < (y :: 'a::len word)"
  shows "unat (x + 1) = unat x + 1" "checked_add x 1 = Some (x + 1)"
proof -
  have "unat x + 1 < 2 ^ LENGTH('a)"
    using order.strict_trans1 [OF _ unat_less_exp [of y], of "unat x + 1"] assms
    by (simp add: word_less_nat_alt Suc_leI)
  moreover have "unat (1 :: 'a word) = 1"
    by simp
  ultimately show "unat (x + 1) = unat x + 1" "checked_add x 1 = Some (x + 1)"
    by (simp_all add: checked_add_def unat_word_ariths)
qed

lemma counted_core:
  assumes core: "simulation_core eb sim" and limits: "enforce_action_limits sim = None"
    and ident: "sim_next_action sim = Some ident"
  shows "simulation_core eb (sim \<lparr> sim_scheduler := s, sim_next_action := checked_add ident 1,
      sim_actions := sim_actions sim + 1, sim_actions_at_moment := sim_actions_at_moment sim + 1 \<rparr>)"
    and "sim_actions sim < sl_total_actions (sim_limits sim)" "ident = sim_actions sim"
proof -
  have room: "sim_actions sim < sl_total_actions (sim_limits sim)"
      "sim_actions_at_moment sim < sl_actions_per_moment (sim_limits sim)"
    using limits by (auto simp: enforce_action_limits_def not_le split: if_splits)
  show ident_eq: "ident = sim_actions sim"
    using core ident by (simp add: simulation_core_def counters_within_def)
  show "simulation_core eb (sim \<lparr> sim_scheduler := s, sim_next_action := checked_add ident 1,
      sim_actions := sim_actions sim + 1, sim_actions_at_moment := sim_actions_at_moment sim + 1 \<rparr>)"
    using core room counter_below(2) [OF room(1)]
    by (simp add: simulation_core_def sim_parts word_increment_le ident_eq)
  show "sim_actions sim < sl_total_actions (sim_limits sim)"
    by (rule room)
qed

lemma select_and_execute_ok:
  fixes mc :: "('m, 'e, 'o, 'mx) model_code" and sc :: "('s, 'sx) scheduler_code"
    and nc :: "('n, 'm, 'o, 'nx) monitor_code"
  assumes core: "simulation_core (mc_event_bytes mc) sim" and phase: "sim_phase sim = Active"
    and ready: "sorted (sim_ready sim)" "set (sim_ready sim) = ready_actions sim"
    and limits: "enforce_action_limits sim = None"
  shows "step_ok (mc_event_bytes mc) sim (select_and_execute mc sc nc sim)"
proof -
  obtain s1 c where choose: "sc_choose sc (sim_scheduler sim) (Simulation_now sim) (sim_ready sim) = (s1, c)"
    by fastforce
  let ?sim1 = "sim \<lparr> sim_scheduler := s1 \<rparr>"
  have ident: "sim_next_action sim = Some (sim_actions sim)"
    using core by (simp add: simulation_core_def counters_within_def)
  note counted = counted_core [OF core limits ident]
  have failing: ?thesis
    if "select_and_execute mc sc nc sim = Ret (?sim1 \<lparr> sim_phase := Failed \<rparr>, Some (Inl e))"
      "benign (Some (Inl e :: ('mx, 'nx, 'sx) step_error + 'o step))" for e
    unfolding that(1) using core that(2) by (intro step_ok_stopped) simp_all
  show ?thesis
  proof (cases c)
    case None
    then have eq: "select_and_execute mc sc nc sim = Ret (?sim1 \<lparr> sim_poisoned := True \<rparr>, None)"
      using choose by (simp add: select_and_execute_def)
    show ?thesis
      unfolding eq using core phase by (intro step_ok_stopped) simp_all
  next
    case (Some res)
    show ?thesis
    proof (cases res)
      case (Inl e)
      then show ?thesis
        using Some choose by (intro failing [of "SchedulerError e"])
          (simp_all add: select_and_execute_def Simulation_fail_def benign_def)
    next
      case (Inr key)
      show ?thesis
      proof (cases "key \<in> ready_actions sim")
        case False
        then have "\<not> ReadySet_contains (sim_ready sim) key"
          using ready by (simp add: ReadySet_contains_iff)
        then show ?thesis
          using Some Inr choose by (intro failing [of "InvalidSelection key"])
            (simp_all add: select_and_execute_def Simulation_fail_def benign_def)
      next
        case True
        let ?sim2 = "?sim1 \<lparr> sim_next_action := checked_add (sim_actions sim) 1,
          sim_actions := sim_actions sim + 1, sim_actions_at_moment := sim_actions_at_moment sim + 1 \<rparr>"
        have contains: "ReadySet_contains (sim_ready sim) key"
          using ready True by (simp add: ReadySet_contains_iff)
        have core2: "simulation_core (mc_event_bytes mc) ?sim2"
          using counted(1) by simp
        have key: "key \<in> ready_actions ?sim2"
          using True by (simp add: ready_actions_def)
        from execute_selected_ok [OF core2 key, of sc nc "sim_actions sim"]
        obtain sim3 and r :: "(('mx, 'nx, 'sx) step_error + 'o action_record) option" where
          exec: "execute_selected mc sc nc ?sim2 key (sim_actions sim) = Ret (sim3, r)"
            "simulation_core (mc_event_bytes mc) sim3" "same_world ?sim2 sim3" "benign r"
            "sim_phase sim3 = Active \<or> sim_phase sim3 = Failed"
          using phase by (auto simp: part_ok_def)
        have eq: "select_and_execute mc sc nc sim = Ret (sim3, map_option (map_sum id StepAction) r)"
          using Some Inr choose contains ident exec(1)
          by (simp add: select_and_execute_def Let_def)
        have "unat (sim_actions sim3) = unat (sim_actions sim) + 1" "Simulation_now sim3 = Simulation_now sim"
            "sim_topology sim3 = sim_topology sim" "sim_limits sim3 = sim_limits sim"
          using exec(3) counter_below(1) [OF counted(2)] by (simp_all add: same_world_def)
        moreover have "benign (map_option (map_sum id StepAction) r ::
            (('mx, 'nx, 'sx) step_error + 'o step) option)"
          using exec(4) unfolding benign_def by (cases r; auto split: sum.splits) (case_tac a; auto)+
        moreover have "step_shape sim sim3 (map_option (map_sum id StepAction) r ::
            (('mx, 'nx, 'sx) step_error + 'o step) option)"
          using calculation(1,2) counted(2) unfolding step_shape_def
          by (cases r; auto) (case_tac a; auto)+
        moreover have "simulation_inv (mc_event_bytes mc) sim3"
          using exec(2,5) by (auto simp: simulation_inv_def)
        ultimately show ?thesis
          unfolding eq step_ok_def by auto
      qed
    qed
  qed
qed

lemma Simulation_step_ok:
  fixes mc :: "('m, 'e, 'o, 'mx) model_code" and sc :: "('s, 'sx) scheduler_code"
    and nc :: "('n, 'm, 'o, 'nx) monitor_code"
  assumes inv: "simulation_inv (mc_event_bytes mc) sim"
  shows "step_ok (mc_event_bytes mc) sim (Simulation_step mc sc nc sim)"
proof (cases "sim_poisoned sim \<or> sim_phase sim \<noteq> Active")
  case True
  then show ?thesis
    using inv by (auto simp: Simulation_step_def step_ok_def step_shape_def benign_def)
next
  case False
  then have live: "\<not> sim_poisoned sim" "sim_phase sim = Active"
    by simp_all
  have core: "simulation_core (mc_event_bytes mc) sim"
    using inv by (simp add: simulation_inv_def)
  obtain ready where ready: "build_ready sim = Ret (Inr ready)" "sorted ready" "set ready = ready_actions sim"
    using build_ready_ok [OF core] by blast
  let ?sim = "sim \<lparr> sim_ready := ready \<rparr>"
  have same: "ready_actions ?sim = ready_actions sim"
    by (simp add: ready_actions_def)
  have "step_ok (mc_event_bytes mc) ?sim (Simulation_step mc sc nc sim)"
  proof (cases "ready = []")
    case True
    then have "Simulation_step mc sc nc sim = advance_or_finish sc ?sim"
      using live ready(1) by (simp add: Simulation_step_def Let_def)
    then show ?thesis
      using advance_or_finish_ok [of "mc_event_bytes mc" ?sim sc] core live same ready(3) True by simp
  next
    case busy: False
    show ?thesis
    proof (cases "enforce_action_limits ?sim")
      case None
      then have "Simulation_step mc sc nc sim = select_and_execute mc sc nc ?sim"
        using live ready(1) busy by (simp add: Simulation_step_def Let_def)
      then show ?thesis
        using select_and_execute_ok [of mc ?sim sc nc] core live same ready None by simp
    next
      case (Some failure)
      then have eq: "Simulation_step mc sc nc sim =
          Ret (?sim \<lparr> sim_phase := Failed \<rparr>, Some (Inl (LimitError failure)))"
        using live ready(1) busy by (simp add: Simulation_step_def Simulation_fail_def Let_def)
      show ?thesis
        unfolding eq using core by (intro step_ok_stopped) (simp_all add: benign_def)
    qed
  qed
  then show ?thesis
    by (simp add: step_ok_ready)
qed

section \<open>Runs return\<close>

text \<open>
  Each action uses up a unit of the total, and a time advance makes something ready, so no two
  follow each other.
\<close>

definition run_fuel :: "('m, 'e, 's, 'n) simulation \<Rightarrow> nat" where
  "run_fuel sim = 2 * (unat (sl_total_actions (sim_limits sim)) - unat (sim_actions sim)) +
     (if ready_actions sim = {} then 1 else 0)"

lemma run_fuel_decreases:
  assumes "step_shape sim sim' r" "sim_limits sim' = sim_limits sim" "step_continues r"
  shows "run_fuel sim' < run_fuel sim"
proof -
  from assms(3) consider a where "r = Some (Inr (StepAction a))" | a b where "r = Some (Inr (TimeAdvanced a b))"
    by (auto simp: step_continues_def split: option.splits sum.splits step.splits)
  then show ?thesis
  proof cases
    case 1
    then have "unat (sim_actions sim') = unat (sim_actions sim) + 1"
        "unat (sim_actions sim) < unat (sl_total_actions (sim_limits sim))"
      using assms(1) by (simp_all add: step_shape_def word_less_nat_alt)
    then have "unat (sl_total_actions (sim_limits sim)) - unat (sim_actions sim) =
        Suc (unat (sl_total_actions (sim_limits sim)) - unat (sim_actions sim'))"
      by simp
    then show ?thesis
      using assms(2) by (simp add: run_fuel_def)
  next
    case 2
    then show ?thesis
      using assms(1,2) by (simp add: step_shape_def run_fuel_def)
  qed
qed

text \<open>The run, step by step, and what holds at its end.\<close>

definition run_ends_well ::
  "('m, 'e, 's, 'n) simulation \<Rightarrow>
   (('m, 'e, 's, 'n) simulation \<times> (('mx, 'nx, 'sx) step_error + run_report) option) run \<Rightarrow> bool" where
  "run_ends_well sim result \<longleftrightarrow> (\<exists>sim' r. result = Ret (sim', r) \<and>
     sim_topology sim' = sim_topology sim \<and> sim_limits sim' = sim_limits sim \<and>
     Simulation_now sim \<le> Simulation_now sim' \<and>
     (\<forall>report. r = Some (Inr report) \<longrightarrow> tl_events (sim_timeline sim') = [] \<and>
        (if rr_end report = RunCompleted then sim_phase sim' = Completed \<and> all_stopped sim'
         else sim_phase sim' = Active \<and> \<not> all_stopped sim' \<and> ready_actions sim' = {} \<and>
           (\<forall>d st. bt_get (sim_states sim') d = Some st \<longrightarrow> ds_next st = Wake \<or> ds_next st = Stop))))"

lemma step_end_facts:
  assumes inv: "simulation_inv eb sim'" and shape: "step_shape sim sim' r"
  shows "r = Some (Inr (StepCompleted x)) \<Longrightarrow>
      sim_phase sim' = Completed \<and> all_stopped sim' \<and> tl_events (sim_timeline sim') = []"
    and "r = Some (Inr (Quiescent x)) \<Longrightarrow>
      sim_phase sim' = Active \<and> tl_events (sim_timeline sim') = [] \<and> ready_actions sim' = {} \<and>
      \<not> all_stopped sim' \<and>
      (\<forall>d st. bt_get (sim_states sim') d = Some st \<longrightarrow> ds_next st = Wake \<or> ds_next st = Stop)"
proof -
  show "r = Some (Inr (StepCompleted x)) \<Longrightarrow>
      sim_phase sim' = Completed \<and> all_stopped sim' \<and> tl_events (sim_timeline sim') = []"
    using inv shape by (simp add: simulation_inv_def step_shape_def)
  assume "r = Some (Inr (Quiescent x))"
  then have q: "sim_phase sim' = Active \<and> tl_events (sim_timeline sim') = [] \<and> ready_actions sim' = {} \<and>
      (\<forall>d st t. bt_get (sim_states sim') d = Some st \<longrightarrow> ds_next st \<noteq> WakeOr t) \<and> \<not> all_stopped sim'"
    using shape by (simp add: step_shape_def)
  have "ds_next st = Wake \<or> ds_next st = Stop" if st: "bt_get (sim_states sim') d = Some st" for d st
  proof (cases "ds_next st")
    case Now
    then have "ActionKey_turn d \<in> ready_actions sim'"
      using st by (auto simp: ready_actions_def duty_runnable_def)
    then show ?thesis
      using q by simp
  qed (use q st in auto)
  then show "sim_phase sim' = Active \<and> tl_events (sim_timeline sim') = [] \<and> ready_actions sim' = {} \<and>
      \<not> all_stopped sim' \<and>
      (\<forall>d st. bt_get (sim_states sim') d = Some st \<longrightarrow> ds_next st = Wake \<or> ds_next st = Stop)"
    using q by simp
qed

lemma run_to_quiescence_returns:
  fixes mc :: "('m, 'e, 'o, 'mx) model_code" and sc :: "('s, 'sx) scheduler_code"
    and nc :: "('n, 'm, 'o, 'nx) monitor_code"
  assumes "simulation_inv (mc_event_bytes mc) sim"
  shows "\<exists>result. run_to_quiescence mc sc nc sim = Some result \<and> run_ends_well sim result \<and>
    (\<exists>sim' r. result = Ret (sim', r) \<and> simulation_inv (mc_event_bytes mc) sim')"
  using assms
proof (induction "run_fuel sim" arbitrary: sim rule: less_induct)
  case less
  from Simulation_step_ok [OF less.prems, of sc nc]
  obtain sim1 and r :: "(('mx, 'nx, 'sx) step_error + 'o step) option" where
    step: "Simulation_step mc sc nc sim = Ret (sim1, r)" "simulation_inv (mc_event_bytes mc) sim1"
      "sim_topology sim1 = sim_topology sim" "sim_limits sim1 = sim_limits sim"
      "Simulation_now sim \<le> Simulation_now sim1" "step_shape sim sim1 r"
    by (auto simp: step_ok_def)
  show ?case
  proof (cases "step_continues r")
    case True
    from less.hyps [OF run_fuel_decreases [OF step(6,4) True] step(2)]
    obtain result where "run_to_quiescence mc sc nc sim1 = Some result" "run_ends_well sim1 result"
        "\<exists>sim' r. result = Ret (sim', r) \<and> simulation_inv (mc_event_bytes mc) sim'"
      by blast
    then show ?thesis
      using True step by (subst run_to_quiescence.simps) (force simp: run_ends_well_def Let_def)
  next
    case False
    then have eq: "run_to_quiescence mc sc nc sim = Some (Ret (sim1, run_outcome r))"
      using step(1) by (subst run_to_quiescence.simps) simp
    have "run_ends_well sim (Ret (sim1, run_outcome r))"
      using step(2-5) step_end_facts [OF step(2,6)] False
      by (auto simp: run_ends_well_def run_outcome_def step_continues_def
          split: option.splits sum.splits step.splits)
    then show ?thesis
      using eq step(2) by blast
  qed
qed

section \<open>A fresh simulation\<close>

lemma adjacent_duplicate_none:
  "sorted xs \<Longrightarrow> adjacent_duplicate xs = None \<Longrightarrow> sorted_wrt (<) xs"
proof (induction xs rule: adjacent_duplicate.induct)
  case (1 x y xs)
  then have "x < y" "sorted_wrt (<) (y # xs)"
    by (auto split: if_splits)
  then show ?case
    by (auto intro: order.strict_trans)
qed simp_all

lemma Topology_new_sorted: "Topology_new ds = Inr topo \<Longrightarrow> sorted_wrt (<) topo"
  using adjacent_duplicate_none [of "sort ds"]
  by (auto simp: Topology_new_def Let_def split: if_splits option.splits)

lemma fold_initial_states:
  fixes ds :: "duty_id list" and m :: "(duty_id, duty_state) btree"
  assumes "bt_ok m"
  shows "bt_ok (foldl (\<lambda>m d. bt_insert d DutyState_initial m) m ds) \<and>
    bt_get (foldl (\<lambda>m d. bt_insert d DutyState_initial m) m ds) x =
      (if x \<in> set ds then Some DutyState_initial else bt_get m x)"
  using assms
proof (induction ds arbitrary: m)
  case (Cons d ds)
  then show ?case
    using Cons.IH [of "bt_insert d DutyState_initial m"] bt_ok_insert [of m d DutyState_initial]
    by (auto simp: bt_get_insert)
qed simp

definition build_refused :: "simulation_limits \<Rightarrow> moment \<Rightarrow> topology \<Rightarrow> bool" where
  "build_refused limits now topo \<longleftrightarrow>
     unat (sl_max_duties limits) < length topo \<or> sl_max_virtual_time limits < now \<or>
     2 ^ 64 \<le> length topo + unat (tml_pending_events (sl_timeline limits))"

lemma Simulation_with_parts_ok:
  assumes "sorted_wrt (<) topo" "\<not> build_refused limits now topo"
  shows "\<exists>sim. Simulation_with_parts eb ident now m topo limits s n = Inr sim \<and> simulation_inv eb sim \<and>
    Simulation_now sim = now \<and> sim_topology sim = topo \<and> sim_phase sim = Active \<and>
    timeline_content (sim_timeline sim) = Map.empty \<and> sim_stopped sim = [] \<and>
    ready_actions sim = ActionKey_turn ` set topo"
proof -
  let ?states = "foldl (\<lambda>m duty. bt_insert duty DutyState_initial m) [] topo"
  have within: "length topo \<le> unat (sl_max_duties limits)" "now \<le> sl_max_virtual_time limits"
      "length topo + unat (tml_pending_events (sl_timeline limits)) < 2 ^ 64"
    using assms(2) by (auto simp: build_refused_def not_less not_le)
  obtain sim where sim: "Simulation_with_parts eb ident now m topo limits s n = Inr sim"
      "sim_topology sim = topo" "sim_states sim = ?states" "sim_stopped sim = []" "sim_limits sim = limits"
      "sim_phase sim = Active" "sim_actions sim = 0" "sim_actions_at_moment sim = 0"
      "sim_next_action sim = Some 0"
      "sim_timeline sim = Timeline_at_with_measure ident now (sl_timeline limits) (Routed_retained_bytes eb)"
    using within by (simp add: Simulation_with_parts_def Let_def not_less [symmetric])
  have states: "bt_ok ?states" "bt_get ?states x = (if x \<in> set topo then Some DutyState_initial else None)" for x
    using fold_initial_states [of "[]" topo x] by (simp_all add: bt_get_def)
  have empty: "timeline_content (sim_timeline sim) = Map.empty"
    by (simp add: sim timeline_content_def timeline_map_def Timeline_at_with_measure_def fun_eq_iff bt_get_def)
  have now: "Simulation_now sim = now"
    by (simp add: sim Simulation_now_def Timeline_now_def Timeline_at_with_measure_def VirtualClock_at_def)
  have "duties_consistent sim"
    using assms(1) states by (simp add: duties_consistent_def sim DutyState_initial_def bt_get_def)
  then have "simulation_inv eb sim"
    using within empty now timeline_inv_at [of ident now "sl_timeline limits" "Routed_retained_bytes eb"]
    by (simp add: simulation_inv_def simulation_core_def events_deliverable_def counters_within_def sim
        Timeline_at_with_measure_def)
  moreover have "ready_actions sim = ActionKey_turn ` set topo"
    unfolding ready_actions_def empty sim(3) states(2)
    by (auto simp: DutyState_initial_def duty_runnable_def split: if_splits)
  ultimately show ?thesis
    using sim empty now by simp
qed

text \<open>At the origin the clock's limit never refuses; what was put in comes out.\<close>

lemma build_refused_origin:
  "build_refused limits 0 topo \<longleftrightarrow>
     unat (sl_max_duties limits) < length topo \<or> 2 ^ 64 \<le> length topo + unat (tml_pending_events (sl_timeline limits))"
  by (simp add: build_refused_def)

lemma Simulation_new_ok:
  assumes "sorted_wrt (<) topo" "length topo \<le> unat n" "length topo + unat (tml_pending_events timeline) < 2 ^ 64"
  shows "\<exists>sim. Simulation_new eb ident m topo (SimulationLimits_with_max_duties (SimulationLimits_new timeline) n) = Inr sim \<and>
    simulation_inv eb sim \<and> Simulation_now sim = 0 \<and> Simulation_into_components sim = (m, topo, (), ())"
proof -
  let ?limits = "SimulationLimits_with_max_duties (SimulationLimits_new timeline) n"
  have "\<not> build_refused ?limits 0 topo"
    using assms by (simp add: build_refused_origin SimulationLimits_with_max_duties_def SimulationLimits_new_def)
  from Simulation_with_parts_ok [OF assms(1) this, of eb ident m "()" "()"]
  obtain sim where sim: "Simulation_with_parts eb ident 0 m topo ?limits () () = Inr sim"
    "simulation_inv eb sim" "Simulation_now sim = 0"
    by blast
  moreover have "Simulation_into_components sim = (m, topo, (), ())"
    using sim(1) by (auto simp: Simulation_with_parts_def Simulation_into_components_def Let_def split: if_splits)
  ultimately show ?thesis
    by (auto simp: Simulation_new_def)
qed

section \<open>A small simulation\<close>

definition simulation_limits_demo :: simulation_limits where
  "simulation_limits_demo = SimulationLimits_new \<lparr> tml_pending_events = 8, tml_retained_bytes = 100 \<rparr>"

definition simulation_demo :: "(unit, nat, unit, unit) simulation" where
  "simulation_demo = (case Simulation_with_parts of_nat 1 0 () [3, 5] simulation_limits_demo () () of
     Inr sim \<Rightarrow> sim)"

lemma Topology_demo: "Topology_new [5, 3] = Inr [3, 5]"
  by (simp add: Topology_new_def Let_def)

lemma build_demo: "\<not> build_refused simulation_limits_demo 0 [3, 5]"
  by (simp add: build_refused_def simulation_limits_demo_def SimulationLimits_new_def)

lemma simulation_demo_inv: "simulation_inv of_nat simulation_demo"
  and simulation_demo_ready: "ready_actions simulation_demo = {ActionKey_turn 3, ActionKey_turn 5}"
proof -
  obtain sim :: "(unit, nat, unit, unit) simulation" where
    "Simulation_with_parts of_nat 1 0 () [3, 5] simulation_limits_demo () () = Inr sim"
    "simulation_inv of_nat sim" "ready_actions sim = ActionKey_turn ` set [3, 5]"
    using Simulation_with_parts_ok [OF Topology_new_sorted [OF Topology_demo] build_demo,
      where eb = of_nat and ident = 1 and m = "()" and s = "()" and n = "()"] by blast
  then show "simulation_inv of_nat simulation_demo"
      "ready_actions simulation_demo = {ActionKey_turn 3, ActionKey_turn 5}"
    by (simp_all add: simulation_demo_def)
qed

text \<open>
  C36. Construction is exact. It fails precisely when the duties, the initial moment or the ready
  set's capacity exceed the limits, and then gives every part back; otherwise the simulation
  satisfies the invariant, stands at the given moment with no event pending, no duty stopped, and
  every duty is ready to take its first turn.
\<close>

theorem simulation_build_exact:
  assumes "Topology_new ds = Inr topo"
  shows "case Simulation_with_parts eb ident now m topo limits s n of
      Inl (f, m', topo', s', n') \<Rightarrow> m' = m \<and> topo' = topo \<and> s' = s \<and> n' = n \<and>
        (unat (sl_max_duties limits) < length topo \<or> sl_max_virtual_time limits < now \<or>
         2 ^ 64 \<le> length topo + unat (tml_pending_events (sl_timeline limits)))
    | Inr sim \<Rightarrow> \<not> build_refused limits now topo \<and> simulation_inv eb sim \<and>
        Simulation_now sim = now \<and> sim_topology sim = topo \<and> sim_phase sim = Active \<and>
        timeline_content (sim_timeline sim) = Map.empty \<and> sim_stopped sim = [] \<and>
        ready_actions sim = ActionKey_turn ` set topo"
proof (cases "build_refused limits now topo")
  case True
  then show ?thesis
    by (auto simp: Simulation_with_parts_def build_refused_def Let_def)
next
  case False
  show ?thesis
    using Simulation_with_parts_ok [OF Topology_new_sorted [OF assms] False, of eb ident m s n] False by auto
qed

theorem simulation_build_exact_witness:
  "case Simulation_with_parts of_nat 1 0 () [3, 5] simulation_limits_demo () () of
     Inl _ \<Rightarrow> build_refused simulation_limits_demo 0 [3, 5]
   | Inr sim \<Rightarrow> simulation_inv of_nat sim \<and> ready_actions sim = {ActionKey_turn 3, ActionKey_turn 5}"
  using simulation_build_exact [OF Topology_demo, where eb = of_nat and ident = 1 and now = 0 and m = "()"
      and limits = simulation_limits_demo and s = "()" and n = "()"]
  by (auto simp: build_refused_def split: sum.splits)

end
