(* ===== verification/Simulation_Laws.thy ===== *)
theory Simulation_Laws
  imports Simulation
begin

text \<open>
  What the simulation promises its users: injections are admitted exactly, a step keeps the
  invariant and can fail in one way only, an action that fails publishes nothing, and runs return.
  Contexts and steps are in the theories \<open>Context\<close> and \<open>Simulation\<close>; the proofs here assemble
  their lemmas.
\<close>

section \<open>Injection\<close>

definition injection_allowed :: "('m, 'e, 's, 'n) simulation \<Rightarrow> duty_id \<Rightarrow> moment \<Rightarrow> 'e \<Rightarrow> bool" where
  "injection_allowed sim target at e \<longleftrightarrow>
     \<not> sim_poisoned sim \<and> sim_phase sim = Active \<and> target \<in> set (sim_topology sim) \<and>
     bt_get (sim_stopped sim) target = None \<and> at \<le> sl_max_virtual_time (sim_limits sim) \<and>
     Simulation_now sim \<le> at \<and> timeline_admits (sim_timeline sim) (Routed_new target None e)"

lemma topology_contains_duty:
  assumes "simulation_inv eb sim"
  shows "Topology_contains (sim_topology sim) d \<longleftrightarrow> d \<in> set (sim_topology sim)"
  using assms by (intro Topology_contains_iff)
    (simp add: simulation_inv_def simulation_core_def duties_consistent_def)

lemma Routed_new_parts [simp]:
  "routed_target (Routed_new d c e) = d" "routed_event (Routed_new d c e) = e" "routed_cause (Routed_new d c e) = c"
  by (simp_all add: Routed_new_def)

lemma inject_refused:
  assumes inv: "simulation_inv eb sim" and refused: "\<not> injection_allowed sim target at e"
  shows "\<exists>f. Simulation_inject_at sim target at e = Ret (sim, Inl \<lparr> ie_event = e, ie_failure = f \<rparr>)"
proof -
  let ?s = "sim_timeline sim"
  have tinv: "timeline_inv ?s"
    using inv by (simp add: simulation_inv_def simulation_core_def)
  consider "at < Simulation_now sim" | "Simulation_now sim \<le> at" "\<not> timeline_admits ?s (Routed_new target None e)"
    | "sim_poisoned sim \<or> sim_phase sim \<noteq> Active \<or> target \<notin> set (sim_topology sim) \<or>
        bt_get (sim_stopped sim) target \<noteq> None \<or> sl_max_virtual_time (sim_limits sim) < at"
    using refused by (fastforce simp: injection_allowed_def not_le)
  then have "(\<exists>f. Timeline_schedule_at ?s at (Routed_new target None e) =
        Ret (?s, Inl \<lparr> se_event = Routed_new target None e, se_failure = f \<rparr>)) \<or>
      (sim_poisoned sim \<or> sim_phase sim \<noteq> Active \<or> target \<notin> set (sim_topology sim) \<or>
        bt_get (sim_stopped sim) target \<noteq> None \<or> sl_max_virtual_time (sim_limits sim) < at)"
  proof cases
    case 1
    then show ?thesis
      by (simp add: Timeline_schedule_at_def Simulation_now_def)
  next
    case 2
    then show ?thesis
      using timeline_schedule_rejected [OF tinv 2(2), of at]
      by (simp add: Timeline_schedule_at_eq Simulation_now_def)
  qed simp
  then show ?thesis
    by (auto simp: Simulation_inject_at_def topology_contains_duty [OF inv] Let_def)
qed

lemma inject_allowed:
  assumes inv: "simulation_inv eb sim" and allowed: "injection_allowed sim target at e"
  shows "\<exists>sim' tok. Simulation_inject_at sim target at e = Ret (sim', Inr tok) \<and> simulation_inv eb sim' \<and>
    event_at tok = at \<and> timeline_content (sim_timeline sim) tok = None \<and>
    timeline_content (sim_timeline sim') = (timeline_content (sim_timeline sim))(tok \<mapsto> Routed_new target None e) \<and>
    sim' = sim \<lparr> sim_timeline := sim_timeline sim' \<rparr>"
proof -
  let ?s = "sim_timeline sim" and ?e = "Routed_new target None e"
  have core: "simulation_core eb sim" and tinv: "timeline_inv ?s" and measure: "tl_measure ?s = Routed_retained_bytes eb"
    using inv by (simp_all add: simulation_inv_def simulation_core_def)
  have at: "Timeline_now ?s \<le> at" "timeline_admits ?s ?e" "sim_phase sim = Active"
    using allowed by (simp_all add: injection_allowed_def Simulation_now_def)
  then obtain i where i: "tl_next_id ?s = Some i"
    by (auto simp: timeline_admits_def)
  let ?tok = "EventToken (tl_id ?s) i at"
  let ?sim = "sim \<lparr> sim_timeline := timeline_put ?s at i ?e \<rparr>"
  note adm = timeline_schedule_admitted [OF tinv at(2) i at(1)]
  have eq: "Simulation_inject_at sim target at e = Ret (?sim, Inr ?tok)"
    using allowed adm(1) at(1)
    by (simp add: Simulation_inject_at_def injection_allowed_def topology_contains_duty [OF inv]
        Timeline_schedule_at_eq not_less Let_def)
  have "events_deliverable ?sim"
    using core allowed by (auto simp: simulation_core_def events_deliverable_def adm(3) injection_allowed_def
        topology_contains_duty [OF inv])
  then have "simulation_inv eb ?sim"
    using core at(3) adm(2,5) measure
    by (simp add: simulation_inv_def simulation_core_def duties_consistent_def counters_within_def
        Simulation_now_def Timeline_now_def timeline_later_def)
  then show ?thesis
    using eq adm(3,4) by (intro exI [of _ ?sim] exI [of _ ?tok]) simp
qed

text \<open>
  C19. Injection is exact. An event is admitted precisely when the simulation is active and not
  poisoned, the target is a duty that has not stopped, the moment is neither in the past nor past
  the time limit, and the timeline has room; it is then pending under a token that named nothing
  before, and nothing else of the simulation changes. Otherwise the event comes back and the
  simulation is unchanged. The invariant holds either way and nothing panics.
\<close>

theorem injection_exact:
  assumes "simulation_inv eb sim"
  shows "case Simulation_inject_at sim target at e of
      Panic \<Rightarrow> False
    | Ret (sim', Inl err) \<Rightarrow> \<not> injection_allowed sim target at e \<and> sim' = sim \<and> ie_event err = e
    | Ret (sim', Inr tok) \<Rightarrow> injection_allowed sim target at e \<and> simulation_inv eb sim' \<and> event_at tok = at \<and>
        timeline_content (sim_timeline sim) tok = None \<and>
        timeline_content (sim_timeline sim') =
          (timeline_content (sim_timeline sim))(tok \<mapsto> Routed_new target None e) \<and>
        sim' = sim \<lparr> sim_timeline := sim_timeline sim' \<rparr>"
proof (cases "injection_allowed sim target at e")
  case True
  from inject_allowed [OF assms True] show ?thesis
    using True by auto
next
  case False
  from inject_refused [OF assms False] show ?thesis
    using False by auto
qed

theorem injection_exact_witness:
  "case Simulation_inject_at simulation_demo 7 4 (9 :: nat) of
     Ret (sim', Inl err) \<Rightarrow> sim' = simulation_demo \<and> ie_event err = 9 | _ \<Rightarrow> 7 \<in> set (sim_topology simulation_demo)"
  using injection_exact [OF simulation_demo_inv, of 7 4 9]
  by (auto simp: injection_allowed_def split: run.splits sum.splits)

section \<open>One step\<close>

text \<open>
  C1. One step is sound, whatever the model, the scheduler and the monitor do, and from any state
  that satisfies the invariant: it never panics, keeps the invariant, the duties and the limits,
  and never moves time back. The only failure it can lay to the kernel is a duty that stops while
  deliveries to it are pending. An action consumes exactly one unit of the action total and no
  time; an advance moves time strictly forward, consumes none, and happens only when nothing was
  ready.
\<close>

theorem simulation_step_sound:
  assumes "simulation_inv (mc_event_bytes mc) sim"
  shows "\<exists>sim' r. Simulation_step mc sc nc sim = Ret (sim', r) \<and>
    simulation_inv (mc_event_bytes mc) sim' \<and>
    sim_topology sim' = sim_topology sim \<and> sim_limits sim' = sim_limits sim \<and>
    Simulation_now sim \<le> Simulation_now sim' \<and>
    (\<forall>f. r = Some (Inl (KernelError f)) \<longrightarrow> (\<exists>d n. f = StoppedWithPending d n \<and> n \<noteq> 0)) \<and>
    (\<forall>a. r = Some (Inr (StepAction a)) \<longrightarrow>
       unat (sim_actions sim') = unat (sim_actions sim) + 1 \<and> Simulation_now sim' = Simulation_now sim) \<and>
    (\<forall>t t'. r = Some (Inr (TimeAdvanced t t')) \<longrightarrow> t = Simulation_now sim \<and> t' = Simulation_now sim' \<and>
       t < t' \<and> sim_actions sim' = sim_actions sim \<and> ready_actions sim = {} \<and> ready_actions sim' \<noteq> {})"
proof -
  obtain sim' r where step: "Simulation_step mc sc nc sim = Ret (sim', r)" "simulation_inv (mc_event_bytes mc) sim'"
      "sim_topology sim' = sim_topology sim" "sim_limits sim' = sim_limits sim"
      "Simulation_now sim \<le> Simulation_now sim'" "benign r" "step_shape sim sim' r"
    using Simulation_step_ok [OF assms, of sc nc] unfolding step_ok_def by blast
  show ?thesis
    using step(1-5) step(6) [unfolded benign_def] step(7) [unfolded step_shape_def]
    by (intro exI [of _ sim'] exI [of _ r]) simp
qed

definition turn_model_demo :: "(unit, nat, unit, unit) model_code" where
  "turn_model_demo = \<lparr> mc_turn = (\<lambda>m duty now action. Finish m (Inr (Turn_stopped 1))),
     mc_deliver = (\<lambda>m duty delivery action. Finish m (Inr Turn_waiting)),
     mc_event_bytes = of_nat, mc_observation_bytes = (\<lambda>_. 0) \<rparr>"

theorem simulation_step_sound_witness:
  "\<exists>sim' r. Simulation_step turn_model_demo (Fifo_code :: (unit, unit) scheduler_code)
      (NoopMonitor_code :: (unit, unit, unit, unit) monitor_code) simulation_demo = Ret (sim', r) \<and>
    simulation_inv of_nat sim' \<and> Simulation_now simulation_demo \<le> Simulation_now sim'"
  using simulation_step_sound [of turn_model_demo simulation_demo Fifo_code NoopMonitor_code] simulation_demo_inv
  by (auto simp: turn_model_demo_def)

section \<open>Runs\<close>

text \<open>
  C2. Runs return. From any state that satisfies the invariant, with any model, scheduler and
  monitor, \<open>run_to_quiescence\<close> ends after finitely many steps without a panic. If it reports
  completion, every duty has stopped and no event is pending; if it reports quiescence, no event is
  pending, nothing is ready, and every duty has stopped or waits with no deadline, at least one of
  them waiting.
\<close>

theorem runs_return:
  assumes "simulation_inv (mc_event_bytes mc) sim"
  shows "\<exists>sim' r. run_to_quiescence mc sc nc sim = Some (Ret (sim', r)) \<and>
    simulation_inv (mc_event_bytes mc) sim' \<and> Simulation_now sim \<le> Simulation_now sim' \<and>
    (\<forall>report. r = Some (Inr report) \<longrightarrow> tl_events (sim_timeline sim') = [] \<and>
       (if rr_end report = RunCompleted then sim_phase sim' = Completed \<and> all_stopped sim'
        else sim_phase sim' = Active \<and> \<not> all_stopped sim' \<and> ready_actions sim' = {} \<and>
          (\<forall>d st. bt_get (sim_states sim') d = Some st \<longrightarrow> ds_next st = Wake \<or> ds_next st = Stop)))"
  using run_to_quiescence_returns [OF assms, of sc nc] unfolding run_ends_well_def by auto

theorem runs_return_witness:
  "\<exists>sim' r. run_to_quiescence turn_model_demo (Fifo_code :: (unit, unit) scheduler_code)
      (NoopMonitor_code :: (unit, unit, unit, unit) monitor_code) simulation_demo = Some (Ret (sim', r)) \<and>
    simulation_inv of_nat sim'"
  using runs_return [of turn_model_demo simulation_demo Fifo_code NoopMonitor_code] simulation_demo_inv
  by (auto simp: turn_model_demo_def)

section \<open>Atomic actions\<close>

text \<open>What is left of an action that failed: its delivery, if it had one, is consumed.\<close>

definition nothing_published :: "('m, 'e, 's, 'n) simulation \<Rightarrow> ('m, 'e, 's, 'n) simulation \<Rightarrow> action_kind \<Rightarrow> bool" where
  "nothing_published sim sim' kind \<longleftrightarrow>
     sim_states sim' = sim_states sim \<and> sim_stopped sim' = sim_stopped sim \<and> sim_phase sim' = Failed \<and>
     timeline_content (sim_timeline sim') =
       (case kind of TurnAction \<Rightarrow> timeline_content (sim_timeline sim)
        | Delivery tok \<Rightarrow> (timeline_content (sim_timeline sim))(tok := None))"

definition action_failure :: "(('mx, 'nx, 'sx) step_error + 'r) option \<Rightarrow> bool" where
  "action_failure r \<longleftrightarrow>
     (case r of
        Some (Inl (ModelError _ _)) \<Rightarrow> True
      | Some (Inl (KernelError (StoppedWithPending _ _))) \<Rightarrow> True
      | _ \<Rightarrow> False)"

lemma action_failure_iff:
  "action_failure r \<longleftrightarrow> (\<exists>meta e. r = Some (Inl (ModelError meta e))) \<or>
     (\<exists>d n. r = Some (Inl (KernelError (StoppedWithPending d n))))"
  by (auto simp: action_failure_def split: option.splits sum.splits step_error.splits kernel_failure.splits)

lemma finish_action_no_failure:
  "\<not> action_failure (snd (finish_action sc nc sim meta turn obs))"
  by (auto simp: finish_action_def action_failure_iff Let_def split: prod.splits option.splits sum.splits)

lemma execute_callback_failure:
  assumes core: "simulation_core (mc_event_bytes mc) sim"
    and exec: "execute_callback mc sc nc sim meta delivery cb = Ret (sim', r)" "action_failure r"
  shows "nothing_published sim sim' TurnAction"
proof -
  let ?eb = "mc_event_bytes mc" and ?ob = "mc_observation_bytes mc" and ?s = "sim_timeline sim"
  let ?c0 = "ActionContext_new ?s (sim_topology sim) (sim_stopped sim) (am_id meta)
    (Simulation_now sim) (SimulationLimits_action_context (sim_limits sim))"
  have tl: "timeline_inv ?s" "tl_measure ?s = Routed_retained_bytes ?eb"
    using core by (simp_all add: simulation_core_def)
  obtain ctx m res where run: "run_callback ?eb ?ob cb ?c0 = Ret (ctx, m, res)" "context_inv ?eb ?ob ?s ctx"
    using run_callback_ok [OF context_inv_new [OF tl], of ?ob cb "sim_topology sim" "sim_stopped sim"
        "am_id meta" "Simulation_now sim" "SimulationLimits_action_context (sim_limits sim)"] by blast
  obtain s1 where s1: "ActionContext_drop ?eb ctx = Ret s1" "timeline_agree ?s s1"
    using context_drop_ok [OF run(2)] by blast
  consider (unwound) "res = None" | (error) e where "res = Some (Inl e)" | (ok) turn where "res = Some (Inr turn)"
    by (metis option.exhaust sum.exhaust)
  then show ?thesis
  proof cases
    case unwound
    then show ?thesis
      using exec run(1) s1 by (auto simp: execute_callback_def action_failure_iff Let_def)
  next
    case error
    then show ?thesis
      using exec run(1) s1 timeline_agree_content [OF s1(2)]
      by (auto simp: execute_callback_def nothing_published_def Simulation_fail_def Let_def)
  next
    case (ok turn)
    from commit_context_ok [OF run(2), of "action_duty (am_key meta)" turn] show ?thesis
    proof (elim disjE exE conjE, goal_cases)
      case (1 s n)
      then show ?thesis
        using exec run(1) ok timeline_agree_content [of ?s s]
        by (auto simp: execute_callback_def nothing_published_def Simulation_fail_def Let_def)
    next
      case 2
      then obtain sim2 where "finish_action sc nc sim2 meta turn (ac_observations ctx) = (sim', r)"
        using exec run(1) ok by (auto simp: execute_callback_def and_then_Ret_iff Let_def)
      then have False
        using exec(2) finish_action_no_failure by (metis snd_conv)
      then show ?thesis ..
    qed
  qed
qed

lemma execute_selected_failure:
  assumes core: "simulation_core (mc_event_bytes mc) sim" and key: "key \<in> ready_actions sim"
    and exec: "execute_selected mc sc nc sim key ident = Ret (sim', r)" "action_failure r"
  shows "nothing_published sim sim' (action_kind key)"
proof (cases "action_kind key")
  case TurnAction
  then show ?thesis
    using execute_callback_failure [OF core _ exec(2)] exec(1)
    by (auto simp: execute_selected_def execute_turn_def Let_def)
next
  case (Delivery tok)
  obtain s rm where s: "Timeline_cancel (sim_timeline sim) tok = Ret (s, rm)"
    using exec(1) Delivery by (auto simp: execute_selected_def execute_delivery_def and_then_Ret_iff)
  note core' = simulation_core_cancel [OF core s]
  let ?sim = "sim \<lparr> sim_timeline := s \<rparr>"
  have content: "timeline_content s = (timeline_content (sim_timeline sim))(tok := None)"
    using core timeline_inv_cancel [OF _ s] by (simp add: simulation_core_def)
  obtain meta cb where "execute_callback mc sc nc ?sim meta True cb = Ret (sim', r)"
    using exec Delivery s
    by (auto simp: execute_selected_def execute_delivery_def action_failure_iff Let_def
        split: option.splits if_splits)
  from execute_callback_failure [OF core'(1) this exec(2)] show ?thesis
    using Delivery content by (simp add: nothing_published_def)
qed

lemma advance_no_failure:
  "advance_or_finish sc sim = Ret (sim', r) \<Longrightarrow> \<not> action_failure r"
  by (auto simp: advance_or_finish_def action_failure_iff and_then_Ret_iff Let_def
      split: if_splits list.splits prod.splits option.splits sum.splits)

lemma select_failure:
  assumes "select_and_execute mc sc nc sim = Ret (sim', r)" "action_failure r"
  shows "\<exists>key s i j k ident r'. ReadySet_contains (sim_ready sim) key \<and> sim_next_action sim = Some ident \<and>
    action_failure r' \<and>
    execute_selected mc sc nc (sim \<lparr> sim_scheduler := s, sim_next_action := checked_add ident 1,
      sim_actions := sim_actions sim + 1, sim_actions_at_moment := sim_actions_at_moment sim + 1 \<rparr>) key ident =
      Ret (sim', r')"
proof -
  obtain s c where choose: "sc_choose sc (sim_scheduler sim) (Simulation_now sim) (sim_ready sim) = (s, c)"
    by fastforce
  have "\<exists>key. c = Some (Inr key)"
    using assms choose
    by (auto simp: select_and_execute_def action_failure_iff Let_def split: option.splits sum.splits)
  then obtain key where key: "c = Some (Inr key)" ..
  have "ReadySet_contains (sim_ready sim) key" "sim_next_action sim \<noteq> None"
    using assms choose key
    by (auto simp: select_and_execute_def action_failure_iff Let_def split: option.splits if_splits)
  moreover from this obtain ident where "sim_next_action sim = Some ident"
    by blast
  moreover obtain r' where "execute_selected mc sc nc (sim \<lparr> sim_scheduler := s, sim_next_action := checked_add ident 1,
      sim_actions := sim_actions sim + 1, sim_actions_at_moment := sim_actions_at_moment sim + 1 \<rparr>) key ident =
      Ret (sim', r')" "r = map_option (map_sum id StepAction) r'"
    using assms(1) choose key calculation by (auto simp: select_and_execute_def and_then_Ret_iff Let_def)
  moreover from this(2) have "action_failure r'"
    using assms(2) by (cases r'; auto simp: action_failure_iff) (case_tac a; auto)+
  ultimately show ?thesis
    by blast
qed

text \<open>
  C17. Actions are atomic. When a step fails because the model returned an error, or because the
  duty stopped with deliveries to it pending, the duties' states, the stopped set and the pending
  events are those from before the step, except that the delivery being executed (if the action was
  one) is consumed; the simulation has failed, and no further step runs.
\<close>

theorem failed_action_publishes_nothing:
  assumes "simulation_inv (mc_event_bytes mc) sim"
    and "Simulation_step mc sc nc sim = Ret (sim', r)" "action_failure r"
  shows "\<exists>key\<in>ready_actions sim. nothing_published sim sim' (action_kind key) \<and>
    Simulation_step mc sc nc sim' \<noteq> Panic \<and> fst (returned (Simulation_step mc sc nc sim')) = sim'"
proof -
  have live: "\<not> sim_poisoned sim" "sim_phase sim = Active"
    using assms(2,3) by (auto simp: Simulation_step_def action_failure_iff split: if_splits)
  have core: "simulation_core (mc_event_bytes mc) sim"
    using assms(1) by (simp add: simulation_inv_def)
  obtain ready where ready: "build_ready sim = Ret (Inr ready)" "sorted ready" "set ready = ready_actions sim"
    using build_ready_ok [OF core] by blast
  let ?sim = "sim \<lparr> sim_ready := ready \<rparr>"
  have "ready \<noteq> []"
    using assms(2,3) live ready(1)
    by (auto simp: Simulation_step_def Let_def dest: advance_no_failure)
  then have "enforce_action_limits ?sim = None \<and> select_and_execute mc sc nc ?sim = Ret (sim', r)"
    using assms(2,3) live ready(1)
    by (auto simp: Simulation_step_def action_failure_iff Let_def split: option.splits)
  then have limits: "enforce_action_limits ?sim = None" and select: "select_and_execute mc sc nc ?sim = Ret (sim', r)"
    by simp_all
  obtain key s ident r' where exec: "ReadySet_contains ready key" "sim_next_action sim = Some ident" "action_failure r'"
      "execute_selected mc sc nc (?sim \<lparr> sim_scheduler := s, sim_next_action := checked_add ident 1,
        sim_actions := sim_actions sim + 1, sim_actions_at_moment := sim_actions_at_moment sim + 1 \<rparr>) key ident =
        Ret (sim', r')"
    using select_failure [OF select assms(3)] by auto
  let ?sim2 = "?sim \<lparr> sim_scheduler := s, sim_next_action := checked_add ident 1,
        sim_actions := sim_actions sim + 1, sim_actions_at_moment := sim_actions_at_moment sim + 1 \<rparr>"
  have key: "key \<in> ready_actions sim"
    using exec(1) ready by (simp add: ReadySet_contains_iff)
  have "simulation_core (mc_event_bytes mc) ?sim2"
    using counted_core(1) [of "mc_event_bytes mc" ?sim ident s] core limits exec(2) by simp
  moreover have "key \<in> ready_actions ?sim2"
    using key by (simp add: ready_actions_def)
  ultimately have nothing: "nothing_published ?sim2 sim' (action_kind key)"
    by (rule execute_selected_failure [OF _ _ exec(4,3)])
  then have unchanged: "nothing_published sim sim' (action_kind key)"
    by (simp add: nothing_published_def cong: action_kind.case_cong)
  then have "sim_phase sim' = Failed"
    by (simp add: nothing_published_def)
  then have "Simulation_step mc sc nc sim' = Ret (sim', Some (Inl (if sim_poisoned sim' then Poisoned else Inactive Failed)))"
    by (simp add: Simulation_step_def)
  then show ?thesis
    using unchanged key by (intro bexI [of _ key]) simp_all
qed

definition failing_model_demo :: "(unit, nat, unit, unit) model_code" where
  "failing_model_demo = turn_model_demo
     \<lparr> mc_turn := (\<lambda>m duty now action. Ask (Send 5 9) (\<lambda>_. Finish m (Inl ()))) \<rparr>"

theorem failed_action_publishes_nothing_witness:
  "\<exists>sim' r. Simulation_step failing_model_demo (Fifo_code :: (unit, unit) scheduler_code)
      (NoopMonitor_code :: (unit, unit, unit, unit) monitor_code) simulation_demo = Ret (sim', r) \<and>
    timeline_content (sim_timeline sim') = timeline_content (sim_timeline simulation_demo)"
proof -
  let ?step = "Simulation_step failing_model_demo (Fifo_code :: (unit, unit) scheduler_code)
      (NoopMonitor_code :: (unit, unit, unit, unit) monitor_code) simulation_demo"
  have "case ?step of Panic \<Rightarrow> False | Ret (sim', r) \<Rightarrow> action_failure r"
    by code_simp
  from run_case_Ret [OF this] obtain sim' r where step: "?step = Ret (sim', r)" "action_failure r"
    by blast
  have "simulation_inv (mc_event_bytes failing_model_demo) simulation_demo"
    using simulation_demo_inv by (simp add: failing_model_demo_def turn_model_demo_def)
  from failed_action_publishes_nothing [OF this step] obtain key where
    key: "key \<in> ready_actions simulation_demo" "nothing_published simulation_demo sim' (action_kind key)"
    by blast
  from key(1) [unfolded simulation_demo_ready] have "action_kind key = TurnAction"
    by (elim insertE) (simp_all add: ActionKey_turn_def)
  then have "timeline_content (sim_timeline sim') = timeline_content (sim_timeline simulation_demo)"
    using key(2) by (simp add: nothing_published_def)
  then show ?thesis
    using step(1) by blast
qed

end
