(* ===== verification/Trace.thy ===== *)
theory Trace
  imports Batch Simulation_Laws
begin

text \<open>
  The bounded causal trace (\<open>trace/\<close>): a monitor that records every committed action before it
  asks the monitor composed with it, and the replay scheduler built from its entries. The theorem
  is the reason the crate exists: a recorded run can be replayed, step for step.
\<close>

section \<open>State\<close>

record trace_limits =
  trl_entries :: usize
  trl_retained_bytes :: retained_bytes

definition TraceLimits_batch :: "trace_limits \<Rightarrow> event_batch_limits" where
  "TraceLimits_batch self =
     \<lparr> bl_events = trl_entries self, bl_retained_bytes = trl_retained_bytes self \<rparr>"

definition TraceEntry_retained_bytes :: "trace_entry \<Rightarrow> retained_bytes" where
  "TraceEntry_retained_bytes self = RetainedBytes_ZERO"

datatype 'x trace_error = TraceCapacity usize | TraceMonitor 'x

record trace_snapshot =
  trs_limits :: trace_limits
  trs_entries :: nat
  trs_retained_bytes :: retained_bytes

definition TraceSnapshot_from_batch :: "trace_limits \<Rightarrow> event_batch_snapshot \<Rightarrow> trace_snapshot" where
  "TraceSnapshot_from_batch limits batch =
     \<lparr> trs_limits = limits, trs_entries = ebs_events batch,
       trs_retained_bytes = ebs_retained_bytes batch \<rparr>"

record 'n trace =
  trc_limits :: trace_limits
  trc_entries :: "trace_entry event_batch"
  trc_monitor :: 'n

definition Trace_with_monitor :: "trace_limits \<Rightarrow> 'n \<Rightarrow> 'n trace" where
  "Trace_with_monitor limits monitor =
     \<lparr> trc_limits = limits,
       trc_entries = EventBatch_with_measure (TraceLimits_batch limits) TraceEntry_retained_bytes,
       trc_monitor = monitor \<rparr>"

definition Trace_snapshot :: "'n trace \<Rightarrow> trace_snapshot" where
  "Trace_snapshot self = TraceSnapshot_from_batch (trc_limits self) (EventBatch_snapshot (trc_entries self))"

definition Trace_entries :: "'n trace \<Rightarrow> trace_entry list" where
  "Trace_entries self = EventBatch_iter (trc_entries self)"

definition Trace_replay :: "'n trace \<Rightarrow> replay" where
  "Trace_replay self = Replay_from_entries (Trace_entries self)"

text \<open>The panic on a byte failure is an answer \<open>None\<close>: it unwinds through the step.\<close>

definition Trace_after_action ::
  "('n, 'm, 'o, 'x) monitor_code \<Rightarrow> 'n trace \<Rightarrow> 'm simulation_view \<Rightarrow> 'o action_record \<Rightarrow>
   'n trace \<times> ('x trace_error + unit) option" where
  "Trace_after_action nc self view action =
     (let (entries, pushed) = EventBatch_try_push (trc_entries self) (TraceEntry_from_record action);
          self = self \<lparr> trc_entries := entries \<rparr> in
      case pushed of
        Inl error \<Rightarrow>
          (case ebe_failure error of
             EventCapacity limit \<Rightarrow> (self, Some (Inl (TraceCapacity limit)))
           | _ \<Rightarrow> (self, None))
      | Inr _ \<Rightarrow>
          let (monitor, observed) = nc_after_action nc (trc_monitor self) view action in
          (self \<lparr> trc_monitor := monitor \<rparr>, map_option (map_sum TraceMonitor id) observed))"

definition Trace_code :: "('n, 'm, 'o, 'x) monitor_code \<Rightarrow> ('n trace, 'm, 'o, 'x trace_error) monitor_code" where
  "Trace_code nc = \<lparr> nc_after_action = Trace_after_action nc \<rparr>"

section \<open>Recording\<close>

definition trace_inv :: "'n trace \<Rightarrow> bool" where
  "trace_inv t \<longleftrightarrow> batch_inv (trc_entries t) \<and> eb_measure (trc_entries t) = TraceEntry_retained_bytes"

lemma trace_inv_new: "trace_inv (Trace_with_monitor limits n)"
  by (simp add: trace_inv_def Trace_with_monitor_def batch_inv_new)
    (simp add: EventBatch_with_measure_def)

lemma Trace_entries_length: "trace_inv t \<Longrightarrow> length (Trace_entries t) < 2 ^ 64"
  using unat_less_exp [of "bl_events (eb_limits (trc_entries t))"]
  by (simp add: trace_inv_def batch_inv_def Trace_entries_def EventBatch_iter_def)

text \<open>
  Entries measure zero bytes, so a trace within its invariant can only be full: recording never
  unwinds, and a successful action is the last entry.
\<close>

lemma Trace_after_action_cases:
  assumes inv: "trace_inv t" and nc: "nc_after_action nc (trc_monitor t) view action = (n', observed)"
  shows "Trace_after_action nc t view action =
    (if length (Trace_entries t) < unat (bl_events (eb_limits (trc_entries t)))
     then (t \<lparr> trc_entries := fst (EventBatch_try_push (trc_entries t) (TraceEntry_from_record action)),
               trc_monitor := n' \<rparr>, map_option (map_sum TraceMonitor id) observed)
     else (t, Some (Inl (TraceCapacity (bl_events (eb_limits (trc_entries t)))))))"
proof (cases "length (Trace_entries t) < unat (bl_events (eb_limits (trc_entries t)))")
  case True
  then have "batch_admits (trc_entries t) (TraceEntry_from_record action)"
    using inv by (simp add: batch_admits_def trace_inv_def batch_inv_def TraceEntry_retained_bytes_def
        RetainedBytes_ZERO_def Trace_entries_def EventBatch_iter_def word_le_nat_alt)
  then show ?thesis
    using True nc by (simp add: Trace_after_action_def try_push_admitted Let_def)
next
  case False
  then show ?thesis
    by (simp add: Trace_after_action_def EventBatch_try_push_def Trace_entries_def EventBatch_iter_def Let_def)
qed

lemma Trace_records:
  assumes inv: "trace_inv t" and ok: "Trace_after_action nc t view action = (t', Some (Inr ()))"
  shows "Trace_entries t' = Trace_entries t @ [TraceEntry_from_record action]" "trace_inv t'"
proof -
  let ?e = "TraceEntry_from_record action"
  obtain n' observed where nc: "nc_after_action nc (trc_monitor t) view action = (n', observed)"
    by fastforce
  note cases = Trace_after_action_cases [OF inv nc]
  have room: "length (Trace_entries t) < unat (bl_events (eb_limits (trc_entries t)))"
    using ok unfolding cases by (simp split: if_splits)
  then have "batch_admits (trc_entries t) ?e"
    using inv by (simp add: batch_admits_def trace_inv_def batch_inv_def TraceEntry_retained_bytes_def
        RetainedBytes_ZERO_def Trace_entries_def EventBatch_iter_def word_le_nat_alt)
  note push = try_push_admitted [OF this]
  have t': "trc_entries t' = fst (EventBatch_try_push (trc_entries t) ?e)"
    using ok room unfolding cases by auto
  show "Trace_entries t' = Trace_entries t @ [?e]"
    by (simp add: Trace_entries_def EventBatch_iter_def t' push)
  show "trace_inv t'"
    using inv batch_inv_try_push [of "trc_entries t" ?e] push by (simp add: trace_inv_def t')
qed

section \<open>Changing the scheduler and the monitor of a simulation\<close>

definition reseat ::
  "('m, 'e, 's, 'n) simulation \<Rightarrow> 't \<Rightarrow> 'k \<Rightarrow> ('m, 'e, 't, 'k) simulation" where
  "reseat self scheduler monitor =
     \<lparr> sim_model = sim_model self, sim_topology = sim_topology self, sim_states = sim_states self,
       sim_stopped = sim_stopped self, sim_timeline = sim_timeline self, sim_limits = sim_limits self,
       sim_scheduler = scheduler, sim_monitor = monitor, sim_phase = sim_phase self,
       sim_poisoned = sim_poisoned self, sim_next_action = sim_next_action self,
       sim_actions = sim_actions self, sim_actions_at_moment = sim_actions_at_moment self,
       sim_ready = sim_ready self \<rparr>"

definition Simulation_with_monitor :: "('m, 'e, 's, 'n) simulation \<Rightarrow> 'p \<Rightarrow> ('m, 'e, 's, 'p) simulation" where
  "Simulation_with_monitor self monitor = reseat self (sim_scheduler self) monitor"

lemma reseat_select [simp]:
  "sim_model (reseat a s n) = sim_model a" "sim_topology (reseat a s n) = sim_topology a"
  "sim_states (reseat a s n) = sim_states a" "sim_stopped (reseat a s n) = sim_stopped a"
  "sim_timeline (reseat a s n) = sim_timeline a" "sim_limits (reseat a s n) = sim_limits a"
  "sim_scheduler (reseat a s n) = s" "sim_monitor (reseat a s n) = n"
  "sim_phase (reseat a s n) = sim_phase a" "sim_poisoned (reseat a s n) = sim_poisoned a"
  "sim_next_action (reseat a s n) = sim_next_action a" "sim_actions (reseat a s n) = sim_actions a"
  "sim_actions_at_moment (reseat a s n) = sim_actions_at_moment a" "sim_ready (reseat a s n) = sim_ready a"
  "Simulation_now (reseat a s n) = Simulation_now a" "Simulation_snapshot (reseat a s n) = Simulation_snapshot a"
  by (simp_all add: reseat_def Simulation_now_def Simulation_snapshot_def)

lemma reseat_update [simp]:
  "(reseat a s n) \<lparr> sim_model := x1 \<rparr> = reseat (a \<lparr> sim_model := x1 \<rparr>) s n"
  "(reseat a s n) \<lparr> sim_states := x2 \<rparr> = reseat (a \<lparr> sim_states := x2 \<rparr>) s n"
  "(reseat a s n) \<lparr> sim_stopped := x3 \<rparr> = reseat (a \<lparr> sim_stopped := x3 \<rparr>) s n"
  "(reseat a s n) \<lparr> sim_timeline := x4 \<rparr> = reseat (a \<lparr> sim_timeline := x4 \<rparr>) s n"
  "(reseat a s n) \<lparr> sim_scheduler := s' \<rparr> = reseat a s' n"
  "(reseat a s n) \<lparr> sim_monitor := n' \<rparr> = reseat a s n'"
  "(reseat a s n) \<lparr> sim_phase := x5 \<rparr> = reseat (a \<lparr> sim_phase := x5 \<rparr>) s n"
  "(reseat a s n) \<lparr> sim_next_action := x6 \<rparr> = reseat (a \<lparr> sim_next_action := x6 \<rparr>) s n"
  "(reseat a s n) \<lparr> sim_actions := x7 \<rparr> = reseat (a \<lparr> sim_actions := x7 \<rparr>) s n"
  "(reseat a s n) \<lparr> sim_actions_at_moment := x8 \<rparr> = reseat (a \<lparr> sim_actions_at_moment := x8 \<rparr>) s n"
  "(reseat a s n) \<lparr> sim_ready := x9 \<rparr> = reseat (a \<lparr> sim_ready := x9 \<rparr>) s n"
  by (simp_all add: reseat_def)

lemma reseat_forget [simp]:
  "reseat (a \<lparr> sim_scheduler := s' \<rparr>) s n = reseat a s n"
  "reseat (a \<lparr> sim_monitor := n' \<rparr>) s n = reseat a s n"
  "reseat (a \<lparr> sim_scheduler := s', sim_next_action := x1, sim_actions := x2, sim_actions_at_moment := x3 \<rparr>) s n =
    reseat (a \<lparr> sim_next_action := x1, sim_actions := x2, sim_actions_at_moment := x3 \<rparr>) s n"
  "reseat (a \<lparr> sim_scheduler := s', sim_phase := x4 \<rparr>) s n = reseat (a \<lparr> sim_phase := x4 \<rparr>) s n"
  "reseat (reseat a s' n') s n = reseat a s n"
  by (simp_all add: reseat_def)

lemma reseat_queries [simp]:
  "build_ready (reseat a s n) = build_ready a"
  "enforce_action_limits (reseat a s n) = enforce_action_limits a"
  "next_deadline (reseat a s n) = next_deadline a"
  unfolding build_ready_def enforce_action_limits_def next_deadline_def reseat_select by (rule refl)+

lemma reseat_update_owner:
  "update_owner (reseat a s n) d turn b = and_then (update_owner a d turn b) (\<lambda>x. Ret (reseat x s n))"
  by (simp add: update_owner_def Let_def split: option.split)

section \<open>Replaying a recorded step\<close>

text \<open>A replay that has reproduced the entries \<open>past\<close> of a trace and is about to follow \<open>future\<close>.\<close>

definition replay_at :: "trace_entry list \<Rightarrow> trace_entry list \<Rightarrow> bool \<Rightarrow> replay" where
  "replay_at past future awaiting =
     \<lparr> rp_entries = past @ future, rp_cursor = of_nat (length past), rp_position = of_nat (length past),
       rp_awaiting_commit = awaiting \<rparr>"

lemma replay_at_start: "Replay_from_entries entries = replay_at [] entries False"
  by (simp add: Replay_from_entries_def replay_at_def)

lemma replay_at_cursor: "length past < 2 ^ 64 \<Longrightarrow> unat (rp_cursor (replay_at past future w)) = length past"
  by (simp add: replay_at_def unat_of_nat)

lemma replay_at_expected:
  "length past < 2 ^ 64 \<Longrightarrow> Replay_expected (replay_at past (e # future) w) = Some e"
  using replay_at_cursor [of past "e # future" w]
  by (simp add: Replay_expected_def) (simp add: replay_at_def nth_append)

lemma replay_at_choose:
  assumes "length past < 2 ^ 64" "am_at (trace_meta e) = now" "ReadySet_contains ready (am_key (trace_meta e))"
  shows "Replay_choose (replay_at past (e # future) False) now ready =
    (replay_at past (e # future) True, Some (Inr (am_key (trace_meta e))))"
  using assms replay_at_expected [OF assms(1), of e future False]
  by (simp add: Replay_choose_def) (simp add: replay_at_def)

lemma replay_at_committed:
  assumes "length (past @ e # future) < 2 ^ 64"
  shows "Replay_committed (replay_at past (e # future) True) (trace_meta e) (trace_turn e) =
    (replay_at (past @ [e]) future False, Some (Inr ()))"
proof -
  have len: "length past < 2 ^ 64" "length past + 1 < 2 ^ 64"
    using assms by simp_all
  have cursor: "rp_cursor (replay_at past (e # future) True) = of_nat (length past)"
      "rp_position (replay_at past (e # future) True) = of_nat (length past)"
      "rp_awaiting_commit (replay_at past (e # future) True)"
    by (simp_all add: replay_at_def)
  have next_cursor: "checked_add (of_nat (length past) :: u64) 1 = Some (of_nat (length (past @ [e])))"
    using len by (simp add: checked_add_def unat_of_nat)
  have "TraceEntry_new (trace_meta e) (trace_turn e) = e"
    by (simp add: TraceEntry_new_def)
  then show ?thesis
    unfolding Replay_committed_def Let_def
    using cursor replay_at_expected [OF len(1), of e future True] next_cursor
    by (simp add: replay_at_def)
qed

lemma replay_at_finished:
  "length past < 2 ^ 64 \<Longrightarrow> Replay_finished (replay_at past [] False) = (replay_at past [] False, Some (Inr ()))"
  using replay_at_cursor [of past "[]" False]
  by (simp add: Replay_finished_def Replay_remaining_def) (simp add: replay_at_def)

text \<open>
  \<open>follows g a a' record\<close>: the action \<open>record\<close> took \<open>a\<close> to \<open>a'\<close> and was recorded, and \<open>g\<close>, run on
  \<open>a\<close> with a replay that expects its entry, does the same and moves the replay past the entry.
\<close>

definition follows ::
  "(('m, 'e, replay, unit) simulation \<Rightarrow>
     (('m, 'e, replay, unit) simulation \<times> (('mx, 'nx, replay_divergence) step_error + 'o action_record) option) run) \<Rightarrow>
   ('m, 'e, 's, 'n trace) simulation \<Rightarrow> ('m, 'e, 's, 'n trace) simulation \<Rightarrow> 'o action_record \<Rightarrow> bool" where
  "follows g a a' record \<longleftrightarrow>
     trace_inv (sim_monitor a') \<and>
     Trace_entries (sim_monitor a') = Trace_entries (sim_monitor a) @ [TraceEntry_from_record record] \<and>
     (\<forall>past future. length (past @ TraceEntry_from_record record # future) < 2 ^ 64 \<longrightarrow>
        g (reseat a (replay_at past (TraceEntry_from_record record # future) True) ()) =
          Ret (reseat a' (replay_at (past @ [TraceEntry_from_record record]) future False) (), Some (Inr record)))"

lemma follows_cong:
  "follows h b a' record \<Longrightarrow> sim_monitor a = sim_monitor b \<Longrightarrow>
    (\<And>s n. g (reseat a s n) = h (reseat b s n)) \<Longrightarrow> follows g a a' record"
  by (simp add: follows_def)

lemma follows_recorded:
  "follows g a a' record \<Longrightarrow> trace_inv (sim_monitor a')"
  "follows g a a' record \<Longrightarrow>
    Trace_entries (sim_monitor a') = Trace_entries (sim_monitor a) @ [TraceEntry_from_record record]"
  by (simp_all add: follows_def)

lemma follows_finish:
  assumes inv: "trace_inv (sim_monitor a)"
    and fin: "finish_action sc (Trace_code nc) a meta turn obs = (a', Some (Inr record))"
  shows "ar_meta record = meta \<and>
    follows (\<lambda>b. Ret (finish_action Replay_code NoopMonitor_code b meta turn obs)) a a' record"
proof -
  let ?r = "\<lparr> ar_meta = meta, ar_turn = turn, ar_observations = obs \<rparr>"
  let ?e = "TraceEntry_from_record ?r"
  obtain s where s: "sc_committed sc (sim_scheduler a) meta turn = (s, Some (Inr ()))"
    using fin by (auto simp: finish_action_def Let_def split: prod.splits option.splits sum.splits)
  obtain t where t: "Trace_after_action nc (sim_monitor a) \<lparr> sv_model = sim_model a, sv_topology = sim_topology a,
        sv_states = sim_states a, sv_snapshot = Simulation_snapshot (a \<lparr> sim_scheduler := s \<rparr>) \<rparr> ?r =
        (t, Some (Inr ()))"
      and a': "a' = a \<lparr> sim_scheduler := s, sim_monitor := t \<rparr>" and r: "record = ?r"
    using fin s
    by (auto simp: finish_action_def Trace_code_def Let_def split: prod.splits option.splits sum.splits)
  have e: "trace_meta ?e = meta" "trace_turn ?e = turn"
    by (simp_all add: TraceEntry_from_record_def)
  note recorded = Trace_records [OF inv t]
  show ?thesis
    unfolding follows_def r
  proof (intro conjI allI impI, goal_cases)
    case (4 past future)
    show ?case
      using replay_at_committed [OF 4] unfolding e
      by (simp add: finish_action_def Replay_code_def NoopMonitor_code_def a' Let_def)
  qed (simp_all add: recorded a')
qed

lemma follows_callback:
  fixes mc :: "('m, 'e, 'o, 'mx) model_code" and sc :: "('s, 'sx) scheduler_code"
    and nc :: "('n, 'm, 'o, 'nx) monitor_code"
  assumes inv: "trace_inv (sim_monitor a)"
    and exec: "execute_callback mc sc (Trace_code nc) a meta delivery cb = Ret (a', Some (Inr record))"
  shows "ar_meta record = meta \<and>
    follows (\<lambda>b. execute_callback mc Replay_code NoopMonitor_code b meta delivery cb) a a' record"
proof -
  let ?eb = "mc_event_bytes mc" and ?ob = "mc_observation_bytes mc" and ?d = "action_duty (am_key meta)"
  let ?c0 = "ActionContext_new (sim_timeline a) (sim_topology a) (sim_stopped a) (am_id meta)
    (Simulation_now a) (SimulationLimits_action_context (sim_limits a))"
  obtain ctx m res where run: "run_callback ?eb ?ob cb ?c0 = Ret (ctx, m, res)"
    using exec by (auto simp: execute_callback_def and_then_Ret_iff Let_def)
  obtain turn where turn: "res = Some (Inr turn)"
    using exec run by (auto simp: execute_callback_def and_then_Ret_iff Let_def split: option.splits sum.splits)
  obtain tl committed where "commit_context ?eb ?d turn ctx = Ret (tl, committed)"
    using exec run turn by (auto simp: execute_callback_def and_then_Ret_iff Let_def)
  moreover from this obtain obs where "committed = Inr obs"
    using exec run turn by (auto simp: execute_callback_def Let_def split: sum.splits)
  ultimately have commit: "commit_context ?eb ?d turn ctx = Ret (tl, Inr obs)"
    by simp
  let ?a1 = "a \<lparr> sim_model := m, sim_timeline := tl \<rparr>"
  obtain a2 where up: "update_owner ?a1 ?d turn delivery = Ret a2"
      and fin: "finish_action sc (Trace_code nc) a2 meta turn obs =
        (a', Some (Inr record) :: (('mx, 'nx trace_error, 'sx) step_error + 'o action_record) option)"
    using exec run turn commit by (auto simp: execute_callback_def and_then_Ret_iff Let_def)
  have mon: "sim_monitor a2 = sim_monitor a"
    using up by (auto simp: update_owner_def Let_def split: option.splits)
  have eq: "execute_callback mc Replay_code NoopMonitor_code (reseat a s n) meta delivery cb =
      Ret (finish_action Replay_code NoopMonitor_code (reseat a2 s n) meta turn obs)" for s n
    using run turn commit up by (simp add: execute_callback_def reseat_update_owner Let_def)
  from follows_finish [OF _ fin] inv mon show ?thesis
    by (simp add: follows_def eq)
qed

lemma follows_selected:
  fixes mc :: "('m, 'e, 'o, 'mx) model_code" and sc :: "('s, 'sx) scheduler_code"
    and nc :: "('n, 'm, 'o, 'nx) monitor_code"
  assumes inv: "trace_inv (sim_monitor a)"
    and exec: "execute_selected mc sc (Trace_code nc) a key ident = Ret (a', Some (Inr record))"
  shows "am_key (ar_meta record) = key \<and> am_at (ar_meta record) = Simulation_now a \<and>
    follows (\<lambda>b. execute_selected mc Replay_code NoopMonitor_code b key ident) a a' record"
proof (cases "action_kind key")
  case TurnAction
  then show ?thesis
    using exec follows_callback [OF inv, of mc sc nc _ False]
    by (fastforce simp: execute_selected_def execute_turn_def follows_def Let_def)
next
  case (Delivery tok)
  obtain tl rm where cancel: "Timeline_cancel (sim_timeline a) tok = Ret (tl, rm)"
    using exec Delivery by (auto simp: execute_selected_def execute_delivery_def and_then_Ret_iff)
  obtain routed where rm: "rm = Some routed" "routed_target routed = action_duty key"
    using exec Delivery cancel
    by (auto simp: execute_selected_def execute_delivery_def Let_def split: option.splits if_splits)
  let ?a = "a \<lparr> sim_timeline := tl \<rparr>"
  let ?meta = "\<lparr> am_id = ident, am_key = key, am_at = Simulation_now ?a, am_cause = routed_cause routed \<rparr>"
  have now: "Simulation_now ?a = Simulation_now a"
    using cancel by (auto simp: Timeline_cancel_def Simulation_now_def Timeline_now_def and_then_Ret_iff Let_def
        split: if_splits option.splits)
  have "execute_callback mc sc (Trace_code nc) ?a ?meta True (mc_deliver mc (sim_model a) (action_duty key)
      \<lparr> delivery_token = tok, delivery_event = routed_event routed \<rparr> ident) = Ret (a', Some (Inr record))"
    using exec Delivery cancel rm by (simp add: execute_selected_def execute_delivery_def Let_def)
  note callback = follows_callback [OF _ this]
  have mon: "trace_inv (sim_monitor ?a)" "sim_monitor a = sim_monitor ?a"
    using inv by simp_all
  show ?thesis
  proof (intro conjI)
    show "follows (\<lambda>b. execute_selected mc Replay_code NoopMonitor_code b key ident) a a' record"
      by (rule follows_cong [OF conjunct2 [OF callback [OF mon(1)]] mon(2)])
        (use Delivery cancel rm now in \<open>simp add: execute_selected_def execute_delivery_def Let_def\<close>)
  qed (use conjunct1 [OF callback [OF mon(1)]] now in simp_all)
qed

section \<open>Replaying a recorded run\<close>

text \<open>
  \<open>mirrors f g a a' st new\<close>: the step \<open>st\<close> took \<open>a\<close> to \<open>a'\<close> and recorded \<open>new\<close>, and a replay that
  expects \<open>new\<close> next takes the same step; a step that completes needs the replay to be at its end.
\<close>

definition mirrors ::
  "(('m, 'e, replay, unit) simulation \<Rightarrow>
     (('m, 'e, replay, unit) simulation \<times> (('mx, 'nx, replay_divergence) step_error + 'o step) option) run) \<Rightarrow>
   ('m, 'e, 's, 'n trace) simulation \<Rightarrow> ('m, 'e, 's, 'n trace) simulation \<Rightarrow> 'o step \<Rightarrow> trace_entry list \<Rightarrow> bool" where
  "mirrors g a a' st new \<longleftrightarrow>
     trace_inv (sim_monitor a') \<and> Trace_entries (sim_monitor a') = Trace_entries (sim_monitor a) @ new \<and>
     ((\<exists>x. st = StepCompleted x) \<longrightarrow> sim_phase a' = Completed) \<and>
     (\<forall>past future. length (past @ new @ future) < 2 ^ 64 \<longrightarrow> ((\<exists>x. st = StepCompleted x) \<longrightarrow> future = []) \<longrightarrow>
        g (reseat a (replay_at past (new @ future) False) ()) =
          Ret (reseat a' (replay_at (past @ new) future False) (), Some (Inr st)))"

lemma mirrors_cong:
  "mirrors h b a' st new \<Longrightarrow> sim_monitor a = sim_monitor b \<Longrightarrow>
    (\<And>s n. g (reseat a s n) = h (reseat b s n)) \<Longrightarrow> mirrors g a a' st new"
  by (simp add: mirrors_def)

lemma mirrors_select:
  fixes mc :: "('m, 'e, 'o, 'mx) model_code" and sc :: "('s, 'sx) scheduler_code"
    and nc :: "('n, 'm, 'o, 'nx) monitor_code"
  assumes inv: "trace_inv (sim_monitor a)"
    and exec: "select_and_execute mc sc (Trace_code nc) a = Ret (a', Some (Inr st))"
  shows "\<exists>new. mirrors (\<lambda>b. select_and_execute mc Replay_code NoopMonitor_code b) a a' st new"
proof -
  obtain s c where choose: "sc_choose sc (sim_scheduler a) (Simulation_now a) (sim_ready a) = (s, c)"
    by fastforce
  obtain key where key: "c = Some (Inr key)" "ReadySet_contains (sim_ready a) key"
    using exec choose
    by (auto simp: select_and_execute_def Let_def split: option.splits sum.splits if_splits)
  obtain ident where ident: "sim_next_action a = Some ident"
    using exec choose key by (auto simp: select_and_execute_def Let_def split: option.splits)
  let ?a = "a \<lparr> sim_scheduler := s, sim_next_action := checked_add ident 1, sim_actions := sim_actions a + 1,
    sim_actions_at_moment := sim_actions_at_moment a + 1 \<rparr>"
  obtain r :: "(('mx, 'nx trace_error, 'sx) step_error + 'o action_record) option" where
    r: "execute_selected mc sc (Trace_code nc) ?a key ident = Ret (a', r)"
      "map_option (map_sum id StepAction) r = Some (Inr st)"
    using exec choose key ident by (auto simp: select_and_execute_def and_then_Ret_iff Let_def)
  then obtain rec where rec: "r = Some (Inr rec)" "st = StepAction rec"
    by (cases r; simp) (case_tac aa; auto)
  have inv': "trace_inv (sim_monitor ?a)"
    using inv by simp
  note follow = follows_selected [OF inv' r(1) [unfolded rec(1)]]
  have meta: "am_key (ar_meta rec) = key" "am_at (ar_meta rec) = Simulation_now a"
    using conjunct1 [OF follow] conjunct1 [OF conjunct2 [OF follow]] by simp_all
  let ?e = "TraceEntry_from_record rec"
  have mon: "trace_inv (sim_monitor a')" "Trace_entries (sim_monitor a') = Trace_entries (sim_monitor a) @ [?e]"
    using follows_recorded [OF conjunct2 [OF conjunct2 [OF follow]]] by simp_all
  have e: "trace_meta ?e = ar_meta rec"
    by (simp add: TraceEntry_from_record_def)
  show ?thesis
  proof (intro exI [of _ "[?e]"], unfold mirrors_def, intro conjI allI impI, goal_cases)
    case (4 past future)
    then have len: "length past < 2 ^ 64" "length (past @ ?e # future) < 2 ^ 64"
      by simp_all
    have "Replay_choose (replay_at past (?e # future) False) (Simulation_now a) (sim_ready a) =
        (replay_at past (?e # future) True, Some (Inr key))"
      using replay_at_choose [OF len(1), of ?e "Simulation_now a" "sim_ready a" future] key(2) meta e by simp
    moreover have replayed: "execute_selected mc Replay_code NoopMonitor_code
        (reseat (a \<lparr> sim_next_action := checked_add ident 1, sim_actions := sim_actions a + 1,
          sim_actions_at_moment := sim_actions_at_moment a + 1 \<rparr>) (replay_at past (?e # future) True) ()) key ident =
        Ret (reseat a' (replay_at (past @ [?e]) future False) (), Some (Inr rec))"
      using conjunct2 [OF conjunct2 [OF follow]] len(2) unfolding follows_def reseat_forget by blast
    ultimately show ?case
      using key ident rec
      by (simp add: select_and_execute_def Replay_code_def [THEN arg_cong, of sc_choose] replayed Let_def)
  qed (use mon rec in simp_all)
qed

lemma mirrors_advance:
  assumes inv: "trace_inv (sim_monitor a)" and step: "advance_or_finish sc a = Ret (a', Some (Inr st))"
  shows "mirrors (\<lambda>b. advance_or_finish Replay_code b) a a' st []"
proof (cases "length (sim_stopped a) = length (sim_topology a)")
  case True
  then have pending: "Timeline_pending (sim_timeline a) = []"
    using step by (auto simp: advance_or_finish_def split: list.splits prod.splits)
  obtain s where fin: "sc_finished sc (sim_scheduler a) = (s, Some (Inr ()))"
    using step True pending
    by (auto simp: advance_or_finish_def Let_def split: prod.splits option.splits sum.splits)
  let ?a = "a \<lparr> sim_scheduler := s, sim_phase := Completed \<rparr>"
  have res: "a' = ?a" "st = StepCompleted (Simulation_snapshot ?a)"
    using step True pending fin by (auto simp: advance_or_finish_def Let_def)
  have snap: "Simulation_snapshot ?a = Simulation_snapshot (a \<lparr> sim_phase := Completed \<rparr>)"
    by (simp add: Simulation_snapshot_def)
  have "reseat ?a u v = reseat (a \<lparr> sim_phase := Completed \<rparr>) u v" for u v
    by (simp add: reseat_def)
  then show ?thesis
    using inv True pending replay_at_finished
    by (auto simp: mirrors_def res snap advance_or_finish_def Let_def Replay_code_def)
next
  case False
  then show ?thesis
    using step inv
    by (auto simp: mirrors_def advance_or_finish_def and_then_Ret_iff Simulation_snapshot_def Let_def
        split: option.splits if_splits)
qed

lemma mirrors_step:
  fixes mc :: "('m, 'e, 'o, 'mx) model_code" and sc :: "('s, 'sx) scheduler_code"
    and nc :: "('n, 'm, 'o, 'nx) monitor_code"
  assumes inv: "trace_inv (sim_monitor a)"
    and step: "Simulation_step mc sc (Trace_code nc) a = Ret (a', Some (Inr st))"
  shows "\<exists>new. mirrors (\<lambda>b. Simulation_step mc Replay_code NoopMonitor_code b) a a' st new"
proof -
  have live: "\<not> sim_poisoned a" "sim_phase a = Active"
    using step by (auto simp: Simulation_step_def split: if_splits)
  obtain built where "build_ready a = Ret built"
    using step live by (auto simp: Simulation_step_def and_then_Ret_iff)
  moreover from this obtain ready where "built = Inr ready"
    using step live by (auto simp: Simulation_step_def split: sum.splits)
  ultimately have ready: "build_ready a = Ret (Inr ready)"
    by simp
  let ?a = "a \<lparr> sim_ready := ready \<rparr>"
  have inv': "trace_inv (sim_monitor ?a)" and mon: "sim_monitor a = sim_monitor ?a"
    using inv by simp_all
  show ?thesis
  proof (cases "ready = []")
    case True
    have adv: "advance_or_finish sc ?a = Ret (a', Some (Inr st) ::
        (('mx, 'nx trace_error, 'sx) step_error + 'o step) option)"
      using step live ready True by (simp add: Simulation_step_def Let_def)
    show ?thesis
      by (rule exI, rule mirrors_cong [OF mirrors_advance [OF inv' adv] mon])
        (use live ready True in \<open>simp add: Simulation_step_def Let_def\<close>)
  next
    case False
    have limits: "enforce_action_limits ?a = None"
      using step live ready False by (auto simp: Simulation_step_def Let_def split: option.splits)
    then have "select_and_execute mc sc (Trace_code nc) ?a = Ret (a', Some (Inr st))"
      using step live ready False by (simp add: Simulation_step_def Let_def)
    note selected = mirrors_select [OF inv' this]
    show ?thesis
      by (rule exE [OF selected], rule exI, rule mirrors_cong [OF _ mon], assumption)
        (use live ready False limits in \<open>simp add: Simulation_step_def Let_def\<close>)
  qed
qed

text \<open>Steps in a row, all of which must succeed.\<close>

fun run_steps ::
  "('m, 'e, 'o, 'mx) model_code \<Rightarrow> ('s, 'sx) scheduler_code \<Rightarrow> ('n, 'm, 'o, 'nx) monitor_code \<Rightarrow> nat \<Rightarrow>
   ('m, 'e, 's, 'n) simulation \<Rightarrow> (('m, 'e, 's, 'n) simulation \<times> 'o step list) option" where
  "run_steps mc sc nc 0 sim = Some (sim, [])"
| "run_steps mc sc nc (Suc n) sim =
     (case Simulation_step mc sc nc sim of
        Ret (sim', Some (Inr st)) \<Rightarrow>
          map_option (\<lambda>(final, sts). (final, st # sts)) (run_steps mc sc nc n sim')
      | _ \<Rightarrow> None)"

lemma step_inactive:
  "sim_phase sim \<noteq> Active \<Longrightarrow> \<exists>e. Simulation_step mc sc nc sim = Ret (sim, Some (Inl e))"
  by (simp add: Simulation_step_def)

lemma run_steps_mirrored:
  fixes mc :: "('m, 'e, 'o, 'mx) model_code" and sc :: "('s, 'sx) scheduler_code"
    and nc :: "('n, 'm, 'o, 'nx) monitor_code"
  assumes "trace_inv (sim_monitor a)" "run_steps mc sc (Trace_code nc) n a = Some (a', sts)"
  shows "trace_inv (sim_monitor a') \<and> (\<exists>new. Trace_entries (sim_monitor a') = Trace_entries (sim_monitor a) @ new \<and>
    (\<forall>past. length (past @ new) < 2 ^ 64 \<longrightarrow>
       run_steps mc Replay_code (NoopMonitor_code :: (unit, 'm, 'o, 'ny) monitor_code) n
         (reseat a (replay_at past new False) ()) =
         Some (reseat a' (replay_at (past @ new) [] False) (), sts)))"
  using assms
proof (induction n arbitrary: a sts)
  case 0
  then show ?case
    by simp
next
  case (Suc n)
  obtain a1 st where step: "Simulation_step mc sc (Trace_code nc) a = Ret (a1, Some (Inr st))"
    using Suc.prems(2) by (auto split: run.splits prod.splits option.splits sum.splits)
  then obtain sts' where rest: "run_steps mc sc (Trace_code nc) n a1 = Some (a', sts')" "sts = st # sts'"
    using Suc.prems(2) by auto
  obtain new1 where new1: "mirrors (\<lambda>b. Simulation_step mc Replay_code
      (NoopMonitor_code :: (unit, 'm, 'o, 'ny) monitor_code) b) a a1 st new1"
    by (rule exE [OF mirrors_step [OF Suc.prems(1) step]])
  obtain new2 where new2: "trace_inv (sim_monitor a')"
      "Trace_entries (sim_monitor a') = Trace_entries (sim_monitor a1) @ new2"
      "length (past @ new2) < 2 ^ 64 \<Longrightarrow> run_steps mc Replay_code (NoopMonitor_code :: (unit, 'm, 'o, 'ny) monitor_code) n
         (reseat a1 (replay_at past new2 False) ()) = Some (reseat a' (replay_at (past @ new2) [] False) (), sts')" for past
    using Suc.IH [OF _ rest(1)] new1 unfolding mirrors_def by blast
  have last: "new2 = []" if "st = StepCompleted x" for x
  proof -
    have "sim_phase a1 = Completed"
      using new1 that by (auto simp: mirrors_def)
    then have "n = 0"
      using rest(1) step_inactive [of a1 mc sc "Trace_code nc"] by (cases n) auto
    then show ?thesis
      using rest(1) new2(2) by simp
  qed
  have "run_steps mc Replay_code (NoopMonitor_code :: (unit, 'm, 'o, 'ny) monitor_code) (Suc n)
      (reseat a (replay_at past (new1 @ new2) False) ()) =
      Some (reseat a' (replay_at (past @ new1 @ new2) [] False) (), sts)"
    if "length (past @ new1 @ new2) < 2 ^ 64" for past
  proof -
    have "Simulation_step mc Replay_code (NoopMonitor_code :: (unit, 'm, 'o, 'ny) monitor_code)
        (reseat a (replay_at past (new1 @ new2) False) ()) =
        Ret (reseat a1 (replay_at (past @ new1) new2 False) (), Some (Inr st))"
      using new1 that last unfolding mirrors_def by blast
    then show ?thesis
      using new2(3) [of "past @ new1"] that rest(2) by simp
  qed
  then show ?case
    using new1 new2(1,2) by (auto simp: mirrors_def)
qed

section \<open>Theorems\<close>

text \<open>
  C3. A recorded run replays exactly. Take any run of successful steps, under any model, scheduler
  and inner monitor, that was recorded by a trace that started empty. Put the simulation the run
  started from under the replay scheduler built from the trace: as many steps of it all succeed and
  are equal to the recorded ones, observations, identities, causes and advances of time included;
  the model, the timeline, the duties and the counters end equal; and the replay is complete.
\<close>

theorem recorded_run_replays:
  fixes mc :: "('m, 'e, 'o, 'mx) model_code" and sc :: "('s, 'sx) scheduler_code"
    and nc :: "('n, 'm, 'o, 'nx) monitor_code"
  assumes "sim_monitor sim = Trace_with_monitor limits inner"
    and "run_steps mc sc (Trace_code nc) n sim = Some (sim', sts)"
  shows "\<exists>replayed. run_steps mc Replay_code (NoopMonitor_code :: (unit, 'm, 'o, 'ny) monitor_code) n
      (reseat sim (Trace_replay (sim_monitor sim')) ()) = Some (reseat sim' replayed (), sts) \<and>
    Replay_is_complete replayed"
proof -
  have start: "trace_inv (sim_monitor sim)" "Trace_entries (sim_monitor sim) = []"
    using assms(1) trace_inv_new
    by (simp_all add: Trace_entries_def EventBatch_iter_def Trace_with_monitor_def EventBatch_with_measure_def)
  obtain new where new: "trace_inv (sim_monitor sim')" "Trace_entries (sim_monitor sim') = new"
      "length new < 2 ^ 64 \<Longrightarrow> run_steps mc Replay_code (NoopMonitor_code :: (unit, 'm, 'o, 'ny) monitor_code) n
         (reseat sim (replay_at [] new False) ()) = Some (reseat sim' (replay_at new [] False) (), sts)"
    using run_steps_mirrored [OF start(1) assms(2)] start(2) by (metis append_Nil)
  have len: "length new < 2 ^ 64"
    using Trace_entries_length [OF new(1)] new(2) by simp
  have "Replay_is_complete (replay_at new [] False)"
    using replay_at_cursor [OF len, of "[]" False]
    by (simp add: Replay_is_complete_def Replay_remaining_def) (simp add: replay_at_def)
  then show ?thesis
    using new(3) [OF len] new(2) by (auto simp: Trace_replay_def replay_at_start)
qed

definition trace_limits_demo :: trace_limits where
  "trace_limits_demo = \<lparr> trl_entries = 16, trl_retained_bytes = 0 \<rparr>"

definition recorded_demo :: "(unit, nat, seeded, unit trace) simulation" where
  "recorded_demo = reseat simulation_demo (Seeded_new 7 1) (Trace_with_monitor trace_limits_demo ())"

theorem recorded_run_replays_witness:
  "\<exists>sim' sts replayed.
    run_steps turn_model_demo Seeded_code (Trace_code (NoopMonitor_code :: (unit, unit, unit, unit) monitor_code)) 3
      recorded_demo = Some (sim', sts) \<and>
    run_steps turn_model_demo Replay_code (NoopMonitor_code :: (unit, unit, unit, unit) monitor_code) 3
      (reseat recorded_demo (Trace_replay (sim_monitor sim')) ()) = Some (reseat sim' replayed (), sts) \<and>
    Replay_is_complete replayed"
proof -
  let ?run = "run_steps turn_model_demo Seeded_code
    (Trace_code (NoopMonitor_code :: (unit, unit, unit, unit) monitor_code)) 3 recorded_demo"
  have "case ?run of None \<Rightarrow> False | Some (sim', sts) \<Rightarrow> length sts = 3"
    by code_simp
  then obtain sim' sts where run: "?run = Some (sim', sts)"
    by (rule case_optionE) auto
  have "sim_monitor recorded_demo = Trace_with_monitor trace_limits_demo ()"
    by (simp add: recorded_demo_def)
  from recorded_run_replays [OF this run] run show ?thesis
    by blast
qed

end
