(* ===== verification/Script.thy ===== *)
theory Script
  imports Ledger Sim_Event
begin

text \<open>
  The exact script (\<open>script/\<close>): a finite list of expected requests with planned responses, admitted
  whole under count and byte limits, and answered strictly in order.

  The two measures are the \<open>Retained\<close> implementations of the request and response types.
\<close>

section \<open>State\<close>

record 'r plan =
  plan_outcomes :: "'r planned list"

definition Plan_empty :: "'r plan" where
  "Plan_empty = \<lparr> plan_outcomes = [] \<rparr>"

definition Plan_single :: "'r planned \<Rightarrow> 'r plan" where
  "Plan_single outcome = \<lparr> plan_outcomes = [outcome] \<rparr>"

definition Plan_len :: "'r plan \<Rightarrow> nat" where
  "Plan_len self = length (plan_outcomes self)"

record ('q, 'r) script_step =
  step_expected :: 'q
  step_response :: "'r plan"

record script_limits =
  scl_steps :: usize
  scl_outcomes :: usize
  scl_retained_bytes :: retained_bytes

datatype script_build_failure =
  StepCapacity usize nat
| OutcomeCapacity usize nat
| OutcomeCountOverflow
| ScriptRetainedOverflow
| ScriptRetainedCapacity retained_bytes retained_bytes

record ('q, 'r) script_build_error =
  sbe_steps :: "('q, 'r) script_step list"
  sbe_failure :: script_build_failure

datatype script_failure = ScriptExhausted | ScriptMismatch

record ('q, 'r) measured_step =
  ms_step :: "('q, 'r) script_step"
  ms_retained :: retained_bytes

record ('q, 'r) exact_script =
  es_limits :: script_limits
  es_retained :: retained_bytes
  es_steps :: "('q, 'r) measured_step list"

section \<open>Operations\<close>

fun count_outcomes_from :: "nat \<Rightarrow> ('q, 'r) script_step list \<Rightarrow> script_build_failure + nat" where
  "count_outcomes_from acc [] = Inr acc"
| "count_outcomes_from acc (step # steps) =
     (if acc + Plan_len (step_response step) < 2 ^ 64
      then count_outcomes_from (acc + Plan_len (step_response step)) steps
      else Inl OutcomeCountOverflow)"

definition count_outcomes :: "('q, 'r) script_step list \<Rightarrow> script_build_failure + nat" where
  "count_outcomes steps = count_outcomes_from 0 steps"

fun add_outcomes :: "('r \<Rightarrow> retained_bytes) \<Rightarrow> retained_bytes \<Rightarrow> 'r planned list \<Rightarrow> retained_bytes option" where
  "add_outcomes r_bytes acc [] = Some acc"
| "add_outcomes r_bytes acc (outcome # outcomes) =
     (case RetainedBytes_checked_add acc (r_bytes (planned_outcome outcome)) of
        None \<Rightarrow> None
      | Some acc \<Rightarrow> add_outcomes r_bytes acc outcomes)"

definition measure_step ::
  "('q \<Rightarrow> retained_bytes) \<Rightarrow> ('r \<Rightarrow> retained_bytes) \<Rightarrow> ('q, 'r) script_step \<Rightarrow> retained_bytes option" where
  "measure_step q_bytes r_bytes step =
     add_outcomes r_bytes (q_bytes (step_expected step)) (plan_outcomes (step_response step))"

fun measure_steps_from ::
  "('q \<Rightarrow> retained_bytes) \<Rightarrow> ('r \<Rightarrow> retained_bytes) \<Rightarrow> retained_bytes \<Rightarrow> retained_bytes list \<Rightarrow>
   ('q, 'r) script_step list \<Rightarrow> script_build_failure + retained_bytes \<times> retained_bytes list" where
  "measure_steps_from q_bytes r_bytes acc measurements [] = Inr (acc, measurements)"
| "measure_steps_from q_bytes r_bytes acc measurements (step # steps) =
     (case measure_step q_bytes r_bytes step of
        None \<Rightarrow> Inl ScriptRetainedOverflow
      | Some measured \<Rightarrow>
          (case RetainedBytes_checked_add acc measured of
             None \<Rightarrow> Inl ScriptRetainedOverflow
           | Some acc \<Rightarrow> measure_steps_from q_bytes r_bytes acc (measurements @ [measured]) steps))"

definition measure_steps ::
  "('q \<Rightarrow> retained_bytes) \<Rightarrow> ('r \<Rightarrow> retained_bytes) \<Rightarrow> ('q, 'r) script_step list \<Rightarrow>
   script_build_failure + retained_bytes \<times> retained_bytes list" where
  "measure_steps q_bytes r_bytes steps = measure_steps_from q_bytes r_bytes RetainedBytes_ZERO [] steps"

definition ExactScript_try_new ::
  "('q \<Rightarrow> retained_bytes) \<Rightarrow> ('r \<Rightarrow> retained_bytes) \<Rightarrow> script_limits \<Rightarrow> ('q, 'r) script_step list \<Rightarrow>
   ('q, 'r) script_build_error + ('q, 'r) exact_script" where
  "ExactScript_try_new q_bytes r_bytes limits steps =
     (let rejected = (\<lambda>failure. Inl \<lparr> sbe_steps = steps, sbe_failure = failure \<rparr>) in
      if unat (scl_steps limits) < length steps
      then rejected (StepCapacity (scl_steps limits) (length steps))
      else case count_outcomes steps of
        Inl failure \<Rightarrow> rejected failure
      | Inr outcomes \<Rightarrow>
          if unat (scl_outcomes limits) < outcomes
          then rejected (OutcomeCapacity (scl_outcomes limits) outcomes)
          else case measure_steps q_bytes r_bytes steps of
            Inl failure \<Rightarrow> rejected failure
          | Inr (retained, measurements) \<Rightarrow>
              if scl_retained_bytes limits < retained
              then rejected (ScriptRetainedCapacity (scl_retained_bytes limits) retained)
              else Inr \<lparr> es_limits = limits, es_retained = retained,
                         es_steps = map (\<lambda>(step, retained). \<lparr> ms_step = step, ms_retained = retained \<rparr>)
                           (zip steps measurements) \<rparr>)"

definition ExactScript_len :: "('q, 'r) exact_script \<Rightarrow> nat" where
  "ExactScript_len self = length (es_steps self)"

definition ExactScript_is_empty :: "('q, 'r) exact_script \<Rightarrow> bool" where
  "ExactScript_is_empty self \<longleftrightarrow> es_steps self = []"

definition ExactScript_expected :: "('q, 'r) exact_script \<Rightarrow> 'q option" where
  "ExactScript_expected self =
     (case es_steps self of [] \<Rightarrow> None | measured # _ \<Rightarrow> Some (step_expected (ms_step measured)))"

definition ExactScript_respond ::
  "('q, 'r) exact_script \<Rightarrow> 'q \<Rightarrow> (('q, 'r) exact_script \<times> (script_failure + 'r plan)) run" where
  "ExactScript_respond self request =
     (case es_steps self of
        [] \<Rightarrow> Ret (self, Inl ScriptExhausted)
      | measured # rest \<Rightarrow>
          if step_expected (ms_step measured) \<noteq> request then Ret (self, Inl ScriptMismatch)
          else and_then (expect (RetainedBytes_checked_sub (es_retained self) (ms_retained measured)))
            (\<lambda>retained.
               Ret (self \<lparr> es_steps := rest, es_retained := retained \<rparr>,
                    Inr (step_response (ms_step measured)))))"

section \<open>Measuring\<close>

definition step_size :: "('q \<Rightarrow> retained_bytes) \<Rightarrow> ('r \<Rightarrow> retained_bytes) \<Rightarrow> ('q, 'r) script_step \<Rightarrow> nat" where
  "step_size q_bytes r_bytes step =
     unat (q_bytes (step_expected step)) +
     (\<Sum>outcome\<leftarrow>plan_outcomes (step_response step). unat (r_bytes (planned_outcome outcome)))"

lemma count_outcomes_from_eq:
  "count_outcomes_from acc steps =
    (if acc + (\<Sum>step\<leftarrow>steps. Plan_len (step_response step)) < 2 ^ 64 \<or> steps = []
     then Inr (acc + (\<Sum>step\<leftarrow>steps. Plan_len (step_response step))) else Inl OutcomeCountOverflow)"
  by (induction acc steps rule: count_outcomes_from.induct) auto

lemma add_outcomes_eq:
  "case add_outcomes r_bytes acc outcomes of
     None \<Rightarrow> 2 ^ 64 \<le> unat acc + (\<Sum>outcome\<leftarrow>outcomes. unat (r_bytes (planned_outcome outcome)))
   | Some b \<Rightarrow> unat b = unat acc + (\<Sum>outcome\<leftarrow>outcomes. unat (r_bytes (planned_outcome outcome)))"
proof (induction r_bytes acc outcomes rule: add_outcomes.induct)
  case (2 r_bytes acc outcome outcomes)
  show ?case
  proof (cases "RetainedBytes_checked_add acc (r_bytes (planned_outcome outcome))")
    case None
    then have "2 ^ 64 \<le> unat acc + unat (r_bytes (planned_outcome outcome))"
      by (simp add: RetainedBytes_checked_add_def checked_add_None_iff)
    then show ?thesis
      using None by simp
  next
    case (Some t)
    then have "unat t = unat acc + unat (r_bytes (planned_outcome outcome))"
      by (simp add: RetainedBytes_checked_add_def checked_add_SomeD)
    then show ?thesis
      using 2 [OF Some] Some by (auto split: option.splits)
  qed
qed simp

lemma measure_step_eq:
  "case measure_step q_bytes r_bytes step of
     None \<Rightarrow> 2 ^ 64 \<le> step_size q_bytes r_bytes step | Some b \<Rightarrow> unat b = step_size q_bytes r_bytes step"
  using add_outcomes_eq [where r_bytes = r_bytes and acc = "q_bytes (step_expected step)"
      and outcomes = "plan_outcomes (step_response step)"]
  unfolding measure_step_def step_size_def .

lemma measure_steps_from_eq:
  "case measure_steps_from q_bytes r_bytes acc ms steps of
     Inl _ \<Rightarrow> 2 ^ 64 \<le> unat acc + (\<Sum>step\<leftarrow>steps. step_size q_bytes r_bytes step)
   | Inr (b, ms') \<Rightarrow> unat b = unat acc + (\<Sum>step\<leftarrow>steps. step_size q_bytes r_bytes step) \<and>
       (\<exists>new. ms' = ms @ new \<and> map unat new = map (step_size q_bytes r_bytes) steps)"
proof (induction q_bytes r_bytes acc ms steps rule: measure_steps_from.induct)
  case (2 q_bytes r_bytes acc ms step steps)
  show ?case
  proof (cases "measure_step q_bytes r_bytes step")
    case None
    then show ?thesis
      using measure_step_eq [where q_bytes = q_bytes and r_bytes = r_bytes and step = step] by simp
  next
    case measured: (Some m)
    then have m: "unat m = step_size q_bytes r_bytes step"
      using measure_step_eq [where q_bytes = q_bytes and r_bytes = r_bytes and step = step] by simp
    show ?thesis
    proof (cases "RetainedBytes_checked_add acc m")
      case None
      then have "2 ^ 64 \<le> unat acc + step_size q_bytes r_bytes step"
        using m by (simp add: RetainedBytes_checked_add_def checked_add_None_iff)
      then show ?thesis
        using measured None by simp
    next
      case (Some t)
      then have t: "unat t = unat acc + step_size q_bytes r_bytes step"
        using m by (simp add: RetainedBytes_checked_add_def checked_add_SomeD)
      show ?thesis
      proof (cases "measure_steps_from q_bytes r_bytes t (ms @ [m]) steps")
        case (Inl f)
        then show ?thesis
          using 2 [OF measured Some] measured Some t by simp
      next
        case (Inr p)
        obtain b ms' where p: "p = (b, ms')"
          by fastforce
        obtain new where "ms' = ms @ m # new" "map unat new = map (step_size q_bytes r_bytes) steps"
            "unat b = unat t + (\<Sum>step\<leftarrow>steps. step_size q_bytes r_bytes step)"
          using 2 [OF measured Some] Inr p by auto
        then show ?thesis
          using measured Some t Inr p m by (auto intro: exI [of _ "m # new"])
      qed
    qed
  qed
qed simp

section \<open>Invariant\<close>

definition script_sizes :: "('q, 'r) exact_script \<Rightarrow> retained_bytes multiset" where
  "script_sizes s = mset (map ms_retained (es_steps s))"

definition script_inv :: "('q, 'r) exact_script \<Rightarrow> bool" where
  "script_inv s \<longleftrightarrow>
     length (es_steps s) \<le> unat (scl_steps (es_limits s)) \<and>
     es_retained s \<le> scl_retained_bytes (es_limits s) \<and>
     unat (es_retained s) = total_bytes (script_sizes s)"

interpretation scripts: byte_ledger script_inv es_retained script_sizes
  "\<lambda>s. scl_retained_bytes (es_limits s)" "\<lambda>s. unat (scl_steps (es_limits s))"
  by unfold_locales (auto simp: script_inv_def script_sizes_def)

definition script_remaining :: "('q, 'r) exact_script \<Rightarrow> ('q, 'r) script_step list" where
  "script_remaining s = map ms_step (es_steps s)"

lemma respond_match:
  assumes inv: "script_inv s" and rest: "es_steps s = m # rest" and req: "step_expected (ms_step m) = req"
  shows "\<exists>s'. ExactScript_respond s req = Ret (s', Inr (step_response (ms_step m))) \<and> script_inv s' \<and>
    es_steps s' = rest \<and> unat (es_retained s) = unat (es_retained s') + unat (ms_retained m)"
proof -
  have size: "ms_retained m \<in># script_sizes s" "script_sizes s - {#ms_retained m#} = mset (map ms_retained rest)"
    by (simp_all add: script_sizes_def rest)
  let ?s = "s \<lparr> es_steps := rest, es_retained := es_retained s - ms_retained m \<rparr>"
  have "ExactScript_respond s req = Ret (?s, Inr (step_response (ms_step m)))"
    using rest req scripts.release [OF inv size(1)] by (simp add: ExactScript_respond_def)
  moreover have "script_inv ?s"
    using inv rest scripts.release_balanced [OF inv size(1)] scripts.release_within [OF inv size(1)] size(2)
    by (simp add: script_inv_def script_sizes_def)
  moreover have "unat (es_retained s) = unat (es_retained ?s) + unat (ms_retained m)"
    using scripts.entry_le [OF inv size(1)] by (simp add: unat_sub word_le_nat_alt)
  ultimately show ?thesis
    by (intro exI [of _ ?s]) simp
qed

text \<open>A sequence of requests and the answers they get.\<close>

fun script_serve :: "('q, 'r) exact_script \<Rightarrow> 'q list \<Rightarrow> (('q, 'r) exact_script \<times> (script_failure + 'r plan) list) run" where
  "script_serve s [] = Ret (s, [])"
| "script_serve s (req # reqs) =
     and_then (ExactScript_respond s req) (\<lambda>(s', answer).
       and_then (script_serve s' reqs) (\<lambda>(s'', answers). Ret (s'', answer # answers)))"

definition answered :: "(script_failure + 'r plan) list \<Rightarrow> 'r plan list" where
  "answered answers = List.map_filter (\<lambda>answer. case answer of Inl _ \<Rightarrow> None | Inr plan \<Rightarrow> Some plan) answers"

lemma answered_simps [simp]:
  "answered [] = []" "answered (Inl f # rest) = answered rest" "answered (Inr plan # rest) = plan # answered rest"
  by (simp_all add: answered_def map_filter_simps)

lemma respond_cases:
  assumes "script_inv s"
  obtains (exhausted) "ExactScript_respond s req = Ret (s, Inl ScriptExhausted)" "es_steps s = []"
  | (mismatched) m rest where "es_steps s = m # rest" "step_expected (ms_step m) \<noteq> req"
      "ExactScript_respond s req = Ret (s, Inl ScriptMismatch)"
  | (matched) m rest s' where "es_steps s = m # rest" "step_expected (ms_step m) = req"
      "ExactScript_respond s req = Ret (s', Inr (step_response (ms_step m)))" "script_inv s'" "es_steps s' = rest"
proof (cases "es_steps s")
  case Nil
  then show ?thesis
    by (intro exhausted) (simp_all add: ExactScript_respond_def)
next
  case (Cons m rest)
  show ?thesis
  proof (cases "step_expected (ms_step m) = req")
    case True
    then show ?thesis
      using respond_match [OF assms Cons] matched [OF Cons] by blast
  next
    case False
    then show ?thesis
      using Cons by (intro mismatched) (simp_all add: ExactScript_respond_def)
  qed
qed

lemma script_build_facts:
  "case ExactScript_try_new q_bytes r_bytes limits steps of
     Inl err \<Rightarrow> sbe_steps err = steps \<and>
       \<not> (length steps \<le> unat (scl_steps limits) \<and>
         (\<Sum>step\<leftarrow>steps. Plan_len (step_response step)) \<le> unat (scl_outcomes limits) \<and>
         (\<Sum>step\<leftarrow>steps. step_size q_bytes r_bytes step) \<le> unat (scl_retained_bytes limits))
   | Inr s \<Rightarrow> script_inv s \<and> script_remaining s = steps \<and> es_limits s = limits \<and>
       length steps \<le> unat (scl_steps limits) \<and>
       (\<Sum>step\<leftarrow>steps. Plan_len (step_response step)) \<le> unat (scl_outcomes limits) \<and>
       unat (es_retained s) = (\<Sum>step\<leftarrow>steps. step_size q_bytes r_bytes step)"
proof (cases "length steps \<le> unat (scl_steps limits) \<and>
    (\<Sum>step\<leftarrow>steps. Plan_len (step_response step)) \<le> unat (scl_outcomes limits)")
  case False
  then show ?thesis
    using unat_less_exp [of "scl_outcomes limits"]
    by (auto simp: ExactScript_try_new_def count_outcomes_def count_outcomes_from_eq not_le Let_def)
next
  case True
  let ?n = "\<Sum>step\<leftarrow>steps. Plan_len (step_response step)"
  have count: "count_outcomes steps = Inr ?n"
    using True unat_less_exp [of "scl_outcomes limits"]
    by (simp add: count_outcomes_def count_outcomes_from_eq order.strict_trans1)
  note measured = measure_steps_from_eq [where q_bytes = q_bytes and r_bytes = r_bytes and
      acc = RetainedBytes_ZERO and ms = "[]" and steps = steps, folded measure_steps_def]
  show ?thesis
  proof (cases "measure_steps q_bytes r_bytes steps")
    case (Inl f)
    then show ?thesis
      using True count measured unat_less_exp [of "scl_retained_bytes limits"]
      by (simp add: ExactScript_try_new_def RetainedBytes_ZERO_def not_less)
  next
    case (Inr p)
    then obtain b ms where p: "measure_steps q_bytes r_bytes steps = Inr (b, ms)"
        "unat b = (\<Sum>step\<leftarrow>steps. step_size q_bytes r_bytes step)"
        "map unat ms = map (step_size q_bytes r_bytes) steps"
      using measured by (auto simp: RetainedBytes_ZERO_def split: prod.splits)
    have len: "length ms = length steps"
      using arg_cong [OF p(3), of length] by simp
    have "total_bytes (mset ms) = (\<Sum>step\<leftarrow>steps. step_size q_bytes r_bytes step)"
      unfolding total_bytes_def p(3) [symmetric] by (simp add: sum_mset_sum_list flip: mset_map)
    moreover define zipped where "zipped = map (\<lambda>(step, retained). \<lparr> ms_step = step, ms_retained = retained \<rparr>) (zip steps ms)"
    have "map ms_retained zipped = ms" "map ms_step zipped = steps" "length zipped = length steps"
      using len by (simp_all add: zipped_def case_prod_unfold o_def)
    ultimately show ?thesis
      using True count p(1,2)
      by (auto simp: ExactScript_try_new_def Let_def script_inv_def script_remaining_def script_sizes_def
          word_less_nat_alt word_le_nat_alt simp del: mset_map simp flip: zipped_def)
  qed
qed

section \<open>Answers\<close>

text \<open>What a request is due when \<open>k\<close> steps have been consumed.\<close>

definition due_answer :: "('q, 'r) script_step list \<Rightarrow> nat \<Rightarrow> 'q \<Rightarrow> script_failure + 'r plan" where
  "due_answer steps k req =
     (if length steps \<le> k then Inl ScriptExhausted
      else if step_expected (steps ! k) \<noteq> req then Inl ScriptMismatch
      else Inr (step_response (steps ! k)))"

lemma due_answer_simps [simp]:
  "due_answer [] k req = Inl ScriptExhausted"
  "due_answer (step # steps) 0 req =
     (if step_expected step \<noteq> req then Inl ScriptMismatch else Inr (step_response step))"
  "due_answer (step # steps) (Suc k) req = due_answer steps k req"
  by (simp_all add: due_answer_def)

lemma serve_due:
  assumes "script_inv s" "script_serve s reqs = Ret (s', answers)" "i < length reqs"
  shows "answers ! i = due_answer (script_remaining s) (length (answered (take i answers))) (reqs ! i)"
  using assms
proof (induction reqs arbitrary: s answers i)
  case (Cons req reqs)
  obtain s1 a rest where first: "ExactScript_respond s req = Ret (s1, a)"
    and rest: "script_serve s1 reqs = Ret (s', rest)" and answers: "answers = a # rest"
    using Cons.prems(2) by (auto simp: and_then_Ret_iff)
  note IH = Cons.IH [OF _ rest]
  show ?case
  proof (rule respond_cases [OF Cons.prems(1), of req], goal_cases)
    case 1
    then show ?case
      using first answers IH Cons.prems(1,3) by (cases i) (auto simp: script_remaining_def)
  next
    case (2 m left)
    then show ?case
      using first answers IH Cons.prems(1,3) by (cases i) (auto simp: script_remaining_def)
  next
    case (3 m left s2)
    then show ?case
      using first answers IH Cons.prems(3) by (cases i) (auto simp: script_remaining_def)
  qed
qed simp

lemma serve_in_order:
  assumes "script_inv s"
  shows "\<exists>s' answers. script_serve s reqs = Ret (s', answers) \<and> script_inv s' \<and>
    length answers = length reqs \<and>
    script_remaining s = take (length (answered answers)) (script_remaining s) @ script_remaining s' \<and>
    answered answers = map step_response (take (length (answered answers)) (script_remaining s)) \<and>
    (reqs = map step_expected (script_remaining s) \<longrightarrow>
       answers = map (Inr \<circ> step_response) (script_remaining s) \<and> ExactScript_is_empty s' \<and> es_retained s' = 0)"
  using assms
proof (induction reqs arbitrary: s)
  case Nil
  then show ?case
    using scripts.empty_total [OF Nil]
    by (auto simp: script_remaining_def ExactScript_is_empty_def script_sizes_def)
next
  case (Cons req reqs)
  show ?case
  proof (rule respond_cases [OF Cons.prems, of req], goal_cases)
    case 1
    then show ?case
      using Cons.IH [OF Cons.prems] by (auto simp: script_remaining_def)
  next
    case (2 m rest)
    then show ?case
      using Cons.IH [OF Cons.prems] by (auto simp: script_remaining_def)
  next
    case (3 m rest s')
    from Cons.IH [OF 3(4)] 3 show ?case
      by (auto simp: script_remaining_def)
  qed
qed

section \<open>Theorems\<close>

text \<open>
  C34. A script is admitted exactly when its steps, its outcomes and the bytes of its requests and
  outcomes are within their limits, as exact sums that no overflow can hide; it then holds the
  steps in order. Otherwise every step comes back in order.
\<close>

theorem script_build_exact:
  "case ExactScript_try_new q_bytes r_bytes limits steps of
     Inl err \<Rightarrow> sbe_steps err = steps \<and>
       \<not> (length steps \<le> unat (scl_steps limits) \<and>
         (\<Sum>step\<leftarrow>steps. Plan_len (step_response step)) \<le> unat (scl_outcomes limits) \<and>
         (\<Sum>step\<leftarrow>steps. step_size q_bytes r_bytes step) \<le> unat (scl_retained_bytes limits))
   | Inr s \<Rightarrow> script_inv s \<and> script_remaining s = steps \<and> es_limits s = limits \<and>
       length steps \<le> unat (scl_steps limits) \<and>
       (\<Sum>step\<leftarrow>steps. Plan_len (step_response step)) \<le> unat (scl_outcomes limits) \<and>
       unat (es_retained s) = (\<Sum>step\<leftarrow>steps. step_size q_bytes r_bytes step)"
  by (rule script_build_facts)

text \<open>
  C33. A script answers strictly in order, and refuses whatever does not match. For any sequence of
  requests no accounting panics. A request that meets the end of the script is told that it is
  exhausted; one that is not the next expected one is refused as a mismatch; the next expected one
  gets its plan; and only the last consumes a step, so the next request meets the step after those
  already answered. The steps not consumed remain in order, retaining exactly their bytes. Requests
  that follow the script are all answered, and leave it empty, retaining no byte.
\<close>

theorem script_answers_in_order:
  assumes "script_inv s"
  shows "\<exists>s' answers. script_serve s reqs = Ret (s', answers) \<and> script_inv s' \<and>
    length answers = length reqs \<and>
    (\<forall>i<length reqs.
       answers ! i = due_answer (script_remaining s) (length (answered (take i answers))) (reqs ! i)) \<and>
    script_remaining s = take (length (answered answers)) (script_remaining s) @ script_remaining s' \<and>
    unat (es_retained s') = total_bytes (script_sizes s') \<and>
    answered answers = map step_response (take (length (answered answers)) (script_remaining s)) \<and>
    (reqs = map step_expected (script_remaining s) \<longrightarrow>
       answers = map (Inr \<circ> step_response) (script_remaining s) \<and> ExactScript_is_empty s' \<and> es_retained s' = 0)"
proof -
  from serve_in_order [OF assms, of reqs] obtain s' answers where served: "script_serve s reqs = Ret (s', answers)"
    "script_inv s'" and order: "length answers = length reqs"
    "script_remaining s = take (length (answered answers)) (script_remaining s) @ script_remaining s'"
    "answered answers = map step_response (take (length (answered answers)) (script_remaining s))"
    "reqs = map step_expected (script_remaining s) \<longrightarrow>
       answers = map (Inr \<circ> step_response) (script_remaining s) \<and> ExactScript_is_empty s' \<and> es_retained s' = 0"
    by blast
  then show ?thesis
    using serve_due [OF assms served(1)] served(2) by (intro exI [of _ s'] exI [of _ answers]) (simp add: script_inv_def)
qed

definition script_demo :: "(nat, nat) script_step list" where
  "script_demo = [\<lparr> step_expected = 1, step_response = Plan_single \<lparr> planned_delay = 5, planned_outcome = 7 \<rparr> \<rparr>,
     \<lparr> step_expected = 2, step_response = Plan_empty \<rparr>]"

definition script_limits_demo :: script_limits where
  "script_limits_demo = \<lparr> scl_steps = 4, scl_outcomes = 4, scl_retained_bytes = 100 \<rparr>"

theorem script_answers_in_order_witness:
  "case ExactScript_try_new of_nat of_nat script_limits_demo script_demo of
     Inl _ \<Rightarrow> False
   | Inr s \<Rightarrow> \<exists>s' answers. script_serve s [1, 1, 2, 2] = Ret (s', answers) \<and>
       answers ! 0 = Inr (step_response (script_demo ! 0)) \<and> answers ! 1 = Inl ScriptMismatch"
proof -
  have "case ExactScript_try_new of_nat of_nat script_limits_demo script_demo of
      Inl _ \<Rightarrow> False | Inr s \<Rightarrow> length (es_steps s) = 2 \<and> es_retained s = 10"
    by code_simp
  then obtain s where s: "ExactScript_try_new of_nat of_nat script_limits_demo script_demo = Inr s"
    by (cases "ExactScript_try_new of_nat of_nat script_limits_demo script_demo") simp_all
  have inv: "script_inv s" "script_remaining s = script_demo"
    using script_build_facts [where q_bytes = of_nat and r_bytes = of_nat and limits = script_limits_demo
        and steps = script_demo] s by simp_all
  obtain s' answers where served: "script_serve s [1, 1, 2, 2] = Ret (s', answers)" "length answers = 4"
    and exact: "\<And>i. i < 4 \<Longrightarrow> answers ! i = due_answer script_demo (length (answered (take i answers))) ([1, 1, 2, 2] ! i)"
    using script_answers_in_order [OF inv(1), of "[1, 1, 2, 2]"] unfolding inv(2) by (elim exE conjE) simp
  obtain a rest where a: "answers = a # rest"
    using served(2) by (cases answers) simp_all
  have first: "answers ! 0 = Inr (step_response (script_demo ! 0))"
    using exact [of 0] by (simp add: script_demo_def)
  moreover have "answers ! 1 = Inl ScriptMismatch"
    using exact [of 1] first a by (simp add: script_demo_def)
  ultimately show ?thesis
    using s served(1) by auto
qed

end
