(* ===== verification/Wake.thy ===== *)
theory Wake
  imports Prelude
begin

text \<open>
  Coalesced wakes (\<open>wake.rs\<close>): an atomic phase shared by any number of waking threads and one
  acknowledging owner. Every atomic access of the code is one step of a transition system, so every
  interleaving of the threads is a run of it.

  The ghost fields count the backend calls that succeeded and the acknowledgements that took effect;
  note for each thread whether one took effect since its call began; and say whether a success
  stands that no acknowledgement has followed, and, for each thread, whether its call is backed by
  one: by a backend call that succeeded since it began, or before, with no acknowledgement between.
\<close>

section \<open>Phases\<close>

definition IDLE :: u8 where "IDLE = 0"
definition WAKING :: u8 where "WAKING = 1"
definition REQUESTED :: u8 where "REQUESTED = 2"
definition WAKING_ACKNOWLEDGED :: u8 where "WAKING_ACKNOWLEDGED = 3"
definition SPIN_LIMIT :: nat where "SPIN_LIMIT = 64"

lemma phase_distinct [simp]:
  "IDLE \<noteq> WAKING" "WAKING \<noteq> IDLE" "IDLE \<noteq> REQUESTED" "REQUESTED \<noteq> IDLE"
  "IDLE \<noteq> WAKING_ACKNOWLEDGED" "WAKING_ACKNOWLEDGED \<noteq> IDLE" "WAKING \<noteq> REQUESTED" "REQUESTED \<noteq> WAKING"
  "WAKING \<noteq> WAKING_ACKNOWLEDGED" "WAKING_ACKNOWLEDGED \<noteq> WAKING"
  "REQUESTED \<noteq> WAKING_ACKNOWLEDGED" "WAKING_ACKNOWLEDGED \<noteq> REQUESTED"
  by (simp_all add: IDLE_def WAKING_def REQUESTED_def WAKING_ACKNOWLEDGED_def)

definition known_phase :: "u8 \<Rightarrow> bool" where
  "known_phase p \<longleftrightarrow> p = IDLE \<or> p = WAKING \<or> p = REQUESTED \<or> p = WAKING_ACKNOWLEDGED"

section \<open>Threads\<close>

text \<open>
  Where a thread stands in \<open>wake\<close>: at the loop's load, before its exchange, in the backend call, or
  in one of the accesses of \<open>finish_wake\<close>. \<open>WakeReturned ok\<close> is a call that has returned.
\<close>

datatype wake_pc =
  WakeLoad nat
| WakeExchange nat
| WakeSource
| FinishExchange
| FinishStore
| FinishSwap
| WakeReturned bool

text \<open>Where the owner stands in \<open>acknowledge\<close>.\<close>

datatype ack_pc = AckOut | AckLoad | AckRequested | AckWaking

record wake_state =
  wk_phase :: u8
  wk_threads :: "nat \<Rightarrow> wake_pc"
  wk_owner :: ack_pc
  wk_panicked :: bool
  wk_successes :: nat
  wk_acknowledged :: nat
  wk_since :: "nat \<Rightarrow> bool"
  wk_standing :: bool
  wk_backed :: "nat \<Rightarrow> bool"

definition WakeHandle_new :: wake_state where
  "WakeHandle_new = \<lparr> wk_phase = IDLE, wk_threads = (\<lambda>_. WakeReturned True), wk_owner = AckOut,
     wk_panicked = False, wk_successes = 0, wk_acknowledged = 0, wk_since = (\<lambda>_. True),
     wk_standing = False, wk_backed = (\<lambda>_. True) \<rparr>"

definition WakeHandle_is_requested :: "wake_state \<Rightarrow> bool" where
  "WakeHandle_is_requested self \<longleftrightarrow> wk_phase self \<noteq> IDLE"

definition at_thread :: "nat \<Rightarrow> wake_pc \<Rightarrow> wake_state \<Rightarrow> wake_state" where
  "at_thread i pc w = w \<lparr> wk_threads := (wk_threads w)(i := pc) \<rparr>"

text \<open>An acknowledgement that took effect, seen by every call in progress.\<close>

definition acknowledged :: "wake_state \<Rightarrow> wake_state" where
  "acknowledged w =
     w \<lparr> wk_acknowledged := wk_acknowledged w + 1, wk_since := (\<lambda>_. True), wk_standing := False, wk_owner := AckOut \<rparr>"

text \<open>A backend call that succeeded; it backs every call in progress.\<close>

definition woken :: "wake_state \<Rightarrow> wake_state" where
  "woken w = w \<lparr> wk_successes := wk_successes w + 1, wk_standing := True, wk_backed := (\<lambda>_. True) \<rparr>"

text \<open>A call that begins.\<close>

definition wake_call_begins :: "nat \<Rightarrow> wake_state \<Rightarrow> wake_state" where
  "wake_call_begins i w =
     at_thread i (WakeLoad 0)
       (w \<lparr> wk_since := (wk_since w)(i := False), wk_backed := (wk_backed w)(i := wk_standing w) \<rparr>)"

text \<open>One access of thread \<open>i\<close> inside \<open>wake\<close>; \<open>ok\<close> is what the backend answers if it is called.\<close>

fun wake_load :: "nat \<Rightarrow> nat \<Rightarrow> wake_state \<Rightarrow> wake_state" where
  "wake_load i spins w =
     (if wk_phase w = REQUESTED then at_thread i (WakeReturned True) w
      else if wk_phase w = IDLE then at_thread i (WakeExchange spins) w
      else if wk_phase w = WAKING \<or> wk_phase w = WAKING_ACKNOWLEDGED
      then at_thread i (WakeLoad (if spins < SPIN_LIMIT then spins + 1 else spins)) w
      else w \<lparr> wk_panicked := True \<rparr>)"

text \<open>One access inside \<open>finish_wake\<close>, after the backend has answered.\<close>

fun finish_wake :: "nat \<Rightarrow> wake_state \<Rightarrow> wake_state" where
  "finish_wake i w =
     (case wk_threads w i of
        FinishExchange \<Rightarrow>
          if wk_phase w = WAKING then at_thread i (WakeReturned True) (w \<lparr> wk_phase := REQUESTED \<rparr>)
          else if wk_phase w = WAKING_ACKNOWLEDGED then at_thread i FinishStore w
          else w \<lparr> wk_panicked := True \<rparr>
      | FinishStore \<Rightarrow> at_thread i (WakeReturned True) (w \<lparr> wk_phase := IDLE \<rparr>)
      | FinishSwap \<Rightarrow>
          at_thread i (WakeReturned False)
            (w \<lparr> wk_phase := IDLE,
                 wk_panicked := (wk_panicked w \<or> \<not> (wk_phase w = WAKING \<or> wk_phase w = WAKING_ACKNOWLEDGED)) \<rparr>)
      | _ \<Rightarrow> w)"

fun wake_step :: "nat \<Rightarrow> bool \<Rightarrow> wake_state \<Rightarrow> wake_state" where
  "wake_step i ok w =
     (case wk_threads w i of
        WakeLoad spins \<Rightarrow> wake_load i spins w
      | WakeExchange spins \<Rightarrow>
          if wk_phase w = IDLE then at_thread i WakeSource (w \<lparr> wk_phase := WAKING \<rparr>)
          else at_thread i (WakeLoad spins) w
      | WakeSource \<Rightarrow>
          if ok then at_thread i FinishExchange (woken w)
          else at_thread i FinishSwap w
      | WakeReturned _ \<Rightarrow> w
      | _ \<Rightarrow> finish_wake i w)"

text \<open>One access of the owner inside \<open>acknowledge\<close>.\<close>

definition ack_step :: "wake_state \<Rightarrow> wake_state" where
  "ack_step w =
     (case wk_owner w of
        AckOut \<Rightarrow> w
      | AckLoad \<Rightarrow>
          if wk_phase w = IDLE \<or> wk_phase w = WAKING_ACKNOWLEDGED
          then w \<lparr> wk_owner := AckOut \<rparr>
          else if wk_phase w = REQUESTED then w \<lparr> wk_owner := AckRequested \<rparr>
          else if wk_phase w = WAKING then w \<lparr> wk_owner := AckWaking \<rparr>
          else w \<lparr> wk_panicked := True \<rparr>
      | AckRequested \<Rightarrow>
          if wk_phase w = REQUESTED then acknowledged (w \<lparr> wk_phase := IDLE \<rparr>)
          else w \<lparr> wk_owner := AckLoad \<rparr>
      | AckWaking \<Rightarrow>
          if wk_phase w = WAKING then acknowledged (w \<lparr> wk_phase := WAKING_ACKNOWLEDGED \<rparr>)
          else w \<lparr> wk_owner := AckLoad \<rparr>)"

text \<open>The steps of the whole: calls begin, and threads and the owner advance in any order.\<close>

inductive wake_next :: "wake_state \<Rightarrow> wake_state \<Rightarrow> bool" where
  call: "wk_threads w i = WakeReturned ok \<Longrightarrow> wake_next w (wake_call_begins i w)"
| advance: "wake_next w (wake_step i ok w)"
| call_acknowledge: "wk_owner w = AckOut \<Longrightarrow> wake_next w (w \<lparr> wk_owner := AckLoad \<rparr>)"
| acknowledge: "wake_next w (ack_step w)"

inductive wake_reachable :: "wake_state \<Rightarrow> bool" where
  start: "wake_reachable WakeHandle_new"
| step: "wake_reachable w \<Longrightarrow> wake_next w w' \<Longrightarrow> wake_reachable w'"

inductive_cases wake_nextE: "wake_next w w'"

section \<open>Invariant\<close>

text \<open>A thread that holds the phase: it has won the exchange and not yet given it up.\<close>

definition holds :: "wake_pc \<Rightarrow> bool" where
  "holds pc \<longleftrightarrow> pc = WakeSource \<or> pc = FinishExchange \<or> pc = FinishStore \<or> pc = FinishSwap"

definition succeeded :: "wake_pc \<Rightarrow> bool" where
  "succeeded pc \<longleftrightarrow> pc = FinishExchange \<or> pc = FinishStore"

text \<open>The invariant, with the thread that holds the phase, if one does.\<close>

definition wake_held :: "nat option \<Rightarrow> wake_state \<Rightarrow> bool" where
  "wake_held h w \<longleftrightarrow> \<not> wk_panicked w \<and> known_phase (wk_phase w) \<and>
     (\<forall>i. holds (wk_threads w i) \<longleftrightarrow> h = Some i) \<and>
     (h \<noteq> None \<longleftrightarrow> wk_phase w = WAKING \<or> wk_phase w = WAKING_ACKNOWLEDGED) \<and>
     (\<forall>i. wk_threads w i = FinishStore \<longrightarrow> wk_phase w = WAKING_ACKNOWLEDGED) \<and>
     (\<forall>i. h = Some i \<longrightarrow> wk_phase w = WAKING_ACKNOWLEDGED \<longrightarrow> wk_since w i) \<and>
     (\<forall>i. wk_threads w i = WakeReturned True \<longrightarrow> wk_phase w = REQUESTED \<or> wk_since w i) \<and>
     wk_successes w + (if wk_phase w = WAKING_ACKNOWLEDGED then 1 else 0) \<le>
       wk_acknowledged w + (if wk_phase w = REQUESTED then 1 else 0) +
       (case h of None \<Rightarrow> 0 | Some i \<Rightarrow> if succeeded (wk_threads w i) then 1 else 0)"


definition wake_inv :: "wake_state \<Rightarrow> bool" where
  "wake_inv w \<longleftrightarrow> (\<exists>h. wake_held h w)"

lemma holds_simps [simp]:
  "holds WakeSource" "holds FinishExchange" "holds FinishStore" "holds FinishSwap"
  "\<not> holds (WakeLoad n)" "\<not> holds (WakeExchange n)" "\<not> holds (WakeReturned ok)"
  by (simp_all add: holds_def)

lemma succeeded_simps [simp]:
  "\<not> succeeded WakeSource" "succeeded FinishExchange" "succeeded FinishStore" "\<not> succeeded FinishSwap"
  "\<not> succeeded (WakeLoad n)" "\<not> succeeded (WakeExchange n)" "\<not> succeeded (WakeReturned ok)"
  by (simp_all add: succeeded_def)

lemma woken_simps [simp]:
  "wk_phase (woken w) = wk_phase w" "wk_threads (woken w) = wk_threads w" "wk_owner (woken w) = wk_owner w"
  "wk_panicked (woken w) = wk_panicked w" "wk_successes (woken w) = wk_successes w + 1"
  "wk_acknowledged (woken w) = wk_acknowledged w" "wk_since (woken w) = wk_since w" "wk_standing (woken w)"
  "wk_backed (woken w) i"
  by (simp_all add: woken_def)

lemma at_thread_simps [simp]:
  "wk_threads (at_thread i pc w) = (wk_threads w)(i := pc)" "wk_phase (at_thread i pc w) = wk_phase w"
  "wk_owner (at_thread i pc w) = wk_owner w" "wk_panicked (at_thread i pc w) = wk_panicked w"
  "wk_successes (at_thread i pc w) = wk_successes w" "wk_acknowledged (at_thread i pc w) = wk_acknowledged w"
  "wk_since (at_thread i pc w) = wk_since w" "wk_standing (at_thread i pc w) = wk_standing w"
  "wk_backed (at_thread i pc w) = wk_backed w"
  by (simp_all add: at_thread_def)

lemma known_phase_simps [simp]:
  "known_phase IDLE" "known_phase WAKING" "known_phase REQUESTED" "known_phase WAKING_ACKNOWLEDGED"
  by (simp_all add: known_phase_def)

lemma wake_inv_new: "wake_inv WakeHandle_new"
  unfolding wake_inv_def by (rule exI [of _ None]) (simp add: wake_held_def WakeHandle_new_def)

lemma wake_held_holder:
  "wake_held h w \<Longrightarrow> wk_threads w i = pc \<Longrightarrow> holds pc \<longleftrightarrow> h = Some i"
  by (auto simp: wake_held_def)

lemma wake_invI: "wake_held h w \<Longrightarrow> wake_inv w"
  by (auto simp: wake_inv_def)

lemma wake_step_inv:
  assumes "wake_held h w"
  shows "wake_inv (wake_step i ok w)"
proof (cases "wk_threads w i")
  case (WakeLoad spins)
  have "h \<noteq> Some i"
    using wake_held_holder [OF assms WakeLoad] by simp
  then have "wake_held h (wake_step i ok w)"
    using assms WakeLoad by (auto simp: wake_held_def at_thread_def known_phase_def split: option.splits)
  then show ?thesis
    by (rule wake_invI)
next
  case (WakeExchange spins)
  have "h \<noteq> Some i"
    using wake_held_holder [OF assms WakeExchange] by simp
  show ?thesis
  proof (cases "wk_phase w = IDLE")
    case True
    then have "wake_held (Some i) (wake_step i ok w)"
      using assms WakeExchange by (auto simp: wake_held_def at_thread_def split: option.splits)
    then show ?thesis
      by (rule wake_invI)
  next
    case False
    then have "wake_held h (wake_step i ok w)"
      using assms WakeExchange \<open>h \<noteq> Some i\<close> by (auto simp: wake_held_def at_thread_def split: option.splits)
    then show ?thesis
      by (rule wake_invI)
  qed
next
  case WakeSource
  have "h = Some i"
    using wake_held_holder [OF assms WakeSource] by simp
  then have "wake_held h (wake_step i ok w)"
    using assms WakeSource by (auto simp: wake_held_def at_thread_def)
  then show ?thesis
    by (rule wake_invI)
next
  case FinishExchange
  have h: "h = Some i"
    using wake_held_holder [OF assms FinishExchange] by simp
  show ?thesis
  proof (cases "wk_phase w = WAKING")
    case True
    then have "wake_held None (wake_step i ok w)"
      using assms FinishExchange h by (auto simp: wake_held_def at_thread_def)
    then show ?thesis
      by (rule wake_invI)
  next
    case False
    then have "wake_held h (wake_step i ok w)"
      using assms FinishExchange h by (auto simp: wake_held_def at_thread_def)
    then show ?thesis
      by (rule wake_invI)
  qed
next
  case FinishStore
  have h: "h = Some i"
    using wake_held_holder [OF assms FinishStore] by simp
  then have "wake_held None (wake_step i ok w)"
    using assms FinishStore by (auto simp: wake_held_def at_thread_def)
  then show ?thesis
    by (rule wake_invI)
next
  case FinishSwap
  have h: "h = Some i"
    using wake_held_holder [OF assms FinishSwap] by simp
  then have "wake_held None (wake_step i ok w)"
    using assms FinishSwap by (auto simp: wake_held_def at_thread_def)
  then show ?thesis
    by (rule wake_invI)
next
  case (WakeReturned r)
  then show ?thesis
    using assms by (auto simp: wake_inv_def)
qed

lemma ack_step_inv:
  assumes "wake_held h w"
  shows "wake_inv (ack_step w)"
proof -
  have "wake_held h (ack_step w)"
    using assms by (auto simp: wake_held_def ack_step_def acknowledged_def known_phase_def
        split: ack_pc.splits option.splits if_splits)
  then show ?thesis
    by (rule wake_invI)
qed

lemma wake_next_inv:
  assumes "wake_next w w'" "wake_inv w"
  shows "wake_inv w'"
proof -
  obtain h where h: "wake_held h w"
    using assms(2) by (auto simp: wake_inv_def)
  from assms(1) show ?thesis
  proof cases
    case (call i ok)
    have "h \<noteq> Some i"
      using wake_held_holder [OF h call(2)] by simp
    then have "wake_held h w'"
      using h call by (auto simp: wake_held_def wake_call_begins_def split: option.splits)
    then show ?thesis
      by (rule wake_invI)
  next
    case (advance i ok)
    then show ?thesis
      using wake_step_inv [OF h] by simp
  next
    case call_acknowledge
    then have "wake_held h w'"
      using h by (auto simp: wake_held_def split: option.splits)
    then show ?thesis
      by (rule wake_invI)
  next
    case acknowledge
    then show ?thesis
      using ack_step_inv [OF h] by simp
  qed
qed

lemma wake_reachable_inv: "wake_reachable w \<Longrightarrow> wake_inv w"
  by (induction rule: wake_reachable.induct) (auto intro: wake_inv_new wake_next_inv)

section \<open>Every success has its backend call\<close>





section \<open>Progress\<close>

text \<open>A schedule of threads; \<open>ok i\<close> is what the backend answers thread \<open>i\<close>.\<close>

fun wake_run :: "(nat \<Rightarrow> bool) \<Rightarrow> nat list \<Rightarrow> wake_state \<Rightarrow> wake_state" where
  "wake_run ok [] w = w"
| "wake_run ok (i # is) w = wake_run ok is (wake_step i (ok i) w)"

lemma wake_run_append: "wake_run ok (xs @ ys) w = wake_run ok ys (wake_run ok xs w)"
  by (induction xs arbitrary: w) simp_all

lemma wake_run_inv: "wake_inv w \<Longrightarrow> wake_inv (wake_run ok is w)"
proof (induction "is" arbitrary: w)
  case (Cons i "is")
  obtain h where "wake_held h w"
    using Cons.prems by (auto simp: wake_inv_def)
  from Cons.IH [OF wake_step_inv [OF this]] show ?case
    by simp
qed simp

text \<open>The accesses one at a time, for evaluating a schedule.\<close>

lemma wake_step_at:
  "wk_threads w i = WakeLoad n \<Longrightarrow> wk_phase w = REQUESTED \<Longrightarrow> wake_step i ok w = at_thread i (WakeReturned True) w"
  "wk_threads w i = WakeLoad n \<Longrightarrow> wk_phase w = IDLE \<Longrightarrow> wake_step i ok w = at_thread i (WakeExchange n) w"
  "wk_threads w i = WakeExchange n \<Longrightarrow> wk_phase w = IDLE \<Longrightarrow>
    wake_step i ok w = at_thread i WakeSource (w \<lparr> wk_phase := WAKING \<rparr>)"
  "wk_threads w i = WakeExchange n \<Longrightarrow> wk_phase w \<noteq> IDLE \<Longrightarrow> wake_step i ok w = at_thread i (WakeLoad n) w"
  "wk_threads w i = WakeSource \<Longrightarrow>
    wake_step i True w = at_thread i FinishExchange (woken w)"
  "wk_threads w i = WakeSource \<Longrightarrow> wake_step i False w = at_thread i FinishSwap w"
  "wk_threads w i = FinishExchange \<Longrightarrow> wk_phase w = WAKING \<Longrightarrow>
    wake_step i ok w = at_thread i (WakeReturned True) (w \<lparr> wk_phase := REQUESTED \<rparr>)"
  "wk_threads w i = FinishExchange \<Longrightarrow> wk_phase w = WAKING_ACKNOWLEDGED \<Longrightarrow>
    wake_step i ok w = at_thread i FinishStore w"
  "wk_threads w i = FinishStore \<Longrightarrow> wake_step i ok w = at_thread i (WakeReturned True) (w \<lparr> wk_phase := IDLE \<rparr>)"
  "wk_threads w i = FinishSwap \<Longrightarrow> wake_step i ok w = at_thread i (WakeReturned False)
    (w \<lparr> wk_phase := IDLE, wk_panicked := (wk_panicked w \<or> \<not> (wk_phase w = WAKING \<or> wk_phase w = WAKING_ACKNOWLEDGED)) \<rparr>)"
  "wk_threads w i = WakeReturned True \<Longrightarrow> wake_step i ok w = w"
  "wk_threads w i = WakeReturned False \<Longrightarrow> wake_step i ok w = w"
  by simp_all

declare wake_step.simps [simp del]

definition returned_call :: "wake_pc \<Rightarrow> bool" where
  "returned_call pc \<longleftrightarrow> pc = WakeReturned True \<or> pc = WakeReturned False"

lemma wake_step_other: "k \<noteq> i \<Longrightarrow> wk_threads (wake_step i ok w) k = wk_threads w k"
  by (simp add: at_thread_def wake_step.simps split: wake_pc.split)

lemma wake_run_other: "k \<notin> set is \<Longrightarrow> wk_threads (wake_run ok is w) k = wk_threads w k"
  by (induction "is" arbitrary: w) (simp_all add: wake_step_other)

text \<open>The thread that holds the phase gives it up within three accesses of its own.\<close>

lemma holder_finishes:
  assumes "wake_held (Some j) w"
  shows "returned_call (wk_threads (wake_run ok [j, j, j] w) j) \<and>
    (wk_phase (wake_run ok [j, j, j] w) = IDLE \<or> wk_phase (wake_run ok [j, j, j] w) = REQUESTED)"
proof -
  have h: "holds (wk_threads w j)" and p: "wk_phase w = WAKING \<or> wk_phase w = WAKING_ACKNOWLEDGED"
    using assms by (auto simp: wake_held_def)
  have f: "wk_threads w j = FinishStore \<Longrightarrow> wk_phase w = WAKING_ACKNOWLEDGED"
    using assms by (auto simp: wake_held_def)
  consider "wk_threads w j = WakeSource" | "wk_threads w j = FinishExchange"
    | "wk_threads w j = FinishStore" | "wk_threads w j = FinishSwap"
    using h by (auto simp: holds_def)
  then show ?thesis
  proof cases
    case 1
    from p show ?thesis
      by (elim disjE; cases "ok j") (simp_all add: 1 wake_step_at returned_call_def)
  next
    case 2
    from p show ?thesis
      by (elim disjE) (simp_all add: 2 wake_step_at returned_call_def)
  next
    case 3
    then show ?thesis
      by (simp add: wake_step_at returned_call_def)
  next
    case 4
    then show ?thesis
      by (simp add: wake_step_at returned_call_def)
  qed
qed

text \<open>With the phase free, a caller is through within five.\<close>

lemma caller_finishes:
  assumes "wk_phase w = IDLE \<or> wk_phase w = REQUESTED" "\<not> holds (wk_threads w i)"
  shows "returned_call (wk_threads (wake_run ok [i, i, i, i, i] w) i)"
proof (cases "wk_threads w i")
  case (WakeLoad n)
  then show ?thesis
    using assms(1) by (cases "ok i"; elim disjE; simp add: wake_step_at returned_call_def)
next
  case (WakeExchange n)
  then show ?thesis
    using assms(1) by (cases "ok i"; elim disjE; simp add: wake_step_at returned_call_def)
next
  case (WakeReturned r)
  then show ?thesis
    by (cases r) (simp_all add: wake_step_at returned_call_def)
qed (use assms in simp_all)

lemma returned_stays:
  "returned_call (wk_threads w i) \<Longrightarrow> returned_call (wk_threads (wake_run ok is w) i)"
proof (induction "is" arbitrary: w)
  case (Cons j "is")
  have "wk_threads (wake_step j (ok j) w) i = wk_threads w i"
    using Cons.prems by (cases "j = i") (auto simp: returned_call_def wake_step_other wake_step_at(11,12))
  then show ?case
    using Cons by (simp)
qed simp

section \<open>Theorems\<close>






text \<open>
  C30. A wake call never deadlocks. From every reachable state, if the thread that holds the phase
  takes three of its own accesses and the caller then five of its own, the call has returned,
  whatever the backend answers either of them: waiting for another thread's backend call is the only wait.
\<close>

theorem wake_always_returns:
  assumes "wake_reachable w"
  shows "\<exists>j. returned_call (wk_threads (wake_run ok ([j, j, j] @ [i, i, i, i, i]) w) i)"
proof -
  obtain h where h: "wake_held h w"
    using wake_reachable_inv [OF assms] by (auto simp: wake_inv_def)
  have known: "known_phase (wk_phase w)" and held: "h = None \<longleftrightarrow> \<not> (wk_phase w = WAKING \<or> wk_phase w = WAKING_ACKNOWLEDGED)"
    using h by (auto simp: wake_held_def)
  consider "h = None" | "h = Some i" | j where "h = Some j" "j \<noteq> i"
    by blast
  then show ?thesis
  proof cases
    case 1
    have "returned_call (wk_threads (wake_run ok [i, i, i, i, i] w) i)"
      using caller_finishes [of w i ok] known held wake_held_holder [OF h refl, of i] 1
      by (auto simp: known_phase_def)
    from returned_stays [OF this, of ok "[i, i, i]"]
    have "returned_call (wk_threads (wake_run ok ([i, i, i] @ [i, i, i, i, i]) w) i)"
      by (simp)
    then show ?thesis ..
  next
    case 2
    from holder_finishes [of i w ok] h 2
    have "returned_call (wk_threads (wake_run ok [i, i, i] w) i)"
      by (simp del: wake_run.simps)
    from returned_stays [OF this, of ok "[i, i, i, i, i]"]
    have "returned_call (wk_threads (wake_run ok ([i, i, i] @ [i, i, i, i, i]) w) i)"
      unfolding wake_run_append .
    then show ?thesis ..
  next
    case (3 j)
    let ?w = "wake_run ok [j, j, j] w"
    have "wk_phase ?w = IDLE \<or> wk_phase ?w = REQUESTED"
      using holder_finishes [of j w ok] h 3(1) by blast
    moreover have "wk_threads ?w i = wk_threads w i"
      using 3(2) by (intro wake_run_other) simp
    moreover have "\<not> holds (wk_threads w i)"
      using wake_held_holder [OF h refl, of i] 3 by simp
    ultimately have "returned_call (wk_threads (wake_run ok ([j, j, j] @ [i, i, i, i, i]) w) i)"
      unfolding wake_run_append by (intro caller_finishes) simp_all
    then show ?thesis ..
  qed
qed

theorem wake_always_returns_witness:
  "\<exists>j. returned_call (wk_threads (wake_run (\<lambda>i. i = 4) ([j, j, j] @ [4, 4, 4, 4, 4]) WakeHandle_new) 4)"
  by (rule wake_always_returns [OF wake_reachable.start])

end
