(* ===== verification/Mailbox.thy ===== *)
theory Mailbox
  imports Ledger Wake
begin

text \<open>
  The bounded mailbox (\<open>mailbox/\<close>): two lanes with independent count and byte limits, any number of
  senders, one receiver. Every operation runs under the mailbox's lock from its first access to its
  last, the wake and the acknowledgement included, so the operations are atomic functions on the
  shared state; the theorems are about every sequence of them.

  The wake handle is the theory \<open>Wake\<close>. Here it is the question whether a wake is requested; the
  first section shows what an uninterrupted call does to its phase. The backend's answer to a call
  is an argument, an error or success.
\<close>

section \<open>The wake handle, call by call\<close>

definition wake_call :: "bool \<Rightarrow> 'w + unit \<Rightarrow> bool \<times> ('w + unit)" where
  "wake_call requested backend =
     (if requested then (True, Inr ())
      else case backend of Inl e \<Rightarrow> (False, Inl e) | Inr _ \<Rightarrow> (True, Inr ()))"

text \<open>
  The call as a schedule of the transition system: a thread that begins with the phase free and
  runs alone returns what \<open>wake_call\<close> says and leaves the phase it says.
\<close>

lemma wake_call_schedule:
  assumes "wk_phase w = (if requested then REQUESTED else IDLE)" "wk_threads w i = WakeLoad n"
  shows "wk_threads (wake_run (\<lambda>_. backend = Inr ()) [i, i, i, i] w) i =
      WakeReturned (snd (wake_call requested backend) = Inr ())"
    and "WakeHandle_is_requested (wake_run (\<lambda>_. backend = Inr ()) [i, i, i, i] w) = fst (wake_call requested backend)"
proof -
  have "backend = Inr () \<or> (\<exists>e. backend = Inl e)"
    by (cases backend) auto
  then have "wk_threads (wake_run (\<lambda>_. backend = Inr ()) [i, i, i, i] w) i =
      WakeReturned (snd (wake_call requested backend) = Inr ()) \<and>
    WakeHandle_is_requested (wake_run (\<lambda>_. backend = Inr ()) [i, i, i, i] w) = fst (wake_call requested backend)"
    using assms by (cases requested; elim disjE exE)
      (simp_all add: wake_step_at wake_call_def WakeHandle_is_requested_def)
  then show "wk_threads (wake_run (\<lambda>_. backend = Inr ()) [i, i, i, i] w) i =
      WakeReturned (snd (wake_call requested backend) = Inr ())"
    and "WakeHandle_is_requested (wake_run (\<lambda>_. backend = Inr ()) [i, i, i, i] w) = fst (wake_call requested backend)"
    by simp_all
qed

section \<open>State\<close>

datatype lane = Control | Work

record lane_limits =
  ll_messages :: usize
  ll_retained_bytes :: retained_bytes

record mailbox_limits =
  mbl_control :: lane_limits
  mbl_work :: lane_limits

definition MailboxLimits_lane :: "mailbox_limits \<Rightarrow> lane \<Rightarrow> lane_limits" where
  "MailboxLimits_lane self lane = (case lane of Control \<Rightarrow> mbl_control self | Work \<Rightarrow> mbl_work self)"

record 'a mailbox_entry =
  me_item :: 'a
  me_retained :: retained_bytes

record 'a lane_state =
  ls_queue :: "'a mailbox_entry list"
  ls_retained :: retained_bytes

definition LaneState_new :: "'a lane_state" where
  "LaneState_new = \<lparr> ls_queue = [], ls_retained = RetainedBytes_ZERO \<rparr>"

record lane_counters =
  lc_messages :: u64
  lc_bytes :: u64

record mailbox_counters =
  mc_control :: lane_counters
  mc_work :: lane_counters
  mc_closed :: u64
  mc_wake_failures :: u64

definition Counters_new :: mailbox_counters where
  "Counters_new =
     \<lparr> mc_control = \<lparr> lc_messages = 0, lc_bytes = 0 \<rparr>, mc_work = \<lparr> lc_messages = 0, lc_bytes = 0 \<rparr>,
       mc_closed = 0, mc_wake_failures = 0 \<rparr>"

record 'a mailbox =
  mb_limits :: mailbox_limits
  mb_control :: "'a lane_state"
  mb_work :: "'a lane_state"
  mb_receiver_alive :: bool
  mb_senders :: usize
  mb_counters :: mailbox_counters
  mb_measure :: "'a \<Rightarrow> retained_bytes"
  mb_wake_requested :: bool

definition mailbox_with :: "mailbox_limits \<Rightarrow> ('a \<Rightarrow> retained_bytes) \<Rightarrow> bool \<Rightarrow> 'a mailbox" where
  "mailbox_with limits size_of requested =
     \<lparr> mb_limits = limits, mb_control = LaneState_new, mb_work = LaneState_new,
       mb_receiver_alive = True, mb_senders = 1, mb_counters = Counters_new,
       mb_measure = size_of, mb_wake_requested = requested \<rparr>"

definition State_lane :: "'a mailbox \<Rightarrow> lane \<Rightarrow> 'a lane_state" where
  "State_lane self lane = (case lane of Control \<Rightarrow> mb_control self | Work \<Rightarrow> mb_work self)"

definition State_set_lane :: "'a mailbox \<Rightarrow> lane \<Rightarrow> 'a lane_state \<Rightarrow> 'a mailbox" where
  "State_set_lane self lane st =
     (case lane of Control \<Rightarrow> self \<lparr> mb_control := st \<rparr> | Work \<Rightarrow> self \<lparr> mb_work := st \<rparr>)"

definition State_is_empty :: "'a mailbox \<Rightarrow> bool" where
  "State_is_empty self \<longleftrightarrow> ls_queue (mb_control self) = [] \<and> ls_queue (mb_work self) = []"

section \<open>Counters\<close>

definition counter_increment :: "u64 \<Rightarrow> u64" where
  "counter_increment counter = saturating_add counter 1"

definition Counters_increment_messages :: "mailbox_counters \<Rightarrow> lane \<Rightarrow> mailbox_counters" where
  "Counters_increment_messages self lane =
     (let bump = (\<lambda>c. c \<lparr> lc_messages := counter_increment (lc_messages c) \<rparr>) in
      case lane of Control \<Rightarrow> self \<lparr> mc_control := bump (mc_control self) \<rparr>
                 | Work \<Rightarrow> self \<lparr> mc_work := bump (mc_work self) \<rparr>)"

definition Counters_increment_bytes :: "mailbox_counters \<Rightarrow> lane \<Rightarrow> mailbox_counters" where
  "Counters_increment_bytes self lane =
     (let bump = (\<lambda>c. c \<lparr> lc_bytes := counter_increment (lc_bytes c) \<rparr>) in
      case lane of Control \<Rightarrow> self \<lparr> mc_control := bump (mc_control self) \<rparr>
                 | Work \<Rightarrow> self \<lparr> mc_work := bump (mc_work self) \<rparr>)"

definition Counters_increment_closed :: "mailbox_counters \<Rightarrow> mailbox_counters" where
  "Counters_increment_closed self = self \<lparr> mc_closed := counter_increment (mc_closed self) \<rparr>"

definition Counters_increment_wake_failures :: "mailbox_counters \<Rightarrow> mailbox_counters" where
  "Counters_increment_wake_failures self =
     self \<lparr> mc_wake_failures := counter_increment (mc_wake_failures self) \<rparr>"

section \<open>Lanes\<close>

definition LaneState_admit ::
  "'a lane_state \<Rightarrow> 'a \<Rightarrow> retained_bytes \<Rightarrow> retained_bytes \<Rightarrow> 'a lane_state" where
  "LaneState_admit self item retained next_bytes =
     self \<lparr> ls_queue := ls_queue self @ [\<lparr> me_item = item, me_retained = retained \<rparr>],
            ls_retained := next_bytes \<rparr>"

fun LaneState_drain_into :: "nat \<Rightarrow> 'a lane_state \<Rightarrow> 'a list \<Rightarrow> ('a lane_state \<times> 'a list) run" where
  "LaneState_drain_into 0 self destination = Ret (self, destination)"
| "LaneState_drain_into (Suc n) self destination =
     (case ls_queue self of
        [] \<Rightarrow> Ret (self, destination)
      | entry # rest \<Rightarrow>
          and_then (expect (RetainedBytes_checked_sub (ls_retained self) (me_retained entry)))
            (\<lambda>retained.
               LaneState_drain_into n (self \<lparr> ls_queue := rest, ls_retained := retained \<rparr>)
                 (destination @ [me_item entry])))"

definition LaneState_drain_all :: "'a lane_state \<Rightarrow> 'a list \<Rightarrow> ('a lane_state \<times> 'a list) run" where
  "LaneState_drain_all self destination = LaneState_drain_into (length (ls_queue self)) self destination"

section \<open>Sending\<close>

datatype 'w admission_failure = MessageCapacity | ByteCapacity | MailboxClosed | WakeFailed 'w

definition AdmissionFailure_wake_error :: "'w admission_failure \<Rightarrow> 'w option" where
  "AdmissionFailure_wake_error self =
     (case self of WakeFailed e \<Rightarrow> Some e | MessageCapacity \<Rightarrow> None | ByteCapacity \<Rightarrow> None | MailboxClosed \<Rightarrow> None)"

record ('u, 'w) try_send_error =
  tse_item :: 'u
  tse_lane :: lane
  tse_failure :: "'w admission_failure"

definition MailboxSender_try_send_materialized ::
  "'a mailbox \<Rightarrow> lane \<Rightarrow> 'u \<Rightarrow> ('u \<Rightarrow> retained_bytes) \<Rightarrow> ('u \<Rightarrow> 'a) \<Rightarrow> 'w + unit \<Rightarrow>
   'a mailbox \<times> (('u, 'w) try_send_error + unit)" where
  "MailboxSender_try_send_materialized self lane owner retained_bytes materialize backend =
     (let retained = retained_bytes owner;
          rejected = (\<lambda>failure. Inl \<lparr> tse_item = owner, tse_lane = lane, tse_failure = failure \<rparr>);
          limits = MailboxLimits_lane (mb_limits self) lane;
          st = State_lane self lane in
      if \<not> mb_receiver_alive self
      then (self \<lparr> mb_counters := Counters_increment_closed (mb_counters self) \<rparr>, rejected MailboxClosed)
      else if unat (ll_messages limits) \<le> length (ls_queue st)
      then (self \<lparr> mb_counters := Counters_increment_messages (mb_counters self) lane \<rparr>,
            rejected MessageCapacity)
      else case RetainedBytes_checked_add (ls_retained st) retained of
        None \<Rightarrow> (self \<lparr> mb_counters := Counters_increment_bytes (mb_counters self) lane \<rparr>,
                 rejected ByteCapacity)
      | Some next_bytes \<Rightarrow>
          if ll_retained_bytes limits < next_bytes
          then (self \<lparr> mb_counters := Counters_increment_bytes (mb_counters self) lane \<rparr>,
                rejected ByteCapacity)
          else case wake_call (mb_wake_requested self) backend of
            (requested, Inl source) \<Rightarrow>
              (self \<lparr> mb_wake_requested := requested,
                      mb_counters := Counters_increment_wake_failures (mb_counters self) \<rparr>,
               rejected (WakeFailed source))
          | (requested, Inr _) \<Rightarrow>
              (State_set_lane (self \<lparr> mb_wake_requested := requested \<rparr>) lane
                 (LaneState_admit st (materialize owner) retained next_bytes), Inr ()))"

definition MailboxSender_try_send_to ::
  "'a mailbox \<Rightarrow> lane \<Rightarrow> 'a \<Rightarrow> 'w + unit \<Rightarrow> 'a mailbox \<times> (('a, 'w) try_send_error + unit)" where
  "MailboxSender_try_send_to self lane item backend =
     MailboxSender_try_send_materialized self lane item (mb_measure self) (\<lambda>x. x) backend"

definition MailboxSender_try_send ::
  "'a mailbox \<Rightarrow> 'a \<Rightarrow> 'w + unit \<Rightarrow> 'a mailbox \<times> (('a, 'w) try_send_error + unit)" where
  "MailboxSender_try_send self item backend = MailboxSender_try_send_to self Work item backend"

definition MailboxSender_try_send_control ::
  "'a mailbox \<Rightarrow> 'a \<Rightarrow> 'w + unit \<Rightarrow> 'a mailbox \<times> (('a, 'w) try_send_error + unit)" where
  "MailboxSender_try_send_control self item backend = MailboxSender_try_send_to self Control item backend"

definition MailboxSender_clone :: "'a mailbox \<Rightarrow> 'a mailbox run" where
  "MailboxSender_clone self =
     and_then (expect (checked_add (mb_senders self) 1)) (\<lambda>senders. Ret (self \<lparr> mb_senders := senders \<rparr>))"

definition MailboxSender_drop :: "'a mailbox \<Rightarrow> 'w + unit \<Rightarrow> 'a mailbox" where
  "MailboxSender_drop self backend =
     (if mb_senders self = 0 then self
      else let self =
          (if mb_senders self = 1 \<and> mb_receiver_alive self
           then (case wake_call (mb_wake_requested self) backend of
                   (requested, Inl _) \<Rightarrow>
                     self \<lparr> mb_wake_requested := requested,
                            mb_counters := Counters_increment_wake_failures (mb_counters self) \<rparr>
                 | (requested, Inr _) \<Rightarrow> self \<lparr> mb_wake_requested := requested \<rparr>)
           else self) in
        self \<lparr> mb_senders := mb_senders self - 1 \<rparr>)"

section \<open>Receiving\<close>

datatype drain_status = DrainIdle | DrainMorePending | DrainClosed

record drain_report =
  dr_drained :: nat
  dr_status :: drain_status

definition MailboxReceiver_drain_into ::
  "'a mailbox \<Rightarrow> 'a list \<Rightarrow> usize \<Rightarrow> ('a mailbox \<times> 'a list \<times> drain_report) run" where
  "MailboxReceiver_drain_into self destination limit =
     (let before = length destination;
          controls = min (unat limit) (length (ls_queue (mb_control self))) in
      and_then (LaneState_drain_into controls (mb_control self) destination) (\<lambda>(control, destination).
        let remaining = unat limit - controls;
            works = min remaining (length (ls_queue (mb_work self))) in
        and_then (LaneState_drain_into works (mb_work self) destination) (\<lambda>(work, destination).
          let self = self \<lparr> mb_control := control, mb_work := work \<rparr>;
              (self, status) =
                (if State_is_empty self
                 then (self \<lparr> mb_wake_requested := False \<rparr>,
                       if \<not> mb_receiver_alive self \<or> mb_senders self = 0 then DrainClosed else DrainIdle)
                 else (self, DrainMorePending)) in
          Ret (self, destination, \<lparr> dr_drained = length destination - before, dr_status = status \<rparr>))))"

definition MailboxReceiver_close :: "'a mailbox \<Rightarrow> ('a mailbox \<times> 'a list) run" where
  "MailboxReceiver_close self =
     (let self = self \<lparr> mb_receiver_alive := False, mb_wake_requested := False \<rparr> in
      and_then (LaneState_drain_all (mb_control self) []) (\<lambda>(control, items).
        and_then (LaneState_drain_all (mb_work self) items) (\<lambda>(work, items).
          Ret (self \<lparr> mb_control := control, mb_work := work \<rparr>, items))))"

section \<open>Observation\<close>

record lane_snapshot =
  lsn_limits :: lane_limits
  lsn_queued_messages :: nat
  lsn_retained_bytes :: retained_bytes
  lsn_message_rejections :: u64
  lsn_byte_rejections :: u64

record mailbox_snapshot =
  mbs_control :: lane_snapshot
  mbs_work :: lane_snapshot
  mbs_live_senders :: usize
  mbs_receiver_alive :: bool
  mbs_closed_rejections :: u64
  mbs_wake_failures :: u64
  mbs_wake_requested :: bool

definition Shared_lane_snapshot :: "'a mailbox \<Rightarrow> lane \<Rightarrow> 'a lane_state \<Rightarrow> lane_snapshot" where
  "Shared_lane_snapshot self lane st =
     (let counters = (case lane of Control \<Rightarrow> mc_control (mb_counters self) | Work \<Rightarrow> mc_work (mb_counters self)) in
      \<lparr> lsn_limits = MailboxLimits_lane (mb_limits self) lane, lsn_queued_messages = length (ls_queue st),
        lsn_retained_bytes = ls_retained st, lsn_message_rejections = lc_messages counters,
        lsn_byte_rejections = lc_bytes counters \<rparr>)"

definition Shared_snapshot :: "'a mailbox \<Rightarrow> mailbox_snapshot" where
  "Shared_snapshot self =
     \<lparr> mbs_control = Shared_lane_snapshot self Control (mb_control self),
       mbs_work = Shared_lane_snapshot self Work (mb_work self),
       mbs_live_senders = mb_senders self, mbs_receiver_alive = mb_receiver_alive self,
       mbs_closed_rejections = mc_closed (mb_counters self),
       mbs_wake_failures = mc_wake_failures (mb_counters self),
       mbs_wake_requested = mb_wake_requested self \<rparr>"

section \<open>Invariant\<close>

definition lane_sizes :: "'a lane_state \<Rightarrow> retained_bytes multiset" where
  "lane_sizes st = mset (map me_retained (ls_queue st))"

definition lane_inv :: "lane_limits \<Rightarrow> 'a lane_state \<Rightarrow> bool" where
  "lane_inv limits st \<longleftrightarrow>
     length (ls_queue st) \<le> unat (ll_messages limits) \<and>
     ls_retained st \<le> ll_retained_bytes limits \<and>
     unat (ls_retained st) = total_bytes (lane_sizes st)"

interpretation lanes: byte_ledger "lane_inv limits" ls_retained lane_sizes
  "\<lambda>_. ll_retained_bytes limits" "\<lambda>_. unat (ll_messages limits)" for limits
  by unfold_locales (auto simp: lane_inv_def lane_sizes_def)

text \<open>Each lane's ledger is exact and within its limits, and queued work has its wake requested.\<close>

definition mailbox_inv :: "'a mailbox \<Rightarrow> bool" where
  "mailbox_inv m \<longleftrightarrow>
     lane_inv (mbl_control (mb_limits m)) (mb_control m) \<and> lane_inv (mbl_work (mb_limits m)) (mb_work m) \<and>
     (\<not> State_is_empty m \<longrightarrow> mb_wake_requested m \<and> mb_receiver_alive m)"

lemma mailbox_inv_lane:
  "mailbox_inv m \<Longrightarrow> lane_inv (MailboxLimits_lane (mb_limits m) lane) (State_lane m lane)"
  by (cases lane) (simp_all add: mailbox_inv_def MailboxLimits_lane_def State_lane_def)

lemma lane_inv_new: "lane_inv limits LaneState_new"
  by (simp add: lane_inv_def LaneState_new_def lane_sizes_def RetainedBytes_ZERO_def)

lemma mailbox_inv_new: "mailbox_inv (mailbox_with limits size_of requested)"
  by (simp add: mailbox_inv_def mailbox_with_def lane_inv_new State_is_empty_def) (simp add: LaneState_new_def)

definition lane_items :: "'a lane_state \<Rightarrow> 'a list" where
  "lane_items st = map me_item (ls_queue st)"

text \<open>Draining takes the oldest entries and gives their bytes back; it never underflows.\<close>

lemma lane_drain:
  assumes "lane_inv limits st" "n \<le> length (ls_queue st)"
  shows "\<exists>st'. LaneState_drain_into n st destination = Ret (st', destination @ take n (lane_items st)) \<and>
    lane_inv limits st' \<and> ls_queue st' = drop n (ls_queue st)"
  using assms
proof (induction n st destination rule: LaneState_drain_into.induct)
  case (1 st destination)
  then show ?case
    by simp
next
  case (2 n st destination)
  then obtain entry rest where q: "ls_queue st = entry # rest"
    by (cases "ls_queue st") auto
  let ?st = "st \<lparr> ls_queue := rest, ls_retained := ls_retained st - me_retained entry \<rparr>"
  have size: "me_retained entry \<in># lane_sizes st" "lane_sizes st - {#me_retained entry#} = lane_sizes ?st"
    by (simp_all add: lane_sizes_def q)
  have sub: "RetainedBytes_checked_sub (ls_retained st) (me_retained entry) =
      Some (ls_retained st - me_retained entry)"
    by (rule lanes.release [OF 2(2) size(1)])
  have "lane_inv limits ?st"
    using 2(2) lanes.release_balanced [OF 2(2) size(1)] lanes.release_within [OF 2(2) size(1)] size(2)
    by (simp add: lane_inv_def q)
  then obtain st' where "LaneState_drain_into n ?st (destination @ [me_item entry]) =
        Ret (st', (destination @ [me_item entry]) @ take n (lane_items ?st))"
      "lane_inv limits st'" "ls_queue st' = drop n rest"
    using 2(1) [OF q, of "ls_retained st - me_retained entry"] 2(3) q by auto
  then show ?case
    using q sub by (simp add: lane_items_def)
qed

lemma lane_admit:
  assumes "lane_inv limits st" "length (ls_queue st) < unat (ll_messages limits)"
    and "RetainedBytes_checked_add (ls_retained st) b = Some t" "t \<le> ll_retained_bytes limits"
  shows "lane_inv limits (LaneState_admit st item b t)" "lane_items (LaneState_admit st item b t) = lane_items st @ [item]"
  using assms lanes.admit_balanced [OF assms(1,3)]
  by (auto simp: lane_inv_def LaneState_admit_def lane_sizes_def lane_items_def)

section \<open>Sending, exactly\<close>

definition lane_admits :: "'a mailbox \<Rightarrow> lane \<Rightarrow> retained_bytes \<Rightarrow> bool" where
  "lane_admits m lane b \<longleftrightarrow> mb_receiver_alive m \<and>
     length (ls_queue (State_lane m lane)) < unat (ll_messages (MailboxLimits_lane (mb_limits m) lane)) \<and>
     unat (ls_retained (State_lane m lane)) + unat b \<le> unat (ll_retained_bytes (MailboxLimits_lane (mb_limits m) lane))"

lemma State_set_lane_simps [simp]:
  "State_lane (State_set_lane m lane st) lane' = (if lane' = lane then st else State_lane m lane')"
  "mb_limits (State_set_lane m lane st) = mb_limits m" "mb_receiver_alive (State_set_lane m lane st) = mb_receiver_alive m"
  "mb_wake_requested (State_set_lane m lane st) = mb_wake_requested m" "mb_senders (State_set_lane m lane st) = mb_senders m"
  by (cases lane; cases lane'; simp add: State_set_lane_def State_lane_def)+

lemma mailbox_inv_alt:
  "mailbox_inv m \<longleftrightarrow> (\<forall>lane. lane_inv (MailboxLimits_lane (mb_limits m) lane) (State_lane m lane)) \<and>
    ((\<exists>lane. ls_queue (State_lane m lane) \<noteq> []) \<longrightarrow> mb_wake_requested m \<and> mb_receiver_alive m)"
proof -
  have "(\<forall>lane. P lane) \<longleftrightarrow> P Control \<and> P Work" for P
    by (metis lane.exhaust)
  moreover have "(\<exists>lane. P lane) \<longleftrightarrow> P Control \<or> P Work" for P
    by (metis lane.exhaust)
  ultimately show ?thesis
    by (auto simp: mailbox_inv_def MailboxLimits_lane_def State_lane_def State_is_empty_def)
qed

lemma lane_admits_iff:
  "lane_admits m lane b \<longleftrightarrow> mb_receiver_alive m \<and>
     length (ls_queue (State_lane m lane)) < unat (ll_messages (MailboxLimits_lane (mb_limits m) lane)) \<and>
     (\<exists>t. RetainedBytes_checked_add (ls_retained (State_lane m lane)) b = Some t \<and>
        t \<le> ll_retained_bytes (MailboxLimits_lane (mb_limits m) lane))"
proof -
  let ?s = "ls_retained (State_lane m lane)" and ?l = "ll_retained_bytes (MailboxLimits_lane (mb_limits m) lane)"
  have "unat ?s + unat b \<le> unat ?l \<longleftrightarrow> (\<exists>t. checked_add ?s b = Some t \<and> t \<le> ?l)"
  proof
    assume le: "unat ?s + unat b \<le> unat ?l"
    then have "unat ?s + unat b < 2 ^ 64"
      using unat_less_exp [of ?l] by simp
    then obtain t where t: "checked_add ?s b = Some t"
      by (simp add: checked_add_def)
    then show "\<exists>t. checked_add ?s b = Some t \<and> t \<le> ?l"
      using le checked_add_SomeD [OF t] by (auto simp: word_le_nat_alt)
  next
    assume "\<exists>t. checked_add ?s b = Some t \<and> t \<le> ?l"
    then obtain t where t: "checked_add ?s b = Some t" "t \<le> ?l"
      by blast
    then show "unat ?s + unat b \<le> unat ?l"
      using checked_add_SomeD [OF t(1)] by (simp add: word_le_nat_alt)
  qed
  then show ?thesis
    by (simp add: lane_admits_def RetainedBytes_checked_add_def)
qed

lemma State_lane_counters [simp]:
  "State_lane (m \<lparr> mb_counters := c \<rparr>) l = State_lane m l"
  "State_lane (m \<lparr> mb_wake_requested := r \<rparr>) l = State_lane m l"
  "State_lane (m \<lparr> mb_senders := n \<rparr>) l = State_lane m l"
  by (cases l; simp add: State_lane_def)+

lemma mailbox_inv_counters [simp]: "mailbox_inv (m \<lparr> mb_counters := c \<rparr>) = mailbox_inv m"
  by (simp add: mailbox_inv_alt)

lemma send_accepted:
  assumes inv: "mailbox_inv m" and adm: "lane_admits m lane (size_of owner)"
    and wake: "snd (wake_call (mb_wake_requested m) backend) = Inr ()"
  shows "\<exists>m'. MailboxSender_try_send_materialized m lane owner size_of materialize backend = (m', Inr ()) \<and>
    mailbox_inv m' \<and> mb_wake_requested m' \<and> mb_senders m' = mb_senders m \<and>
    (\<forall>l. lane_items (State_lane m' l) =
      (if l = lane then lane_items (State_lane m l) @ [materialize owner] else lane_items (State_lane m l)))"
proof -
  obtain t where t: "RetainedBytes_checked_add (ls_retained (State_lane m lane)) (size_of owner) = Some t"
      "t \<le> ll_retained_bytes (MailboxLimits_lane (mb_limits m) lane)"
      "length (ls_queue (State_lane m lane)) < unat (ll_messages (MailboxLimits_lane (mb_limits m) lane))"
      "mb_receiver_alive m"
    using adm unfolding lane_admits_iff by blast
  have woken: "wake_call (mb_wake_requested m) backend = (True, Inr ())"
    using wake by (auto simp: wake_call_def split: if_splits sum.splits)
  let ?st = "LaneState_admit (State_lane m lane) (materialize owner) (size_of owner) t"
  let ?m = "State_set_lane (m \<lparr> mb_wake_requested := True \<rparr>) lane ?st"
  have "MailboxSender_try_send_materialized m lane owner size_of materialize backend = (?m, Inr ())"
    using t woken by (simp add: MailboxSender_try_send_materialized_def Let_def not_le not_less)
  moreover note admitted = lane_admit [OF mailbox_inv_lane [OF inv] t(3,1,2), of "materialize owner"]
  moreover have "mailbox_inv ?m"
    using inv admitted(1) t(4) unfolding mailbox_inv_alt by simp
  ultimately show ?thesis
    by (intro exI [of _ ?m]) simp
qed

lemma send_rejected:
  assumes inv: "mailbox_inv m"
    and rej: "\<not> lane_admits m lane (size_of owner) \<or> snd (wake_call (mb_wake_requested m) backend) \<noteq> Inr ()"
  shows "\<exists>m' f. MailboxSender_try_send_materialized m lane owner size_of materialize backend =
      (m', Inl \<lparr> tse_item = owner, tse_lane = lane, tse_failure = f \<rparr>) \<and>
    m' = m \<lparr> mb_counters := mb_counters m' \<rparr>"
proof (cases "lane_admits m lane (size_of owner)")
  case False
  then show ?thesis
    unfolding lane_admits_iff
    by (auto simp: MailboxSender_try_send_materialized_def Let_def not_le not_less split: option.splits)
next
  case True
  then obtain e where "wake_call (mb_wake_requested m) backend = (mb_wake_requested m, Inl e)"
    using rej by (auto simp: wake_call_def split: if_splits sum.splits)
  moreover obtain t where "RetainedBytes_checked_add (ls_retained (State_lane m lane)) (size_of owner) = Some t"
      "t \<le> ll_retained_bytes (MailboxLimits_lane (mb_limits m) lane)"
      "length (ls_queue (State_lane m lane)) < unat (ll_messages (MailboxLimits_lane (mb_limits m) lane))"
      "mb_receiver_alive m"
    using True unfolding lane_admits_iff by blast
  ultimately show ?thesis
    by (simp add: MailboxSender_try_send_materialized_def Let_def not_le not_less)
qed

section \<open>Receiving, exactly\<close>

definition waiting_items :: "'a mailbox \<Rightarrow> 'a list" where
  "waiting_items m = lane_items (mb_control m) @ lane_items (mb_work m)"

lemma drain_exact:
  assumes inv: "mailbox_inv m"
  shows "\<exists>m' status. MailboxReceiver_drain_into m destination limit =
      Ret (m', destination @ take (unat limit) (waiting_items m),
        \<lparr> dr_drained = min (unat limit) (length (waiting_items m)), dr_status = status \<rparr>) \<and>
    mailbox_inv m' \<and> mb_senders m' = mb_senders m \<and>
    lane_items (mb_control m') = drop (unat limit) (lane_items (mb_control m)) \<and>
    lane_items (mb_work m') = drop (unat limit - length (lane_items (mb_control m))) (lane_items (mb_work m)) \<and>
    (status = DrainMorePending \<longleftrightarrow> unat limit < length (waiting_items m)) \<and>
    (status = DrainClosed \<longleftrightarrow>
       length (waiting_items m) \<le> unat limit \<and> (\<not> mb_receiver_alive m \<or> mb_senders m = 0)) \<and>
    mb_wake_requested m' = (unat limit < length (waiting_items m) \<and> mb_wake_requested m)"
proof -
  let ?c = "mb_control m" and ?w = "mb_work m"
  let ?nc = "min (unat limit) (length (ls_queue ?c))"
  let ?nw = "min (unat limit - ?nc) (length (ls_queue ?w))"
  have inv': "lane_inv (mbl_control (mb_limits m)) ?c" "lane_inv (mbl_work (mb_limits m)) ?w"
    using inv by (simp_all add: mailbox_inv_def)
  obtain c where c: "LaneState_drain_into ?nc ?c destination = Ret (c, destination @ take ?nc (lane_items ?c))"
      "lane_inv (mbl_control (mb_limits m)) c" "ls_queue c = drop ?nc (ls_queue ?c)"
    using lane_drain [OF inv'(1), of ?nc destination] by auto
  obtain w where w: "LaneState_drain_into ?nw ?w (destination @ take ?nc (lane_items ?c)) =
        Ret (w, (destination @ take ?nc (lane_items ?c)) @ take ?nw (lane_items ?w))"
      "lane_inv (mbl_work (mb_limits m)) w" "ls_queue w = drop ?nw (ls_queue ?w)"
    using lane_drain [OF inv'(2), of ?nw "destination @ take ?nc (lane_items ?c)"] by auto
  have out: "take ?nc (lane_items ?c) @ take ?nw (lane_items ?w) = take (unat limit) (waiting_items m)"
    by (auto simp: waiting_items_def lane_items_def min_def)
  have left: "lane_items c = drop (unat limit) (lane_items ?c)"
      "lane_items w = drop (unat limit - length (lane_items ?c)) (lane_items ?w)"
    using c(3) w(3) by (auto simp: lane_items_def drop_map min_def)
  let ?m = "m \<lparr> mb_control := c, mb_work := w \<rparr>"
  have empty: "State_is_empty ?m \<longleftrightarrow> length (waiting_items m) \<le> unat limit"
    using arg_cong [OF c(3), of length] arg_cong [OF w(3), of length]
    by (auto simp: State_is_empty_def waiting_items_def lane_items_def min_def simp flip: length_0_conv split: if_splits)
  have nonempty: "\<not> State_is_empty m" if "\<not> State_is_empty ?m"
    using that c(3) w(3) by (auto simp: State_is_empty_def)
  let ?m' = "if State_is_empty ?m then ?m \<lparr> mb_wake_requested := False \<rparr> else ?m"
  let ?status = "if \<not> State_is_empty ?m then DrainMorePending
    else if \<not> mb_receiver_alive m \<or> mb_senders m = 0 then DrainClosed else DrainIdle"
  have "MailboxReceiver_drain_into m destination limit =
      Ret (?m', destination @ take (unat limit) (waiting_items m),
        \<lparr> dr_drained = min (unat limit) (length (waiting_items m)), dr_status = ?status \<rparr>)"
    unfolding out [symmetric] using c(1) w(1) arg_cong [OF out, of length]
    by (simp add: MailboxReceiver_drain_into_def Let_def)
  moreover have "mailbox_inv ?m'"
    using inv c(2) w(2) nonempty by (auto simp: mailbox_inv_def State_is_empty_def)
  ultimately show ?thesis
    using left empty by (intro exI [of _ ?m'] exI [of _ ?status]) auto
qed

lemma close_exact:
  assumes inv: "mailbox_inv m"
  shows "\<exists>m'. MailboxReceiver_close m = Ret (m', waiting_items m) \<and> mailbox_inv m' \<and>
    \<not> mb_receiver_alive m' \<and> waiting_items m' = [] \<and> mb_senders m' = mb_senders m"
proof -
  have inv': "lane_inv (mbl_control (mb_limits m)) (mb_control m)" "lane_inv (mbl_work (mb_limits m)) (mb_work m)"
    using inv by (simp_all add: mailbox_inv_def)
  obtain c where c: "LaneState_drain_all (mb_control m) [] = Ret (c, lane_items (mb_control m))"
      "lane_inv (mbl_control (mb_limits m)) c" "ls_queue c = []"
    using lane_drain [OF inv'(1) order_refl, of "[]"]
    by (auto simp: LaneState_drain_all_def lane_items_def)
  obtain w where w: "LaneState_drain_all (mb_work m) (lane_items (mb_control m)) =
        Ret (w, lane_items (mb_control m) @ lane_items (mb_work m))"
      "lane_inv (mbl_work (mb_limits m)) w" "ls_queue w = []"
    using lane_drain [OF inv'(2) order_refl, of "lane_items (mb_control m)"]
    by (auto simp: LaneState_drain_all_def lane_items_def)
  show ?thesis
    using c w by (simp add: MailboxReceiver_close_def waiting_items_def mailbox_inv_def State_is_empty_def
        lane_items_def Let_def)
qed

section \<open>Sequences of operations\<close>

datatype ('a, 'w) mailbox_op =
  MailboxSend lane 'a "'w + unit"
| MailboxClone
| MailboxDropSender "'w + unit"
| MailboxDrain usize
| MailboxClose
| MailboxWake "'w + unit"

text \<open>
  A step also says which items it accepted and which it delivered, each with its lane.
  \<open>MailboxWake\<close> is a wake requested by someone else through a clone of the handle.
\<close>

definition tagged :: "nat \<Rightarrow> 'a list \<Rightarrow> (lane \<times> 'a) list" where
  "tagged controls items = map (Pair Control) (take controls items) @ map (Pair Work) (drop controls items)"

definition mailbox_step ::
  "'a mailbox \<Rightarrow> ('a, 'w) mailbox_op \<Rightarrow> ('a mailbox \<times> (lane \<times> 'a) list \<times> (lane \<times> 'a) list) run" where
  "mailbox_step m op =
     (case op of
        MailboxSend lane item backend \<Rightarrow>
          (case MailboxSender_try_send_to m lane item backend of
             (m', Inl _) \<Rightarrow> Ret (m', [], [])
           | (m', Inr _) \<Rightarrow> Ret (m', [(lane, item)], []))
      | MailboxClone \<Rightarrow> and_then (MailboxSender_clone m) (\<lambda>m'. Ret (m', [], []))
      | MailboxDropSender backend \<Rightarrow> Ret (MailboxSender_drop m backend, [], [])
      | MailboxDrain limit \<Rightarrow>
          and_then (MailboxReceiver_drain_into m [] limit) (\<lambda>(m', items, report).
            Ret (m', [], tagged (min (unat limit) (length (ls_queue (mb_control m)))) items))
      | MailboxClose \<Rightarrow>
          and_then (MailboxReceiver_close m) (\<lambda>(m', items).
            Ret (m', [], tagged (length (ls_queue (mb_control m))) items))
      | MailboxWake backend \<Rightarrow>
          Ret (m \<lparr> mb_wake_requested := fst (wake_call (mb_wake_requested m) backend) \<rparr>, [], []))"

fun mailbox_run ::
  "'a mailbox \<Rightarrow> ('a, 'w) mailbox_op list \<Rightarrow> ('a mailbox \<times> (lane \<times> 'a) list \<times> (lane \<times> 'a) list) run" where
  "mailbox_run m [] = Ret (m, [], [])"
| "mailbox_run m (op # ops) =
     and_then (mailbox_step m op) (\<lambda>(m', accepted, delivered).
       and_then (mailbox_run m' ops) (\<lambda>(m'', accepted', delivered').
         Ret (m'', accepted @ accepted', delivered @ delivered')))"

definition of_lane :: "lane \<Rightarrow> (lane \<times> 'a) list \<Rightarrow> 'a list" where
  "of_lane lane xs = map snd (filter (\<lambda>(l, _). l = lane) xs)"

lemma of_lane_simps [simp]:
  "of_lane lane [] = []" "of_lane lane (xs @ ys) = of_lane lane xs @ of_lane lane ys"
  "of_lane lane ((l, x) # xs) = (if l = lane then x # of_lane lane xs else of_lane lane xs)"
  by (simp_all add: of_lane_def)

lemma of_lane_tagged:
  "of_lane Control (tagged n items) = take n items" "of_lane Work (tagged n items) = drop n items"
  by (simp_all add: of_lane_def tagged_def filter_map o_def)

lemma tagged_drain:
  "of_lane Control (tagged (min n (length c)) (take n (c @ w))) = take n c"
  "of_lane Work (tagged (min n (length c)) (take n (c @ w))) = take (n - length c) w"
  by (cases "n \<le> length c"; simp add: of_lane_tagged)+

text \<open>What a step keeps: the invariant, and each lane as a queue.\<close>

definition lane_conserved :: "'a mailbox \<Rightarrow> 'a mailbox \<Rightarrow> (lane \<times> 'a) list \<Rightarrow> (lane \<times> 'a) list \<Rightarrow> bool" where
  "lane_conserved m m' accepted delivered \<longleftrightarrow>
     (\<forall>lane. lane_items (State_lane m lane) @ of_lane lane accepted =
        of_lane lane delivered @ lane_items (State_lane m' lane))"

lemma lane_conserved_trans:
  "lane_conserved a b acc del \<Longrightarrow> lane_conserved b c acc' del' \<Longrightarrow> lane_conserved a c (acc @ acc') (del @ del')"
  unfolding lane_conserved_def of_lane_simps by (metis append_assoc)

lemma lane_conserved_same: "(\<And>lane. State_lane m' lane = State_lane m lane) \<Longrightarrow> lane_conserved m m' [] []"
  by (simp add: lane_conserved_def)

lemma all_lanes: "(\<forall>lane. P lane) \<longleftrightarrow> P Control \<and> P Work"
  by (metis lane.exhaust)

lemma mailbox_step_ok:
  fixes op :: "('a, 'w) mailbox_op"
  assumes inv: "mailbox_inv m"
  shows "case mailbox_step m op of
      Panic \<Rightarrow> op = MailboxClone \<and> mb_senders m = - 1
    | Ret (m', accepted, delivered) \<Rightarrow> mailbox_inv m' \<and> lane_conserved m m' accepted delivered \<and>
        unat (mb_senders m') \<le> unat (mb_senders m) + (if op = MailboxClone then 1 else 0)"
proof (cases op)
  case (MailboxSend lane item backend)
  show ?thesis
  proof (cases "lane_admits m lane (mb_measure m item) \<and> snd (wake_call (mb_wake_requested m) backend) = Inr ()")
    case True
    from send_accepted [where m = m and lane = lane and size_of = "mb_measure m" and owner = item and
        backend = backend and materialize = "\<lambda>x. x", OF inv conjunct1 [OF True] conjunct2 [OF True]] show ?thesis
      using MailboxSend by (auto simp: mailbox_step_def MailboxSender_try_send_to_def lane_conserved_def)
  next
    case False
    then obtain m' f where rej: "MailboxSender_try_send_to m lane item backend =
        (m', Inl \<lparr> tse_item = item, tse_lane = lane, tse_failure = f \<rparr>)" "m' = m \<lparr> mb_counters := mb_counters m' \<rparr>"
      using send_rejected [where m = m and lane = lane and size_of = "mb_measure m" and owner = item and
        backend = backend and materialize = "\<lambda>x. x", OF inv]
      unfolding MailboxSender_try_send_to_def by blast
    have "mailbox_inv m'" "State_lane m' l = State_lane m l" "mb_senders m' = mb_senders m" for l
      using inv by (subst rej(2), simp)+
    then show ?thesis
      using MailboxSend rej(1) by (simp add: mailbox_step_def lane_conserved_def)
  qed
next
  case MailboxClone
  show ?thesis
  proof (cases "checked_add (mb_senders m) 1")
    case None
    then have "2 ^ 64 \<le> unat (mb_senders m) + 1"
      by (simp add: checked_add_None_iff)
    then have "unat (mb_senders m) = unat (- 1 :: usize)"
      using unat_less_exp [of "mb_senders m"] by (simp add: unat_minus_one_full)
    then have "mb_senders m = - 1"
      by (simp only: word_unat_eq_iff)
    then show ?thesis
      using MailboxClone None by (simp add: mailbox_step_def MailboxSender_clone_def)
  next
    case (Some n)
    then show ?thesis
      using MailboxClone inv checked_add_SomeD [OF Some]
      by (simp add: mailbox_step_def MailboxSender_clone_def lane_conserved_same mailbox_inv_alt)
  qed
next
  case (MailboxDropSender backend)
  obtain r v where rv: "wake_call (mb_wake_requested m) backend = (r, v)"
    by fastforce
  then have w: "wake_call (mb_wake_requested m) backend = (r, v)" "mb_wake_requested m \<Longrightarrow> r"
    by (auto simp: wake_call_def)
  have "mailbox_inv (MailboxSender_drop m backend)"
    using inv w by (auto simp: mailbox_inv_alt MailboxSender_drop_def Let_def split: sum.splits)
  moreover have "State_lane (MailboxSender_drop m backend) l = State_lane m l" for l
    using w by (auto simp: MailboxSender_drop_def Let_def split: sum.splits)
  moreover have "unat (mb_senders (MailboxSender_drop m backend)) \<le> unat (mb_senders m)"
    using w by (auto simp: MailboxSender_drop_def Let_def unat_minus_one split: sum.splits)
  ultimately show ?thesis
    using MailboxDropSender by (simp add: mailbox_step_def lane_conserved_same)
next
  case (MailboxDrain limit)
  let ?c = "lane_items (mb_control m)" and ?w = "lane_items (mb_work m)"
  obtain m' report where d: "MailboxReceiver_drain_into m [] limit = Ret (m', take (unat limit) (?c @ ?w), report)"
      "mailbox_inv m'" "mb_senders m' = mb_senders m" "lane_items (mb_control m') = drop (unat limit) ?c"
      "lane_items (mb_work m') = drop (unat limit - length ?c) ?w"
    using drain_exact [OF inv, of "[]" limit] unfolding waiting_items_def append_Nil by metis
  have len: "length (ls_queue (mb_control m)) = length ?c"
    by (simp add: lane_items_def)
  have "lane_conserved m m' [] (tagged (min (unat limit) (length ?c)) (take (unat limit) (?c @ ?w)))"
    unfolding lane_conserved_def all_lanes tagged_drain by (simp add: State_lane_def d)
  then show ?thesis
    using MailboxDrain d len by (simp add: mailbox_step_def)
next
  case MailboxClose
  have "length (ls_queue (mb_control m)) = length (lane_items (mb_control m))"
    by (simp add: lane_items_def)
  then show ?thesis
    using MailboxClose close_exact [OF inv]
    by (auto simp: mailbox_step_def lane_conserved_def all_lanes of_lane_tagged State_lane_def waiting_items_def)
next
  case (MailboxWake backend)
  then show ?thesis
    using inv by (auto simp: mailbox_step_def lane_conserved_same mailbox_inv_alt wake_call_def split: sum.splits)
qed

definition clones :: "('a, 'w) mailbox_op list \<Rightarrow> nat" where
  "clones ops = length (filter (\<lambda>op. op = MailboxClone) ops)"

lemma mailbox_run_ok:
  assumes "mailbox_inv m" "unat (mb_senders m) + clones ops < 2 ^ 64"
  shows "\<exists>m' accepted delivered. mailbox_run m ops = Ret (m', accepted, delivered) \<and> mailbox_inv m' \<and>
    lane_conserved m m' accepted delivered"
  using assms
proof (induction ops arbitrary: m)
  case Nil
  then show ?case
    by (simp add: lane_conserved_same)
next
  case (Cons op ops)
  have few: "unat (mb_senders m) + (if op = MailboxClone then 1 else 0) + clones ops < 2 ^ 64"
    using Cons.prems(2) by (cases "op = MailboxClone") (simp_all add: clones_def)
  have "\<not> (op = MailboxClone \<and> mb_senders m = - 1)"
    using few unat_minus_one_full [where 'a = 64] by auto
  then obtain m1 acc1 del1 where one: "mailbox_step m op = Ret (m1, acc1, del1)" "mailbox_inv m1"
      "lane_conserved m m1 acc1 del1" "unat (mb_senders m1) \<le> unat (mb_senders m) + (if op = MailboxClone then 1 else 0)"
    using mailbox_step_ok [OF Cons.prems(1), of op] by (auto split: run.splits)
  then obtain m2 acc2 del2 where "mailbox_run m1 ops = Ret (m2, acc2, del2)" "mailbox_inv m2"
      "lane_conserved m1 m2 acc2 del2"
    using Cons.IH [of m1] few by fastforce
  then show ?case
    using one lane_conserved_trans [of m m1 acc1 del1] by simp
qed

section \<open>Theorems\<close>

text \<open>
  C4. No accepted work is lost, duplicated, reordered within its lane or stranded. Take any sequence
  of sends to either lane, sender clones and drops, drains with any bounds, closes and foreign wakes,
  with any backend answers and fewer clones than sender counts. Nothing panics, the ledgers stay
  exact and within their limits, whatever is queued has a wake requested and a live receiver, and in
  each lane the items accepted are the items delivered followed by the items queued, in order.
\<close>

theorem mailbox_never_loses_work:
  assumes "clones ops < 2 ^ 64 - 1"
  shows "\<exists>m accepted delivered.
    mailbox_run (mailbox_with limits size_of requested) ops = Ret (m, accepted, delivered) \<and>
    mailbox_inv m \<and> (\<not> State_is_empty m \<longrightarrow> mb_wake_requested m \<and> mb_receiver_alive m) \<and>
    (\<forall>lane. of_lane lane accepted = of_lane lane delivered @ lane_items (State_lane m lane))"
proof -
  let ?m = "mailbox_with limits size_of requested"
  have "mb_senders ?m = 1" "lane_items (State_lane ?m lane) = []" for lane
    by (simp_all add: mailbox_with_def State_lane_def lane_items_def LaneState_new_def split: lane.split)
  then show ?thesis
    using mailbox_run_ok [OF mailbox_inv_new, of limits size_of requested ops] assms
    by (auto simp: lane_conserved_def mailbox_inv_def)
qed

definition mailbox_limits_demo :: mailbox_limits where
  "mailbox_limits_demo =
     \<lparr> mbl_control = \<lparr> ll_messages = 1, ll_retained_bytes = 8 \<rparr>, mbl_work = \<lparr> ll_messages = 2, ll_retained_bytes = 8 \<rparr> \<rparr>"

theorem mailbox_never_loses_work_witness:
  "\<exists>m accepted delivered.
    mailbox_run (mailbox_with mailbox_limits_demo of_nat False)
      [MailboxSend Work 3 (Inr ()), MailboxSend Control 4 (Inl ()), MailboxClone, MailboxDrain 1] =
      Ret (m, accepted, delivered) \<and> mailbox_inv m \<and> of_lane Work accepted = of_lane Work delivered @ lane_items (mb_work m)"
  using mailbox_never_loses_work [of "[MailboxSend Work 3 (Inr ()), MailboxSend Control 4 (Inl ()), MailboxClone, MailboxDrain 1]"
      mailbox_limits_demo of_nat False]
  by (auto simp: clones_def State_lane_def all_lanes)

text \<open>
  C31. A bounded drain takes exactly as many items as are waiting, up to the bound, all waiting
  control items before any work item, each lane oldest first, and appends them to the destination;
  it reports that more is pending exactly when something is left, and closed exactly when nothing is
  left and no admission can follow. The wake is acknowledged exactly when nothing is left, so the next
  admission asks for a new one; otherwise the wake that was requested stands.
\<close>

theorem mailbox_drain_exact:
  assumes "mailbox_inv m"
  shows "\<exists>m' report. MailboxReceiver_drain_into m destination limit =
      Ret (m', destination @ take (unat limit) (lane_items (mb_control m) @ lane_items (mb_work m)), report) \<and>
    mailbox_inv m' \<and>
    lane_items (mb_control m') @ lane_items (mb_work m') =
      drop (unat limit) (lane_items (mb_control m) @ lane_items (mb_work m)) \<and>
    dr_drained report = min (unat limit) (length (lane_items (mb_control m) @ lane_items (mb_work m))) \<and>
    (dr_status report = DrainMorePending \<longleftrightarrow> lane_items (mb_control m') @ lane_items (mb_work m') \<noteq> []) \<and>
    (dr_status report = DrainClosed \<longleftrightarrow> lane_items (mb_control m') @ lane_items (mb_work m') = [] \<and>
       (\<not> mb_receiver_alive m \<or> mb_senders m = 0)) \<and>
    mb_wake_requested m' =
      (if lane_items (mb_control m') @ lane_items (mb_work m') = [] then False else mb_wake_requested m)"
proof -
  let ?c = "lane_items (mb_control m)" and ?w = "lane_items (mb_work m)"
  obtain m' status where d: "MailboxReceiver_drain_into m destination limit =
      Ret (m', destination @ take (unat limit) (?c @ ?w),
        \<lparr> dr_drained = min (unat limit) (length (?c @ ?w)), dr_status = status \<rparr>)" "mailbox_inv m'"
      "lane_items (mb_control m') @ lane_items (mb_work m') = drop (unat limit) (?c @ ?w)"
      "status = DrainMorePending \<longleftrightarrow> unat limit < length (?c @ ?w)"
      "status = DrainClosed \<longleftrightarrow> length (?c @ ?w) \<le> unat limit \<and> (\<not> mb_receiver_alive m \<or> mb_senders m = 0)"
      "mb_wake_requested m' = (unat limit < length (?c @ ?w) \<and> mb_wake_requested m)"
    using drain_exact [OF assms, of destination limit] unfolding waiting_items_def drop_append by metis
  show ?thesis
    unfolding d(3) using d(1,2,4-6) d(3) by (intro exI conjI) (rule d(1), auto)
qed

theorem mailbox_drain_exact_witness:
  "\<exists>m' report. MailboxReceiver_drain_into (mailbox_with mailbox_limits_demo of_nat False) [7] 3 = Ret (m', [7 :: nat], report) \<and>
    dr_drained report = 0"
  using mailbox_drain_exact [OF mailbox_inv_new [of mailbox_limits_demo of_nat False], of "[7]" 3]
  by (auto simp: mailbox_with_def LaneState_new_def lane_items_def)

text \<open>
  C32. Admission is exact, and keeps ownership. A send is accepted exactly when the receiver is
  alive, the lane has room for one more message and for its bytes, and the owner's wake is already
  requested or the backend grants it; the item is then last in its lane and the wake is requested.
  Otherwise the owner comes back and nothing changes but a rejection counter.
\<close>

theorem mailbox_send_exact:
  assumes "mailbox_inv m"
  shows "case MailboxSender_try_send_materialized m lane owner size_of materialize backend of
      (m', Inl err) \<Rightarrow> tse_item err = owner \<and> tse_lane err = lane \<and> m' = m \<lparr> mb_counters := mb_counters m' \<rparr> \<and>
        \<not> (lane_admits m lane (size_of owner) \<and> (mb_wake_requested m \<or> backend = Inr ()))
    | (m', Inr _) \<Rightarrow> lane_admits m lane (size_of owner) \<and> (mb_wake_requested m \<or> backend = Inr ()) \<and>
        mailbox_inv m' \<and> mb_wake_requested m' \<and>
        (\<forall>l. lane_items (State_lane m' l) =
          (if l = lane then lane_items (State_lane m l) @ [materialize owner] else lane_items (State_lane m l)))"
proof -
  have wake: "snd (wake_call (mb_wake_requested m) backend) = Inr () \<longleftrightarrow> mb_wake_requested m \<or> backend = Inr ()"
    by (auto simp: wake_call_def split: sum.splits)
  show ?thesis
  proof (cases "lane_admits m lane (size_of owner) \<and> snd (wake_call (mb_wake_requested m) backend) = Inr ()")
    case True
    from send_accepted [where m = m and lane = lane and size_of = size_of and owner = owner and
        backend = backend and materialize = materialize, OF assms conjunct1 [OF True] conjunct2 [OF True]]
    show ?thesis
      using True unfolding wake by auto
  next
    case False
    with send_rejected [where m = m and lane = lane and size_of = size_of and owner = owner and
        backend = backend and materialize = materialize, OF assms]
    show ?thesis
      unfolding wake by auto
  qed
qed

theorem mailbox_send_exact_witness:
  "case MailboxSender_try_send_materialized (mailbox_with mailbox_limits_demo of_nat False) Work (3 :: nat)
      (\<lambda>_. 9) (\<lambda>x. x) (Inr () :: unit + unit) of
     (m', Inl err) \<Rightarrow> tse_item err = 3 | (m', Inr _) \<Rightarrow> mb_wake_requested m'"
  using mailbox_send_exact [OF mailbox_inv_new [of mailbox_limits_demo of_nat False],
      where owner = 3 and lane = Work and size_of = "\<lambda>_. 9" and materialize = "\<lambda>x. x" and backend = "Inr () :: unit + unit"]
  by (auto split: prod.splits sum.splits)

end
