(* ===== verification/Completion.thy ===== *)
theory Completion
  imports Ledger
begin

text \<open>
  One-shot completions (\<open>completion/\<close>): a producer that publishes one value or closes, and one
  observer that waits, polls or tries to take the outcome. Every operation runs under the pair's
  lock, so the operations are functions on the shared state; the theorem is about every
  interleaving of the two handles, each used as its ownership allows.

  A waker is consumer code: the model records which wakers were called. \<open>will_wake\<close> is the answer of
  \<open>Waker::will_wake\<close>.
\<close>

section \<open>State\<close>

datatype completion_error = CompletionClosed | CompletionConsumed

datatype ('a, 'w) completion_state =
  Pending (observer_alive: bool) (pending_waker: "'w option")
| Ready "completion_error + 'a"
| Consumed

definition Completion_new :: "('a, 'w) completion_state" where
  "Completion_new = Pending True None"

text \<open>\<open>retained_bytes\<close>, for a payload of that many bytes; a size past the accounting domain panics.\<close>

definition completion_retained_bytes :: "usize \<Rightarrow> retained_bytes run" where
  "completion_retained_bytes payload = expect (RetainedBytes_try_from_usize payload)"

section \<open>Operations\<close>

text \<open>Each returns the state, the answer, and the waker it takes out to call.\<close>

definition Completion_complete ::
  "('a, 'w) completion_state \<Rightarrow> 'a \<Rightarrow> ('a, 'w) completion_state \<times> ('a + unit) \<times> 'w option" where
  "Completion_complete previous value =
     (case previous of
        Pending alive waker \<Rightarrow>
          if alive then (Ready (Inr value), Inr (), waker) else (Consumed, Inl value, None)
      | Consumed \<Rightarrow> (Consumed, Inl value, None)
      | Ready result \<Rightarrow> (Ready result, Inl value, None))"

definition Completion_close_producer ::
  "('a, 'w) completion_state \<Rightarrow> ('a, 'w) completion_state \<times> 'w option" where
  "Completion_close_producer previous =
     (case previous of
        Pending alive waker \<Rightarrow>
          if alive then (Ready (Inl CompletionClosed), waker) else (Consumed, None)
      | Consumed \<Rightarrow> (Consumed, None)
      | Ready result \<Rightarrow> (Ready result, None))"

text \<open>What \<open>wait\<close>, \<open>try_take\<close> and \<open>poll\<close> do once the state is not pending.\<close>

definition completion_extract ::
  "('a, 'w) completion_state \<Rightarrow> (('a, 'w) completion_state \<times> (completion_error + 'a)) run" where
  "completion_extract state =
     (case state of
        Ready result \<Rightarrow> Ret (Consumed, result)
      | Consumed \<Rightarrow> Ret (Consumed, Inl CompletionConsumed)
      | Pending _ _ \<Rightarrow> Panic)"

definition is_pending :: "('a, 'w) completion_state \<Rightarrow> bool" where
  "is_pending state = (case state of Pending _ _ \<Rightarrow> True | Ready _ \<Rightarrow> False | Consumed \<Rightarrow> False)"

text \<open>\<open>None\<close> is a wait that still blocks.\<close>

definition Completion_wait ::
  "('a, 'w) completion_state \<Rightarrow> (('a, 'w) completion_state \<times> (completion_error + 'a) option) run" where
  "Completion_wait state =
     (if is_pending state then Ret (state, None)
      else and_then (completion_extract state) (\<lambda>(state, result). Ret (state, Some result)))"

definition Completion_try_take ::
  "('a, 'w) completion_state \<Rightarrow> (('a, 'w) completion_state \<times> (completion_error + 'a) option) run" where
  "Completion_try_take state =
     (if is_pending state then Ret (state, None)
      else and_then (completion_extract state) (\<lambda>(state, result). Ret (state, Some result)))"

definition Completion_poll ::
  "('w \<Rightarrow> 'w \<Rightarrow> bool) \<Rightarrow> ('a, 'w) completion_state \<Rightarrow> 'w \<Rightarrow>
   (('a, 'w) completion_state \<times> (completion_error + 'a) option) run" where
  "Completion_poll will_wake state context =
     (case state of
        Pending alive waker \<Rightarrow>
          Ret (Pending alive
                 (if (case waker of None \<Rightarrow> False | Some stored \<Rightarrow> will_wake stored context)
                  then waker else Some context), None)
      | _ \<Rightarrow> and_then (completion_extract state) (\<lambda>(state, result). Ret (state, Some result)))"

text \<open>The discarded outcome, if one was held, is dropped after the lock.\<close>

definition Completion_abandon_observer ::
  "('a, 'w) completion_state \<Rightarrow> ('a, 'w) completion_state \<times> (completion_error + 'a) option" where
  "Completion_abandon_observer previous =
     (case previous of
        Pending _ _ \<Rightarrow> (Pending False None, None)
      | Ready result \<Rightarrow> (Consumed, Some result)
      | Consumed \<Rightarrow> (Consumed, None))"

section \<open>The pair\<close>

text \<open>
  The shared state, whether the producer has settled and the observer handle is gone, and what has
  happened: values published, outcomes delivered, values returned to the producer, outcomes
  discarded, wakers called, and the waker of the last poll that found nothing.
\<close>

record ('a, 'w) pair =
  pr_state :: "('a, 'w) completion_state"
  pr_settled :: bool
  pr_observing :: bool
  pr_published :: "'a list"
  pr_delivered :: "(completion_error + 'a) list"
  pr_returned :: "'a list"
  pr_discarded :: "(completion_error + 'a) list"
  pr_woken :: "'w list"
  pr_waiting :: "'w option"

definition completion_pair :: "('a, 'w) pair" where
  "completion_pair =
     \<lparr> pr_state = Completion_new, pr_settled = False, pr_observing = True, pr_published = [],
       pr_delivered = [], pr_returned = [], pr_discarded = [], pr_woken = [], pr_waiting = None \<rparr>"

definition to_list :: "'x option \<Rightarrow> 'x list" where
  "to_list x = (case x of None \<Rightarrow> [] | Some y \<Rightarrow> [y])"

text \<open>
  The observer's wait consumes its handle, whose drop then abandons; a completer that was not
  settled closes when it is dropped, so closing and dropping are one operation.
\<close>

datatype ('a, 'w) pair_op = Complete 'a | CloseOrDrop | Wait | TryTake | Poll 'w | Abandon

definition abandon_pair :: "('a, 'w) pair \<Rightarrow> ('a, 'w) pair" where
  "abandon_pair p =
     (let (state, discarded) = Completion_abandon_observer (pr_state p) in
      p \<lparr> pr_state := state, pr_observing := False, pr_waiting := None,
          pr_discarded := pr_discarded p @ to_list discarded \<rparr>)"

definition observed_pair ::
  "('a, 'w) pair \<Rightarrow> (('a, 'w) completion_state \<times> (completion_error + 'a) option) run \<Rightarrow> 'w option \<Rightarrow> ('a, 'w) pair run" where
  "observed_pair p result waiting =
     and_then result (\<lambda>(state, outcome).
       Ret (p \<lparr> pr_state := state, pr_delivered := pr_delivered p @ to_list outcome,
                pr_waiting := (if outcome = None then waiting else None) \<rparr>))"

text \<open>\<open>None\<close>: the handle is gone, or the wait blocks.\<close>

definition pair_step :: "('w \<Rightarrow> 'w \<Rightarrow> bool) \<Rightarrow> ('a, 'w) pair \<Rightarrow> ('a, 'w) pair_op \<Rightarrow> ('a, 'w) pair run option" where
  "pair_step will_wake p op =
     (case op of
        Complete value \<Rightarrow>
          if pr_settled p then None
          else (let (state, result, waker) = Completion_complete (pr_state p) value in
            Some (Ret (p \<lparr> pr_state := state, pr_settled := True, pr_published := pr_published p @ [value],
              pr_returned := pr_returned p @ (case result of Inl v \<Rightarrow> [v] | Inr _ \<Rightarrow> []),
              pr_woken := pr_woken p @ to_list waker \<rparr>)))
      | CloseOrDrop \<Rightarrow>
          if pr_settled p then None
          else (let (state, waker) = Completion_close_producer (pr_state p) in
            Some (Ret (p \<lparr> pr_state := state, pr_settled := True, pr_woken := pr_woken p @ to_list waker \<rparr>)))
      | Wait \<Rightarrow>
          if \<not> pr_observing p \<or> is_pending (pr_state p) then None
          else Some (and_then (observed_pair p (Completion_wait (pr_state p)) None) (\<lambda>p. Ret (abandon_pair p)))
      | TryTake \<Rightarrow>
          if \<not> pr_observing p then None
          else Some (observed_pair p (Completion_try_take (pr_state p)) (pr_waiting p))
      | Poll context \<Rightarrow>
          if \<not> pr_observing p then None
          else Some (observed_pair p (Completion_poll will_wake (pr_state p) context) (Some context))
      | Abandon \<Rightarrow> if \<not> pr_observing p then None else Some (Ret (abandon_pair p)))"

inductive pair_reachable :: "('w \<Rightarrow> 'w \<Rightarrow> bool) \<Rightarrow> ('a, 'w) pair \<Rightarrow> bool" for will_wake where
  start: "pair_reachable will_wake completion_pair"
| step: "pair_reachable will_wake p \<Longrightarrow> pair_step will_wake p op = Some (Ret p') \<Longrightarrow> pair_reachable will_wake p'"

section \<open>Invariant\<close>

definition ok_values :: "(completion_error + 'a) list \<Rightarrow> 'a list" where
  "ok_values outcomes = List.map_filter (\<lambda>outcome. case outcome of Inl _ \<Rightarrow> None | Inr v \<Rightarrow> Some v) outcomes"

definition held_value :: "('a, 'w) completion_state \<Rightarrow> 'a list" where
  "held_value state = (case state of Ready (Inr v) \<Rightarrow> [v] | _ \<Rightarrow> [])"

lemma values_simps [simp]:
  "ok_values [] = []" "ok_values (Inl e # rest) = ok_values rest" "ok_values (Inr v # rest) = v # ok_values rest"
  "ok_values (xs @ ys) = ok_values xs @ ok_values ys"
  by (simp_all add: ok_values_def List.map_filter_def)

lemma to_list_simps [simp]: "to_list None = []" "to_list (Some x) = [x]" "set (to_list w) = set_option w"
  by (simp_all add: to_list_def) (cases w; simp)

text \<open>A waker among \<open>S\<close> wakes whoever waits with \<open>w\<close>.\<close>

definition covered :: "('w \<Rightarrow> 'w \<Rightarrow> bool) \<Rightarrow> 'w set \<Rightarrow> 'w \<Rightarrow> bool" where
  "covered will_wake S w \<longleftrightarrow> (\<exists>u\<in>S. u = w \<or> will_wake u w)"

lemma covered_simps [simp]:
  "\<not> covered will_wake {} w"
  "covered will_wake (insert u S) w \<longleftrightarrow> u = w \<or> will_wake u w \<or> covered will_wake S w"
  "covered will_wake (S \<union> T) w \<longleftrightarrow> covered will_wake S w \<or> covered will_wake T w"
  by (auto simp: covered_def)

text \<open>Where the outcome is, by the shape of the shared state.\<close>

definition pair_inv :: "('w \<Rightarrow> 'w \<Rightarrow> bool) \<Rightarrow> ('a, 'w) pair \<Rightarrow> bool" where
  "pair_inv will_wake p \<longleftrightarrow>
     length (pr_published p) \<le> 1 \<and>
     pr_published p = ok_values (pr_delivered p) @ pr_returned p @ ok_values (pr_discarded p) @ held_value (pr_state p) \<and>
     (pr_published p \<noteq> [] \<longrightarrow> pr_settled p) \<and>
     (case pr_state p of
        Pending alive waker \<Rightarrow> \<not> pr_settled p \<and> alive = pr_observing p \<and> pr_delivered p = []
      | Ready result \<Rightarrow> pr_settled p \<and> pr_observing p \<and> pr_delivered p = [] \<and> result \<noteq> Inl CompletionConsumed
      | Consumed \<Rightarrow> pr_settled p \<and> (pr_observing p \<longrightarrow> pr_delivered p \<noteq> [])) \<and>
     (pr_returned p \<noteq> [] \<longrightarrow> \<not> pr_observing p) \<and>
     (\<forall>first rest. pr_delivered p = first # rest \<longrightarrow>
        first \<noteq> Inl CompletionConsumed \<and> set rest \<subseteq> {Inl CompletionConsumed}) \<and>
     (\<forall>w. pr_waiting p = Some w \<longrightarrow> pr_observing p \<and>
        covered will_wake (if is_pending (pr_state p) then set_option (pending_waker (pr_state p))
          else set (pr_woken p)) w)"

lemma pair_inv_new: "pair_inv will_wake completion_pair"
  by (simp add: pair_inv_def completion_pair_def Completion_new_def held_value_def)

section \<open>Every operation keeps the invariant\<close>

lemma is_pending_simps [simp]:
  "is_pending (Pending alive waker)" "\<not> is_pending (Ready result)" "\<not> is_pending Consumed"
  by (simp_all add: is_pending_def)

lemma held_value_simps [simp]:
  "held_value (Pending alive waker) = []" "held_value (Ready (Inl e)) = []" "held_value (Ready (Inr v)) = [v]"
  "held_value Consumed = []"
  by (simp_all add: held_value_def)

lemmas pair_ops = pair_step_def Completion_complete_def Completion_close_producer_def Completion_wait_def
  Completion_try_take_def Completion_poll_def Completion_abandon_observer_def completion_extract_def
  observed_pair_def abandon_pair_def Let_def

lemma pair_step_settle:
  assumes "pair_inv will_wake p" "op = Complete v \<or> op = CloseOrDrop" "pair_step will_wake p op = Some r"
  shows "r \<noteq> Panic \<and> (\<forall>p'. r = Ret p' \<longrightarrow> pair_inv will_wake p')"
  using assms by (cases "pr_state p"; elim disjE) (auto simp: pair_inv_def pair_ops split: if_splits sum.splits)

lemma pair_inv_observed:
  assumes "pair_inv will_wake p" "pr_observing p" "\<not> is_pending (pr_state p)"
    "completion_extract (pr_state p) = Ret (state, outcome)"
  shows "pair_inv will_wake (p \<lparr> pr_state := state, pr_delivered := pr_delivered p @ [outcome], pr_waiting := None \<rparr>)"
proof (cases "pr_state p")
  case (Ready result)
  then show ?thesis
    using assms by (cases result) (auto simp: pair_inv_def completion_extract_def)
next
  case Consumed
  moreover obtain first rest where "pr_delivered p = first # rest"
    using assms(1,2) Consumed by (cases "pr_delivered p") (auto simp: pair_inv_def)
  ultimately show ?thesis
    using assms by (cases first) (auto simp: pair_inv_def completion_extract_def)
qed (use assms in simp)

lemma pair_inv_abandoned:
  assumes "pair_inv will_wake p"
  shows "pair_inv will_wake (abandon_pair p)"
proof (cases "pr_state p")
  case (Ready result)
  then show ?thesis
    using assms by (cases result) (auto simp: pair_inv_def abandon_pair_def Completion_abandon_observer_def)
qed (use assms in \<open>auto simp: pair_inv_def abandon_pair_def Completion_abandon_observer_def\<close>)

lemma completion_extract_cases:
  assumes "\<not> is_pending state"
  obtains result where "completion_extract state = Ret (Consumed, result)"
  using assms by (cases state) (simp_all add: completion_extract_def)

lemma pair_step_observe:
  assumes inv: "pair_inv will_wake p" and op: "op = TryTake \<or> op = Wait \<or> op = Poll w"
    and ready: "\<not> is_pending (pr_state p)" and r: "pair_step will_wake p op = Some r"
  shows "r \<noteq> Panic \<and> (\<forall>p'. r = Ret p' \<longrightarrow> pair_inv will_wake p')"
proof -
  obtain result where e: "completion_extract (pr_state p) = Ret (Consumed, result)"
    using ready by (rule completion_extract_cases)
  have o: "pr_observing p"
    using op r by (auto simp: pair_step_def split: if_splits)
  note kept = pair_inv_observed [OF inv o ready e]
  have "Completion_poll will_wake (pr_state p) w = Ret (Consumed, Some result)"
    using e ready by (cases "pr_state p") (simp_all add: Completion_poll_def)
  then show ?thesis
    using op r o ready e kept pair_inv_abandoned [OF kept]
    by (auto simp: pair_step_def observed_pair_def Completion_wait_def Completion_try_take_def)
qed

lemma pair_step_pending:
  assumes "pair_inv will_wake p" "is_pending (pr_state p)" "op = TryTake \<or> op = Wait \<or> op = Poll w"
    "pair_step will_wake p op = Some r"
  shows "r \<noteq> Panic \<and> (\<forall>p'. r = Ret p' \<longrightarrow> pair_inv will_wake p')"
proof (cases "pr_state p")
  case (Pending alive waker)
  have "r \<noteq> Panic \<and> (\<forall>p'. r = Ret p' \<longrightarrow> pair_inv will_wake p')" if "op = Poll w"
    using that Pending assms
    by (auto simp: pair_inv_def pair_step_def observed_pair_def Completion_poll_def
      split: if_splits option.splits)
  then show ?thesis
    using assms Pending
    by (auto simp: pair_inv_def pair_step_def observed_pair_def Completion_try_take_def split: if_splits)
qed (use assms in simp_all)

lemma pair_step_ok:
  "pair_inv will_wake p \<Longrightarrow> pair_step will_wake p op = Some r \<Longrightarrow> r \<noteq> Panic \<and> (\<forall>p'. r = Ret p' \<longrightarrow> pair_inv will_wake p')"
proof (cases op)
  case Abandon
  assume "pair_inv will_wake p" "pair_step will_wake p op = Some r"
  then show ?thesis
    using Abandon by (auto simp: pair_step_def pair_inv_abandoned split: if_splits)
qed (blast dest: pair_step_settle pair_step_observe pair_step_pending)+

lemma pair_reachable_inv: "pair_reachable will_wake p \<Longrightarrow> pair_inv will_wake p"
proof (induction rule: pair_reachable.induct)
  case (step p op p')
  then show ?case
    using pair_step_ok by blast
qed (rule pair_inv_new)

text \<open>
  C6. A completion carries one outcome from its producer to its observer, whatever the order in
  which the two handles are used. In every reachable state no further operation hits one of the
  source's "invariant violated" panics; at most one value was ever published, and it is in exactly
  one place: delivered to the observer, handed back to the producer, discarded by the observer's
  departure, or still held. A value comes back to the producer only when the observer is gone. The
  first outcome the observer receives is the value or \<open>Closed\<close>, and everything it asks for later is
  \<open>Consumed\<close>. Once the producer has settled, a wait no longer blocks, and a task whose last poll
  found nothing has had a waker called that wakes it.
\<close>

theorem completion_exactly_once:
  assumes "pair_reachable will_wake p"
  shows "pair_step will_wake p op \<noteq> Some Panic \<and>
         length (pr_published p) \<le> 1 \<and>
         pr_published p = ok_values (pr_delivered p) @ pr_returned p @ ok_values (pr_discarded p) @ held_value (pr_state p) \<and>
         (pr_returned p \<noteq> [] \<longrightarrow> \<not> pr_observing p) \<and>
         (\<forall>first rest. pr_delivered p = first # rest \<longrightarrow>
            first \<noteq> Inl CompletionConsumed \<and> set rest \<subseteq> {Inl CompletionConsumed}) \<and>
         (pr_settled p \<longrightarrow> \<not> is_pending (pr_state p)) \<and>
         (\<forall>w. pr_waiting p = Some w \<longrightarrow> pr_settled p \<longrightarrow> covered will_wake (set (pr_woken p)) w)"
proof -
  have inv: "pair_inv will_wake p"
    using assms by (rule pair_reachable_inv)
  have "pair_step will_wake p op \<noteq> Some Panic"
    using pair_step_ok [OF inv] by blast
  moreover have settled: "pr_settled p \<longrightarrow> \<not> is_pending (pr_state p)"
    using inv by (cases "pr_state p") (simp_all add: pair_inv_def)
  moreover have "\<forall>w. pr_waiting p = Some w \<longrightarrow> pr_settled p \<longrightarrow> covered will_wake (set (pr_woken p)) w"
    using inv settled unfolding pair_inv_def by (auto split: if_splits)
  ultimately show ?thesis
    using inv unfolding pair_inv_def by blast
qed

text \<open>A poll, a completion that calls the poll's waker, a take of the value, and a second take.\<close>

definition run_pair :: "('w \<Rightarrow> 'w \<Rightarrow> bool) \<Rightarrow> ('a, 'w) pair \<Rightarrow> ('a, 'w) pair_op list \<Rightarrow> ('a, 'w) pair option" where
  "run_pair will_wake =
     foldl (\<lambda>p op. case p of None \<Rightarrow> None
       | Some p \<Rightarrow> (case pair_step will_wake p op of Some (Ret p') \<Rightarrow> Some p' | _ \<Rightarrow> None)) \<circ> Some"

lemma run_pair_Nil: "run_pair will_wake p [] = Some p"
  by (simp add: run_pair_def)

lemma run_pair_None: "foldl (\<lambda>p op. case p of None \<Rightarrow> None
       | Some p \<Rightarrow> (case pair_step will_wake p op of Some (Ret p') \<Rightarrow> Some p' | _ \<Rightarrow> None)) None ops = None"
  by (induction ops) simp_all

lemma run_pair_Cons:
  "run_pair will_wake p (op # ops) =
     (case pair_step will_wake p op of Some (Ret p') \<Rightarrow> run_pair will_wake p' ops | _ \<Rightarrow> None)"
  by (simp add: run_pair_def run_pair_None split: option.splits run.splits)

lemma run_pair_reachable:
  "pair_reachable will_wake p \<Longrightarrow> run_pair will_wake p ops = Some p' \<Longrightarrow> pair_reachable will_wake p'"
  by (induction ops arbitrary: p)
    (auto simp: run_pair_Nil run_pair_Cons split: option.splits run.splits intro: pair_reachable.step)

definition pair_demo :: "(nat, nat) pair_op list" where
  "pair_demo = [Poll 7, Complete 5, TryTake, TryTake]"

lemma pair_demo_run:
  "\<exists>p. run_pair (=) completion_pair pair_demo = Some p \<and> pr_settled p \<and> pr_woken p = [7] \<and>
       pr_delivered p = [Inr 5, Inl CompletionConsumed]"
  by (simp add: pair_demo_def run_pair_Nil run_pair_Cons pair_ops completion_pair_def Completion_new_def)

theorem completion_exactly_once_witness:
  "\<exists>p. run_pair (=) completion_pair pair_demo = Some p \<and> pr_delivered p = [Inr 5, Inl CompletionConsumed] \<and>
       pr_woken p = [7] \<and> pair_step (=) p Wait \<noteq> Some Panic"
proof -
  obtain p where p: "run_pair (=) completion_pair pair_demo = Some p"
    "pr_delivered p = [Inr 5, Inl CompletionConsumed]" "pr_woken p = [7]"
    using pair_demo_run by blast
  from completion_exactly_once [OF run_pair_reachable [OF pair_reachable.start p(1)]] p show ?thesis
    by blast
qed

end
