(* ===== verification/Shutdown.thy ===== *)
theory Shutdown
  imports Completion
begin

text \<open>
  The shutdown barrier (\<open>shutdown/\<close>): callers subscribe for the end of one shutdown, the first of
  them publishes the request, and a unique owner completes or closes the barrier. The functions on
  the shared state are the code's critical sections, one each; the threads between them are program
  counters of a machine whose steps are those sections, the condition variable's notifications, the
  request callback and the uses of each caller's completion. The completions are those of
  \<open>Completion\<close>, one pair a call.
\<close>

section \<open>Shared state\<close>

datatype shutdown_phase = PhaseOpen | PhaseRequesting | PhaseRequested | PhaseCompleted | PhaseClosed

definition phase_terminal :: "shutdown_phase \<Rightarrow> bool" where
  "phase_terminal phase \<longleftrightarrow> phase \<in> {PhaseCompleted, PhaseClosed}"

text \<open>A subscriber is a completer; the machine below names it by the call that made it.\<close>

record 'c shutdown_shared =
  sh_capacity :: usize
  sh_phase :: shutdown_phase
  sh_subscribers :: "'c list"

datatype 'c request_success = RequestAdmitted | RequestCompleted 'c | RequestClosed 'c

datatype request_failure = FailureReopened | FailureCompleted | FailureClosed

datatype 'e shutdown_subscribe_error = SubscribeFull | SubscribeClosed | SubscribeRequest 'e

definition Shared_new :: "usize \<Rightarrow> 'c shutdown_shared" where
  "Shared_new capacity = \<lparr> sh_capacity = capacity, sh_phase = PhaseOpen, sh_subscribers = [] \<rparr>"

definition Shared_finish_request_success ::
  "'c shutdown_shared \<Rightarrow> 'c \<Rightarrow> ('c shutdown_shared \<times> 'c request_success) run" where
  "Shared_finish_request_success self completer =
     (case sh_phase self of
        PhaseRequesting \<Rightarrow>
          Ret (self \<lparr> sh_subscribers := sh_subscribers self @ [completer], sh_phase := PhaseRequested \<rparr>,
               RequestAdmitted)
      | PhaseCompleted \<Rightarrow> Ret (self, RequestCompleted completer)
      | PhaseClosed \<Rightarrow> Ret (self, RequestClosed completer)
      | PhaseOpen \<Rightarrow> Panic
      | PhaseRequested \<Rightarrow> Panic)"

definition Shared_finish_request_failure ::
  "'c shutdown_shared \<Rightarrow> ('c shutdown_shared \<times> request_failure) run" where
  "Shared_finish_request_failure self =
     (case sh_phase self of
        PhaseRequesting \<Rightarrow> Ret (self \<lparr> sh_phase := PhaseOpen \<rparr>, FailureReopened)
      | PhaseCompleted \<Rightarrow> Ret (self, FailureCompleted)
      | PhaseClosed \<Rightarrow> Ret (self, FailureClosed)
      | PhaseOpen \<Rightarrow> Panic
      | PhaseRequested \<Rightarrow> Panic)"

text \<open>Whether the waiting callers are notified is the second part.\<close>

definition Shared_abort_request :: "'c shutdown_shared \<Rightarrow> 'c shutdown_shared \<times> bool" where
  "Shared_abort_request self =
     (if sh_phase self = PhaseRequesting then (self \<lparr> sh_phase := PhaseOpen \<rparr>, True) else (self, False))"

text \<open>The debug assertion is a panic. \<open>None\<close> is the early return, without a notification.\<close>

definition Shared_settle ::
  "'c shutdown_shared \<Rightarrow> shutdown_phase \<Rightarrow> ('c shutdown_shared \<times> 'c list option) run" where
  "Shared_settle self terminal =
     (if \<not> phase_terminal terminal then Panic
      else if phase_terminal (sh_phase self) then Ret (self, None)
      else Ret (self \<lparr> sh_phase := terminal, sh_subscribers := [] \<rparr>, Some (sh_subscribers self)))"

section \<open>A subscription\<close>

text \<open>
  Where a call of \<open>subscribe\<close> is: about to take the lock, blocked in the condition variable, running
  the callback, about to settle the attempt with what the callback returned, unwinding through the
  armed attempt, about to notify before it goes on, about to complete its own completer, about to
  drop its pair and return an error or unwind, and gone.
\<close>

datatype 'e call_pc =
  SubLock
| SubWait
| SubCallback
| SubFinish "'e + unit"
| SubAbort
| SubNotify "'e call_pc"
| SubComplete
| SubReject "'e shutdown_subscribe_error option"
| SubReturned "'e shutdown_subscribe_error + unit"
| SubUnwound

text \<open>One pass of the loop of \<open>subscribe\<close> under the lock, for the completer of call \<open>i\<close>.\<close>

definition ShutdownRequester_subscribe ::
  "nat shutdown_shared \<Rightarrow> nat \<Rightarrow> nat shutdown_shared \<times> 'e call_pc" where
  "ShutdownRequester_subscribe shared i =
     (case sh_phase shared of
        PhaseOpen \<Rightarrow> (shared \<lparr> sh_phase := PhaseRequesting \<rparr>, SubCallback)
      | PhaseRequesting \<Rightarrow> (shared, SubWait)
      | PhaseRequested \<Rightarrow>
          if unat (sh_capacity shared) \<le> length (sh_subscribers shared)
          then (shared, SubReject (Some SubscribeFull))
          else (shared \<lparr> sh_subscribers := sh_subscribers shared @ [i] \<rparr>, SubReturned (Inr ()))
      | PhaseCompleted \<Rightarrow> (shared, SubComplete)
      | PhaseClosed \<Rightarrow> (shared, SubReject (Some SubscribeClosed)))"

text \<open>What the callback did: returned, or panicked through the armed attempt (\<open>None\<close>).\<close>

definition publish_first_request :: "('e + unit) option \<Rightarrow> 'e call_pc" where
  "publish_first_request requested =
     (case requested of Some result \<Rightarrow> SubFinish result | None \<Rightarrow> SubAbort)"

definition finish_success :: "nat shutdown_shared \<Rightarrow> nat \<Rightarrow> (nat shutdown_shared \<times> 'e call_pc) run" where
  "finish_success shared i =
     and_then (Shared_finish_request_success shared i) (\<lambda>(shared, result).
       Ret (shared, SubNotify
         (case result of
            RequestAdmitted \<Rightarrow> SubReturned (Inr ())
          | RequestCompleted _ \<Rightarrow> SubComplete
          | RequestClosed _ \<Rightarrow> SubReject (Some SubscribeClosed))))"

definition finish_failure :: "nat shutdown_shared \<Rightarrow> 'e \<Rightarrow> (nat shutdown_shared \<times> 'e call_pc) run" where
  "finish_failure shared error =
     and_then (Shared_finish_request_failure shared) (\<lambda>(shared, result).
       Ret (shared, SubNotify
         (case result of
            FailureReopened \<Rightarrow> SubReject (Some (SubscribeRequest error))
          | FailureCompleted \<Rightarrow> SubComplete
          | FailureClosed \<Rightarrow> SubReject (Some SubscribeClosed))))"

text \<open>The drop of an armed attempt.\<close>

definition RequestAttempt_drop :: "nat shutdown_shared \<Rightarrow> nat shutdown_shared \<times> 'e call_pc" where
  "RequestAttempt_drop shared =
     (let (shared, notify) = Shared_abort_request shared in
      (shared, if notify then SubNotify (SubReject None) else SubReject None))"

section \<open>The owner\<close>

text \<open>
  The completer between calls with its \<open>settled\<close> flag, about to notify, settling the subscribers it
  took (completing them for \<open>Completed\<close>, dropping them for \<open>Closed\<close>), and gone.
\<close>

datatype owner_pc =
  OwnerIdle bool
| OwnerNotify shutdown_phase "nat list"
| OwnerDrain shutdown_phase "nat list"
| OwnerGone

definition owner_settle ::
  "nat shutdown_shared \<Rightarrow> shutdown_phase \<Rightarrow> owner_pc \<Rightarrow> (nat shutdown_shared \<times> owner_pc) run" where
  "owner_settle shared terminal next =
     and_then (Shared_settle shared terminal) (\<lambda>(shared, taken).
       Ret (shared, case taken of None \<Rightarrow> next | Some subscribers \<Rightarrow> OwnerNotify terminal subscribers))"

definition ShutdownCompleter_complete ::
  "nat shutdown_shared \<Rightarrow> bool \<Rightarrow> (nat shutdown_shared \<times> owner_pc) run" where
  "ShutdownCompleter_complete shared settled =
     (if settled then Ret (shared, OwnerIdle settled)
      else owner_settle shared PhaseCompleted (OwnerIdle True))"

definition ShutdownCompleter_close ::
  "nat shutdown_shared \<Rightarrow> (nat shutdown_shared \<times> owner_pc) run" where
  "ShutdownCompleter_close shared = owner_settle shared PhaseClosed OwnerGone"

definition ShutdownCompleter_drop ::
  "nat shutdown_shared \<Rightarrow> bool \<Rightarrow> (nat shutdown_shared \<times> owner_pc) run" where
  "ShutdownCompleter_drop shared settled =
     (if settled then Ret (shared, OwnerGone) else owner_settle shared PhaseClosed OwnerGone)"

section \<open>The barrier\<close>

record ('e, 'w) shutdown_call =
  sc_pc :: "'e call_pc"
  sc_pair :: "(unit, 'w) pair"

text \<open>\<open>br_succeeded\<close> records the calls whose request callback returned success.\<close>

record ('e, 'w) barrier =
  br_shared :: "nat shutdown_shared"
  br_owner :: owner_pc
  br_calls :: "('e, 'w) shutdown_call list"
  br_succeeded :: "nat list"

definition shutdown_barrier :: "usize \<Rightarrow> ('e, 'w) barrier" where
  "shutdown_barrier capacity =
     \<lparr> br_shared = Shared_new capacity, br_owner = OwnerIdle False, br_calls = [], br_succeeded = [] \<rparr>"

text \<open>
  A new call, a step of call \<open>i\<close>, a return of its callback, a spurious wake, a use of the completion
  it returned, the three calls of the owner and its steps.
\<close>

datatype ('e, 'w) barrier_op =
  Subscribe
| CallStep nat
| CallbackReturns nat "('e + unit) option"
| SpuriousWake nat
| Observe nat "(unit, 'w) pair_op"
| OwnerCompletes
| OwnerCloses
| OwnerDrops
| OwnerStep

text \<open>A completer or completion used twice would be a panic of the model; none is reachable.\<close>

definition use_pair :: "('w \<Rightarrow> 'w \<Rightarrow> bool) \<Rightarrow> (unit, 'w) pair \<Rightarrow> (unit, 'w) pair_op \<Rightarrow> (unit, 'w) pair run" where
  "use_pair will_wake p op = (case pair_step will_wake p op of None \<Rightarrow> Panic | Some r \<Rightarrow> r)"

definition set_call :: "('e, 'w) barrier \<Rightarrow> nat \<Rightarrow> nat shutdown_shared \<times> 'e call_pc \<Rightarrow> ('e, 'w) barrier" where
  "set_call b i result =
     b \<lparr> br_shared := fst result, br_calls := (br_calls b)[i := (br_calls b ! i) \<lparr> sc_pc := snd result \<rparr>] \<rparr>"

definition set_pair :: "('e, 'w) barrier \<Rightarrow> nat \<Rightarrow> (unit, 'w) pair \<Rightarrow> ('e, 'w) barrier" where
  "set_pair b i p = b \<lparr> br_calls := (br_calls b)[i := (br_calls b ! i) \<lparr> sc_pair := p \<rparr>] \<rparr>"

definition notify_all :: "('e, 'w) barrier \<Rightarrow> ('e, 'w) barrier" where
  "notify_all b =
     b \<lparr> br_calls := map (\<lambda>c. if sc_pc c = SubWait then c \<lparr> sc_pc := SubLock \<rparr> else c) (br_calls b) \<rparr>"

definition use_completer :: "('w \<Rightarrow> 'w \<Rightarrow> bool) \<Rightarrow> ('e, 'w) barrier \<Rightarrow> nat \<Rightarrow> (unit, 'w) pair_op \<Rightarrow> ('e, 'w) barrier run" where
  "use_completer will_wake b i op =
     and_then (use_pair will_wake (sc_pair (br_calls b ! i)) op) (\<lambda>p. Ret (set_pair b i p))"

text \<open>The completer and the completion of a rejected call are dropped.\<close>

definition drop_pair :: "('w \<Rightarrow> 'w \<Rightarrow> bool) \<Rightarrow> ('e, 'w) barrier \<Rightarrow> nat \<Rightarrow> ('e, 'w) barrier run" where
  "drop_pair will_wake b i =
     and_then (use_completer will_wake b i CloseOrDrop) (\<lambda>b. use_completer will_wake b i Abandon)"

fun call_step :: "('w \<Rightarrow> 'w \<Rightarrow> bool) \<Rightarrow> ('e, 'w) barrier \<Rightarrow> nat \<Rightarrow> 'e call_pc \<Rightarrow> ('e, 'w) barrier run option" where
  "call_step will_wake b i SubLock = Some (Ret (set_call b i (ShutdownRequester_subscribe (br_shared b) i)))"
| "call_step will_wake b i (SubFinish (Inr _)) =
     Some (and_then (finish_success (br_shared b) i) (\<lambda>result. Ret (set_call b i result)))"
| "call_step will_wake b i (SubFinish (Inl error)) =
     Some (and_then (finish_failure (br_shared b) error) (\<lambda>result. Ret (set_call b i result)))"
| "call_step will_wake b i SubAbort = Some (Ret (set_call b i (RequestAttempt_drop (br_shared b))))"
| "call_step will_wake b i (SubNotify next) = Some (Ret (notify_all (set_call b i (br_shared b, next))))"
| "call_step will_wake b i SubComplete =
     Some (and_then (use_completer will_wake b i (Complete ())) (\<lambda>b.
       Ret (set_call b i (br_shared b, SubReturned (Inr ())))))"
| "call_step will_wake b i (SubReject error) =
     Some (and_then (drop_pair will_wake b i) (\<lambda>b.
       Ret (set_call b i (br_shared b, case error of Some e \<Rightarrow> SubReturned (Inl e) | None \<Rightarrow> SubUnwound))))"
| "call_step will_wake b i SubWait = None"
| "call_step will_wake b i SubCallback = None"
| "call_step will_wake b i (SubReturned _) = None"
| "call_step will_wake b i SubUnwound = None"

definition set_owner :: "('e, 'w) barrier \<Rightarrow> (nat shutdown_shared \<times> owner_pc) run \<Rightarrow> ('e, 'w) barrier run" where
  "set_owner b result =
     and_then result (\<lambda>(shared, owner). Ret (b \<lparr> br_shared := shared, br_owner := owner \<rparr>))"

fun completer_step :: "('w \<Rightarrow> 'w \<Rightarrow> bool) \<Rightarrow> ('e, 'w) barrier \<Rightarrow> owner_pc \<Rightarrow> ('e, 'w) barrier run option" where
  "completer_step will_wake b (OwnerNotify terminal subscribers) =
     Some (Ret (notify_all b \<lparr> br_owner := OwnerDrain terminal subscribers \<rparr>))"
| "completer_step will_wake b (OwnerDrain terminal []) =
     Some (Ret (b \<lparr> br_owner := if terminal = PhaseCompleted then OwnerIdle True else OwnerGone \<rparr>))"
| "completer_step will_wake b (OwnerDrain terminal (subscriber # subscribers)) =
     Some (and_then
       (use_completer will_wake b subscriber (if terminal = PhaseCompleted then Complete () else CloseOrDrop))
       (\<lambda>b. Ret (b \<lparr> br_owner := OwnerDrain terminal subscribers \<rparr>)))"
| "completer_step will_wake b (OwnerIdle _) = None"
| "completer_step will_wake b OwnerGone = None"

definition consumer_op :: "(unit, 'w) pair_op \<Rightarrow> bool" where
  "consumer_op op = (case op of Complete _ \<Rightarrow> False | CloseOrDrop \<Rightarrow> False | _ \<Rightarrow> True)"

text \<open>\<open>None\<close>: that operation is not possible now.\<close>

definition barrier_step ::
  "('w \<Rightarrow> 'w \<Rightarrow> bool) \<Rightarrow> ('e, 'w) barrier \<Rightarrow> ('e, 'w) barrier_op \<Rightarrow> ('e, 'w) barrier run option" where
  "barrier_step will_wake b op =
     (case op of
        Subscribe \<Rightarrow>
          Some (Ret (b \<lparr> br_calls := br_calls b @ [\<lparr> sc_pc = SubLock, sc_pair = completion_pair \<rparr>] \<rparr>))
      | CallStep i \<Rightarrow>
          if length (br_calls b) \<le> i then None else call_step will_wake b i (sc_pc (br_calls b ! i))
      | CallbackReturns i result \<Rightarrow>
          if length (br_calls b) \<le> i \<or> sc_pc (br_calls b ! i) \<noteq> SubCallback then None
          else Some (Ret (set_call b i (br_shared b, publish_first_request result)
            \<lparr> br_succeeded := (if result = Some (Inr ()) then br_succeeded b @ [i] else br_succeeded b) \<rparr>))
      | SpuriousWake i \<Rightarrow>
          if length (br_calls b) \<le> i \<or> sc_pc (br_calls b ! i) \<noteq> SubWait then None
          else Some (Ret (set_call b i (br_shared b, SubLock)))
      | Observe i op \<Rightarrow>
          if length (br_calls b) \<le> i \<or> sc_pc (br_calls b ! i) \<noteq> SubReturned (Inr ()) \<or> \<not> consumer_op op
          then None
          else (case pair_step will_wake (sc_pair (br_calls b ! i)) op of
                  None \<Rightarrow> None
                | Some r \<Rightarrow> Some (and_then r (\<lambda>p. Ret (set_pair b i p))))
      | OwnerCompletes \<Rightarrow>
          (case br_owner b of
             OwnerIdle settled \<Rightarrow> Some (set_owner b (ShutdownCompleter_complete (br_shared b) settled))
           | _ \<Rightarrow> None)
      | OwnerCloses \<Rightarrow>
          (case br_owner b of
             OwnerIdle _ \<Rightarrow> Some (set_owner b (ShutdownCompleter_close (br_shared b)))
           | _ \<Rightarrow> None)
      | OwnerDrops \<Rightarrow>
          (case br_owner b of
             OwnerIdle settled \<Rightarrow> Some (set_owner b (ShutdownCompleter_drop (br_shared b) settled))
           | _ \<Rightarrow> None)
      | OwnerStep \<Rightarrow> completer_step will_wake b (br_owner b))"

inductive barrier_reachable :: "('w \<Rightarrow> 'w \<Rightarrow> bool) \<Rightarrow> usize \<Rightarrow> ('e, 'w) barrier \<Rightarrow> bool"
  for will_wake capacity where
  start: "barrier_reachable will_wake capacity (shutdown_barrier capacity)"
| step: "barrier_reachable will_wake capacity b \<Longrightarrow> barrier_step will_wake b op = Some (Ret b') \<Longrightarrow>
    barrier_reachable will_wake capacity b'"

section \<open>Invariant\<close>

text \<open>Who holds a call's completer: the call itself, nobody but the barrier, or it is gone.\<close>

datatype call_class = Owning | Accepted | Rejected

fun class_of_call :: "'e call_pc \<Rightarrow> call_class" where
  "class_of_call (SubNotify next) = class_of_call next"
| "class_of_call (SubReturned (Inr _)) = Accepted"
| "class_of_call (SubReturned (Inl _)) = Rejected"
| "class_of_call SubUnwound = Rejected"
| "class_of_call _ = Owning"

definition request_running :: "'e call_pc \<Rightarrow> bool" where
  "request_running pc = (case pc of SubCallback \<Rightarrow> True | SubFinish _ \<Rightarrow> True | SubAbort \<Rightarrow> True | _ \<Rightarrow> False)"

definition notifying :: "'e call_pc \<Rightarrow> bool" where
  "notifying pc = (case pc of SubNotify _ \<Rightarrow> True | _ \<Rightarrow> False)"

definition owner_notifying :: "owner_pc \<Rightarrow> bool" where
  "owner_notifying owner = (case owner of OwnerNotify _ _ \<Rightarrow> True | _ \<Rightarrow> False)"

text \<open>What a call's place says of the phase; a terminal phase is never left.\<close>

fun place_ok :: "shutdown_phase \<Rightarrow> 'e call_pc \<Rightarrow> bool" where
  "place_ok phase SubComplete = (phase = PhaseCompleted)"
| "place_ok phase (SubReject (Some SubscribeClosed)) = (phase = PhaseClosed)"
| "place_ok phase (SubReturned (Inl SubscribeClosed)) = (phase = PhaseClosed)"
| "place_ok phase (SubNotify next) =
     (place_ok phase next \<and> \<not> request_running next \<and> \<not> notifying next \<and> next \<noteq> SubWait)"
| "place_ok phase _ = True"

definition owner_holds :: "owner_pc \<Rightarrow> nat list" where
  "owner_holds owner = (case owner of OwnerNotify _ held \<Rightarrow> held | OwnerDrain _ held \<Rightarrow> held | _ \<Rightarrow> [])"

definition retained :: "('e, 'w) barrier \<Rightarrow> nat list" where
  "retained b = sh_subscribers (br_shared b) @ owner_holds (br_owner b)"

definition call_ok ::
  "('w \<Rightarrow> 'w \<Rightarrow> bool) \<Rightarrow> shutdown_phase \<Rightarrow> bool \<Rightarrow> ('e, 'w) shutdown_call \<Rightarrow> bool" where
  "call_ok will_wake phase held c \<longleftrightarrow>
     pair_reachable will_wake (sc_pair c) \<and> place_ok phase (sc_pc c) \<and>
     (if held then class_of_call (sc_pc c) = Accepted \<and> \<not> pr_settled (sc_pair c) \<and> pr_published (sc_pair c) = []
      else case class_of_call (sc_pc c) of
        Owning \<Rightarrow> sc_pair c = completion_pair
      | Accepted \<Rightarrow> phase_terminal phase \<and> pr_settled (sc_pair c) \<and>
          pr_published (sc_pair c) = (if phase = PhaseCompleted then [()] else [])
      | Rejected \<Rightarrow> pr_settled (sc_pair c) \<and> \<not> pr_observing (sc_pair c) \<and> pr_published (sc_pair c) = [])"

definition owner_ok :: "shutdown_phase \<Rightarrow> owner_pc \<Rightarrow> bool" where
  "owner_ok phase owner =
     (case owner of
        OwnerIdle settled \<Rightarrow> if settled then phase = PhaseCompleted else \<not> phase_terminal phase
      | OwnerNotify terminal _ \<Rightarrow> phase = terminal \<and> phase_terminal terminal
      | OwnerDrain terminal _ \<Rightarrow> phase = terminal \<and> phase_terminal terminal
      | OwnerGone \<Rightarrow> phase_terminal phase)"

definition shared_ok :: "usize \<Rightarrow> 'c shutdown_shared \<Rightarrow> bool" where
  "shared_ok capacity shared \<longleftrightarrow>
     sh_capacity shared = capacity \<and> length (sh_subscribers shared) \<le> unat capacity \<and>
     (sh_phase shared \<noteq> PhaseRequested \<longrightarrow> sh_subscribers shared = [])"

definition calls_at :: "('e call_pc \<Rightarrow> bool) \<Rightarrow> ('e, 'w) shutdown_call list \<Rightarrow> nat" where
  "calls_at P calls = length (filter (P \<circ> sc_pc) calls)"

text \<open>At most one request runs, and at most one ever succeeds.\<close>

definition requests_ok :: "shutdown_phase \<Rightarrow> nat list \<Rightarrow> ('e, 'w) shutdown_call list \<Rightarrow> bool" where
  "requests_ok phase succeeded calls \<longleftrightarrow>
     calls_at request_running calls \<le> (if phase \<in> {PhaseOpen, PhaseRequested} then 0 else 1) \<and>
     (phase = PhaseRequesting \<longrightarrow> calls_at request_running calls = 1) \<and>
     length succeeded + calls_at (\<lambda>pc. pc = SubCallback) calls \<le> 1 \<and>
     calls_at (\<lambda>pc. pc = SubFinish (Inr ())) calls \<le> length succeeded \<and>
     (phase = PhaseOpen \<longrightarrow> succeeded = []) \<and>
     (phase = PhaseRequesting \<longrightarrow> length succeeded \<le> calls_at (\<lambda>pc. pc = SubFinish (Inr ())) calls) \<and>
     (phase = PhaseRequested \<longrightarrow> length succeeded = 1)"

text \<open>A blocked caller has a request to wait for, or a notification on its way.\<close>

definition waits_ok :: "shutdown_phase \<Rightarrow> owner_pc \<Rightarrow> ('e, 'w) shutdown_call list \<Rightarrow> bool" where
  "waits_ok phase owner calls \<longleftrightarrow>
     calls_at (\<lambda>pc. pc = SubWait) calls = 0 \<or> phase = PhaseRequesting \<or> 0 < calls_at notifying calls \<or>
     owner_notifying owner"

definition barrier_core :: "('w \<Rightarrow> 'w \<Rightarrow> bool) \<Rightarrow> usize \<Rightarrow> ('e, 'w) barrier \<Rightarrow> bool" where
  "barrier_core will_wake capacity b \<longleftrightarrow>
     shared_ok capacity (br_shared b) \<and> owner_ok (sh_phase (br_shared b)) (br_owner b) \<and>
     distinct (retained b) \<and> set (retained b) \<subseteq> {..<length (br_calls b)} \<and>
     (\<forall>i<length (br_calls b). call_ok will_wake (sh_phase (br_shared b)) (i \<in> set (retained b)) (br_calls b ! i)) \<and>
     requests_ok (sh_phase (br_shared b)) (br_succeeded b) (br_calls b)"

definition barrier_inv :: "('w \<Rightarrow> 'w \<Rightarrow> bool) \<Rightarrow> usize \<Rightarrow> ('e, 'w) barrier \<Rightarrow> bool" where
  "barrier_inv will_wake capacity b \<longleftrightarrow>
     barrier_core will_wake capacity b \<and> waits_ok (sh_phase (br_shared b)) (br_owner b) (br_calls b)"

section \<open>Counting calls\<close>

lemma calls_at_update:
  "i < length calls \<Longrightarrow>
     calls_at P (calls[i := c]) + (if P (sc_pc (calls ! i)) then 1 else 0) =
     calls_at P calls + (if P (sc_pc c) then 1 else 0)"
proof (induction calls arbitrary: i)
  case (Cons x calls)
  show ?case
  proof (cases i)
    case 0
    then show ?thesis
      by (simp add: calls_at_def)
  next
    case (Suc j)
    then show ?thesis
      using Cons.IH [of j] Cons.prems by (simp add: calls_at_def)
  qed
qed simp

lemma calls_at_mono: "(\<And>pc. P pc \<Longrightarrow> Q pc) \<Longrightarrow> calls_at P calls \<le> calls_at Q calls"
  by (induction calls) (auto simp: calls_at_def)

lemma calls_at_append: "calls_at P (calls @ [c]) = calls_at P calls + (if P (sc_pc c) then 1 else 0)"
  by (simp add: calls_at_def)

lemma calls_at_same_pc:
  "i < length calls \<Longrightarrow> sc_pc c = sc_pc (calls ! i) \<Longrightarrow> calls_at P (calls[i := c]) = calls_at P calls"
  using calls_at_update [of i calls P c] by (simp split: if_splits)

lemma calls_at_member: "i < length calls \<Longrightarrow> P (sc_pc (calls ! i)) \<Longrightarrow> 0 < calls_at P calls"
  by (auto simp: calls_at_def filter_empty_conv)

text \<open>What moving one call does to the counts of the invariant.\<close>

abbreviation moved :: "('e, 'w) shutdown_call list \<Rightarrow> nat \<Rightarrow> 'e call_pc \<Rightarrow> ('e, 'w) shutdown_call list" where
  "moved calls i pc \<equiv> calls[i := (calls ! i) \<lparr> sc_pc := pc \<rparr>]"

lemma calls_at_moved:
  "i < length calls \<Longrightarrow>
     calls_at P (moved calls i pc) + (if P (sc_pc (calls ! i)) then 1 else 0) =
     calls_at P calls + (if P pc then 1 else 0)"
  using calls_at_update [of i calls P "(calls ! i) \<lparr> sc_pc := pc \<rparr>"] by simp

lemma running_mono:
  "calls_at (\<lambda>pc. pc = SubCallback) calls \<le> calls_at request_running calls"
  "calls_at (\<lambda>pc. pc = SubFinish (Inr ())) calls \<le> calls_at request_running calls"
  by (auto simp: request_running_def intro!: calls_at_mono)

text \<open>The counts that \<open>requests_ok\<close> compares, for one call moved.\<close>

lemma request_counts:
  assumes "i < length calls"
  shows "calls_at request_running (moved calls i pc) + (if request_running (sc_pc (calls ! i)) then 1 else 0) =
      calls_at request_running calls + (if request_running pc then 1 else 0)"
    "calls_at (\<lambda>pc. pc = SubCallback) (moved calls i pc) + (if sc_pc (calls ! i) = SubCallback then 1 else 0) =
      calls_at (\<lambda>pc. pc = SubCallback) calls + (if pc = SubCallback then 1 else 0)"
    "calls_at (\<lambda>pc. pc = SubFinish (Inr ())) (moved calls i pc) + (if sc_pc (calls ! i) = SubFinish (Inr ()) then 1 else 0) =
      calls_at (\<lambda>pc. pc = SubFinish (Inr ())) calls + (if pc = SubFinish (Inr ()) then 1 else 0)"
    "calls_at (\<lambda>pc. pc = SubFinish (Inr ())) (moved calls i pc) \<le> calls_at request_running (moved calls i pc)"
  by (rule calls_at_moved [OF assms] running_mono)+

lemma request_running_simps [simp]:
  "request_running SubCallback" "request_running (SubFinish result)" "request_running SubAbort"
  "\<not> request_running SubLock" "\<not> request_running SubWait" "\<not> request_running (SubNotify next)"
  "\<not> request_running SubComplete" "\<not> request_running (SubReject error)"
  "\<not> request_running (SubReturned answer)" "\<not> request_running SubUnwound"
  by (simp_all add: request_running_def)

lemma notifying_simps [simp]:
  "notifying (SubNotify next)" "\<not> notifying SubCallback" "\<not> notifying (SubFinish result)" "\<not> notifying SubAbort"
  "\<not> notifying SubLock" "\<not> notifying SubWait" "\<not> notifying SubComplete" "\<not> notifying (SubReject error)"
  "\<not> notifying (SubReturned answer)" "\<not> notifying SubUnwound"
  by (simp_all add: notifying_def)

lemma phase_terminal_simps [simp]:
  "phase_terminal PhaseCompleted" "phase_terminal PhaseClosed" "\<not> phase_terminal PhaseOpen"
  "\<not> phase_terminal PhaseRequesting" "\<not> phase_terminal PhaseRequested"
  by (simp_all add: phase_terminal_def)

subsection \<open>Requests\<close>

lemma requests_start:
  assumes "i < length calls" "sc_pc (calls ! i) = SubLock" "requests_ok PhaseOpen succeeded calls"
  shows "requests_ok PhaseRequesting succeeded (moved calls i SubCallback)"
  using assms(2,3) request_counts [OF assms(1), of SubCallback] running_mono(1) [of calls]
  by (auto simp: requests_ok_def simp flip: length_0_conv)

lemma requests_quiet:
  assumes "i < length calls" "\<not> request_running (sc_pc (calls ! i))" "\<not> request_running pc'"
    "requests_ok phase succeeded calls"
  shows "requests_ok phase succeeded (moved calls i pc')"
  using assms(4) request_counts [OF assms(1), of pc'] assms(2,3)
  by (cases "sc_pc (calls ! i)"; cases pc') (simp_all add: requests_ok_def)

lemma requests_succeed:
  assumes "i < length calls" "sc_pc (calls ! i) = SubFinish (Inr ())" "\<not> request_running pc'"
    "requests_ok phase succeeded calls" "phase = PhaseRequesting \<and> phase' = PhaseRequested \<or> phase_terminal phase \<and> phase' = phase"
  shows "requests_ok phase' succeeded (moved calls i pc')"
  using assms(2-5) request_counts [OF assms(1), of pc']
  by (auto simp: requests_ok_def phase_terminal_def simp flip: length_0_conv split: if_splits)

lemma requests_fail:
  assumes "i < length calls" "sc_pc (calls ! i) = SubFinish (Inl e) \<or> sc_pc (calls ! i) = SubAbort"
    "\<not> request_running pc'" "requests_ok phase succeeded calls"
    "phase = PhaseRequesting \<and> phase' = PhaseOpen \<or> phase_terminal phase \<and> phase' = phase"
  shows "requests_ok phase' succeeded (moved calls i pc')"
  using assms(2-5) request_counts [OF assms(1), of pc']
  by (auto simp: requests_ok_def phase_terminal_def simp flip: length_0_conv split: if_splits)

lemma requests_callback:
  assumes "i < length calls" "sc_pc (calls ! i) = SubCallback" "requests_ok phase succeeded calls"
  shows "requests_ok phase (if result = Some (Inr ()) then succeeded @ [i] else succeeded)
    (moved calls i (publish_first_request result))"
  using assms(2,3) request_counts [OF assms(1), of "publish_first_request result"]
  by (auto simp: requests_ok_def publish_first_request_def simp flip: length_0_conv split: if_splits option.splits)

lemma requests_settled:
  "requests_ok phase succeeded calls \<Longrightarrow> phase_terminal phase' \<Longrightarrow> requests_ok phase' succeeded calls"
  by (auto simp: requests_ok_def phase_terminal_def simp flip: length_0_conv split: if_splits)
subsection \<open>Places and pairs\<close>

lemma place_ok_later:
  "place_ok phase pc \<Longrightarrow> (phase_terminal phase \<Longrightarrow> phase' = phase) \<Longrightarrow> place_ok phase' pc"
  by (induction phase pc rule: place_ok.induct) (auto simp: phase_terminal_def)

lemma call_ok_later:
  assumes "call_ok will_wake phase held c" "phase_terminal phase \<Longrightarrow> phase' = phase"
  shows "call_ok will_wake phase' held c"
proof (cases "phase_terminal phase")
  case False
  then show ?thesis
    using assms(1) place_ok_later [of phase "sc_pc c" phase']
    by (auto simp: call_ok_def split: if_splits call_class.splits)
qed (use assms in simp)

lemma abandon_pair_simps [simp]:
  "pr_settled (abandon_pair p) = pr_settled p" "pr_published (abandon_pair p) = pr_published p"
  "\<not> pr_observing (abandon_pair p)"
  by (simp_all add: abandon_pair_def split: prod.splits)

lemma observed_pair_keeps:
  assumes "observed_pair p result waiting = Ret p'"
  shows "pr_settled p' = pr_settled p" "pr_published p' = pr_published p"
  using assms by (auto simp: observed_pair_def and_then_Ret_iff)

lemma pair_step_consumer:
  assumes "consumer_op op" "pair_step will_wake p op = Some (Ret p')"
  shows "pr_settled p' = pr_settled p" "pr_published p' = pr_published p"
  using assms
  by (cases op; auto simp: consumer_op_def pair_step_def and_then_Ret_iff observed_pair_keeps split: if_splits)+

text \<open>The uses of a completer: its pair is left settled, with what was published.\<close>

lemma use_pair_settles:
  assumes "pair_reachable will_wake p" "\<not> pr_settled p" "op = Complete () \<or> op = CloseOrDrop"
  obtains p' where "use_pair will_wake p op = Ret p'" "pair_reachable will_wake p'" "pr_settled p'"
    "pr_published p' = pr_published p @ (if op = Complete () then [()] else [])"
    "pr_observing p' = pr_observing p"
proof -
  obtain p' where p': "pair_step will_wake p op = Some (Ret p')" "pr_settled p'"
    "pr_published p' = pr_published p @ (if op = Complete () then [()] else [])"
    "pr_observing p' = pr_observing p"
    using assms(2,3) that
    by (cases "Completion_complete (pr_state p) ()"; cases "Completion_close_producer (pr_state p)")
      (auto simp: pair_step_def)
  show ?thesis
    using p' pair_reachable.step [OF assms(1) p'(1)] by (intro that [of p']) (simp_all add: use_pair_def)
qed

lemma use_pair_abandons:
  assumes "pair_reachable will_wake p" "pr_observing p"
  obtains p' where "use_pair will_wake p Abandon = Ret p'" "pair_reachable will_wake p'"
    "pr_settled p' = pr_settled p" "pr_published p' = pr_published p" "\<not> pr_observing p'"
proof -
  have p': "pair_step will_wake p Abandon = Some (Ret (abandon_pair p))"
    using assms(2) by (simp add: pair_step_def)
  show ?thesis
    using p' pair_reachable.step [OF assms(1) p']
    by (intro that [of "abandon_pair p"]) (simp_all add: use_pair_def)
qed

lemma completion_pair_simps [simp]:
  "\<not> pr_settled completion_pair" "pr_observing completion_pair" "pr_published completion_pair = []"
  by (simp_all add: completion_pair_def)

subsection \<open>A call moves\<close>

lemma retained_set_call: "retained (set_call b i (shared, pc)) = sh_subscribers shared @ owner_holds (br_owner b)"
  by (simp add: retained_def set_call_def)

lemma barrier_core_set_call:
  assumes inv: "barrier_core will_wake capacity b" and i: "i < length (br_calls b)"
    and shared: "shared_ok capacity shared" "owner_ok (sh_phase shared) (br_owner b)"
      "phase_terminal (sh_phase (br_shared b)) \<Longrightarrow> sh_phase shared = sh_phase (br_shared b)"
    and subscribers: "sh_subscribers shared = sh_subscribers (br_shared b) \<or>
      sh_subscribers shared = sh_subscribers (br_shared b) @ [i] \<and> i \<notin> set (retained b)"
    and call: "call_ok will_wake (sh_phase shared) (i \<in> set (sh_subscribers shared @ owner_holds (br_owner b)))
      ((br_calls b ! i) \<lparr> sc_pc := pc \<rparr>)"
    and requests: "requests_ok (sh_phase shared) succeeded (moved (br_calls b) i pc)"
  shows "barrier_core will_wake capacity (set_call b i (shared, pc) \<lparr> br_succeeded := succeeded \<rparr>)"
proof -
  let ?held = "set (sh_subscribers shared @ owner_holds (br_owner b))"
  have held: "j \<in> ?held \<longleftrightarrow> j \<in> set (retained b)" if "j \<noteq> i" for j
    using subscribers that by (auto simp: retained_def)
  have "call_ok will_wake (sh_phase shared) (j \<in> ?held) (moved (br_calls b) i pc ! j)"
    if "j < length (br_calls b)" for j
    using inv that call call_ok_later [OF _ shared(3), of will_wake "j \<in> set (retained b)" "br_calls b ! j"] held [of j]
    by (cases "j = i") (auto simp: barrier_core_def)
  moreover have "distinct (sh_subscribers shared @ owner_holds (br_owner b))" "?held \<subseteq> {..<length (br_calls b)}"
    using inv subscribers i by (auto simp: barrier_core_def retained_def)
  ultimately show ?thesis
    using assms(3,4) requests by (simp add: barrier_core_def set_call_def retained_def)
qed

lemma barrier_coreD:
  assumes "barrier_core will_wake capacity b" "i < length (br_calls b)"
  shows "shared_ok capacity (br_shared b)" "owner_ok (sh_phase (br_shared b)) (br_owner b)"
    "call_ok will_wake (sh_phase (br_shared b)) (i \<in> set (retained b)) (br_calls b ! i)"
    "requests_ok (sh_phase (br_shared b)) (br_succeeded b) (br_calls b)"
  using assms by (simp_all add: barrier_core_def)

text \<open>A call that owns its completer has an untouched pair and is retained by nobody.\<close>

lemma owning_call:
  assumes "barrier_core will_wake capacity b" "i < length (br_calls b)" "class_of_call (sc_pc (br_calls b ! i)) = Owning"
  shows "i \<notin> set (retained b)" "sc_pair (br_calls b ! i) = completion_pair"
    "pair_reachable will_wake (sc_pair (br_calls b ! i))" "place_ok (sh_phase (br_shared b)) (sc_pc (br_calls b ! i))"
  using barrier_coreD(3) [OF assms(1,2)] assms(3) by (auto simp: call_ok_def split: if_splits)
subsection \<open>Notifications\<close>

lemma waits_moved:
  assumes "i < length calls" "waits_ok phase owner calls" "\<not> notifying (sc_pc (calls ! i))"
    "pc \<noteq> SubWait \<or> phase' = PhaseRequesting" "notifying pc \<or> phase' = phase \<or> phase' = PhaseRequesting"
  shows "waits_ok phase' owner (moved calls i pc)"
  using assms(2-5) calls_at_moved [OF assms(1), of "\<lambda>pc. pc = SubWait" pc] calls_at_moved [OF assms(1), of notifying pc]
  by (auto simp: waits_ok_def split: if_splits)

lemma calls_at_notified:
  assumes "P SubWait = P SubLock"
  shows "calls_at P (map (\<lambda>c. if sc_pc c = SubWait then c \<lparr> sc_pc := SubLock \<rparr> else c) calls) = calls_at P calls"
  using assms by (induction calls) (auto simp: calls_at_def)

lemma calls_at_waiting_notified: "calls_at (\<lambda>pc. pc = SubWait) (br_calls (notify_all b)) = 0"
  by (auto simp: calls_at_def notify_all_def filter_empty_conv)

lemma notify_all_simps [simp]:
  "br_shared (notify_all b) = br_shared b" "br_owner (notify_all b) = br_owner b"
  "br_succeeded (notify_all b) = br_succeeded b" "length (br_calls (notify_all b)) = length (br_calls b)"
  "retained (notify_all b) = retained b"
  by (simp_all add: notify_all_def retained_def)

lemma call_ok_notified:
  "call_ok will_wake phase held c \<Longrightarrow>
     call_ok will_wake phase held (if sc_pc c = SubWait then c \<lparr> sc_pc := SubLock \<rparr> else c)"
  by (auto simp: call_ok_def split: if_splits)

lemma notify_all_core:
  assumes "barrier_core will_wake capacity b"
  shows "barrier_core will_wake capacity (notify_all b)"
proof -
  have "requests_ok phase succeeded (br_calls (notify_all b)) = requests_ok phase succeeded (br_calls b)"
    for phase succeeded
    by (simp add: requests_ok_def notify_all_def calls_at_notified)
  moreover have "call_ok will_wake phase held (br_calls (notify_all b) ! i)"
    if "i < length (br_calls b)" "call_ok will_wake phase held (br_calls b ! i)" for phase held i
    using call_ok_notified [OF that(2)] that(1) by (simp add: notify_all_def)
  ultimately show ?thesis
    using assms by (simp add: barrier_core_def)
qed

lemma notified_inv: "barrier_core will_wake capacity b \<Longrightarrow> barrier_inv will_wake capacity (notify_all b)"
  using calls_at_waiting_notified [of b]
  by (simp add: barrier_inv_def notify_all_core waits_ok_def)

text \<open>A call moves, the rest of the invariant at hand.\<close>

lemma barrier_inv_moved:
  assumes inv: "barrier_inv will_wake capacity b" and i: "i < length (br_calls b)"
    and own: "class_of_call (sc_pc (br_calls b ! i)) = Owning" "\<not> notifying (sc_pc (br_calls b ! i))"
    and shared: "shared_ok capacity shared" "owner_ok (sh_phase shared) (br_owner b)"
      "phase_terminal (sh_phase (br_shared b)) \<Longrightarrow> sh_phase shared = sh_phase (br_shared b)"
    and subscribers: "sh_subscribers shared = sh_subscribers (br_shared b) \<and> class_of_call pc = Owning \<or>
      sh_subscribers shared = sh_subscribers (br_shared b) @ [i] \<and> class_of_call pc = Accepted"
    and pc: "place_ok (sh_phase shared) pc" "pc \<noteq> SubWait \<or> sh_phase shared = PhaseRequesting"
      "notifying pc \<or> sh_phase shared = sh_phase (br_shared b) \<or> sh_phase shared = PhaseRequesting"
    and requests: "requests_ok (sh_phase shared) succeeded (moved (br_calls b) i pc)"
  shows "barrier_inv will_wake capacity (set_call b i (shared, pc) \<lparr> br_succeeded := succeeded \<rparr>)"
proof -
  have core: "barrier_core will_wake capacity b" and waits: "waits_ok (sh_phase (br_shared b)) (br_owner b) (br_calls b)"
    using inv by (simp_all add: barrier_inv_def)
  note old = owning_call [OF core i own(1)]
  have "call_ok will_wake (sh_phase shared) (i \<in> set (sh_subscribers shared @ owner_holds (br_owner b)))
      ((br_calls b ! i) \<lparr> sc_pc := pc \<rparr>)"
    using subscribers old pc(1) by (auto simp: call_ok_def retained_def)
  then have "barrier_core will_wake capacity (set_call b i (shared, pc) \<lparr> br_succeeded := succeeded \<rparr>)"
    using barrier_core_set_call [OF core i shared _ _ requests] subscribers old(1) by blast
  then show ?thesis
    using waits_moved [OF i waits own(2) pc(2,3)] by (simp add: barrier_inv_def set_call_def)
qed
subsection \<open>Every step\<close>

lemma set_call_succeeded [simp]: "set_call b i result \<lparr> br_succeeded := br_succeeded b \<rparr> = set_call b i result"
  by (simp add: set_call_def)

lemma owner_ok_running:
  "owner_ok phase owner \<Longrightarrow> \<not> phase_terminal phase \<Longrightarrow> \<not> phase_terminal phase' \<Longrightarrow> owner_ok phase' owner"
  by (auto simp: owner_ok_def split: owner_pc.splits if_splits)

definition barrier_kept :: "('w \<Rightarrow> 'w \<Rightarrow> bool) \<Rightarrow> usize \<Rightarrow> ('e, 'w) barrier run \<Rightarrow> bool" where
  "barrier_kept will_wake capacity r \<longleftrightarrow> (\<exists>b. r = Ret b \<and> barrier_inv will_wake capacity b)"

lemma subscribe_ok:
  assumes inv: "barrier_inv will_wake capacity b" and i: "i < length (br_calls b)" "sc_pc (br_calls b ! i) = SubLock"
  shows "barrier_inv will_wake capacity (set_call b i (ShutdownRequester_subscribe (br_shared b) i))"
proof -
  have core: "barrier_core will_wake capacity b"
    using inv by (simp add: barrier_inv_def)
  note moved = barrier_inv_moved [OF inv i(1), where succeeded = "br_succeeded b", simplified]
  note quiet = requests_quiet [OF i(1) _ _ barrier_coreD(4) [OF core i(1)]]
  show ?thesis
  proof (cases "sh_phase (br_shared b)")
    case PhaseOpen
    then show ?thesis
      using moved [of "br_shared b \<lparr> sh_phase := PhaseRequesting \<rparr>" SubCallback] barrier_coreD [OF core i(1)] i
        requests_start [OF i, of "br_succeeded b"]
      by (simp add: ShutdownRequester_subscribe_def owner_ok_running [of PhaseOpen] shared_ok_def)
  next
    case PhaseRequesting
    then show ?thesis
      using moved [of "br_shared b" SubWait] barrier_coreD [OF core i(1)] i quiet [of SubWait]
      by (simp add: ShutdownRequester_subscribe_def)
  next
    case PhaseRequested
    then show ?thesis
      using moved [of "br_shared b" "SubReject (Some SubscribeFull)"] barrier_coreD [OF core i(1)] i
        moved [of "br_shared b \<lparr> sh_subscribers := sh_subscribers (br_shared b) @ [i] \<rparr>" "SubReturned (Inr ())"]
        quiet [of "SubReject (Some SubscribeFull)"] quiet [of "SubReturned (Inr ())"]
      by (auto simp: ShutdownRequester_subscribe_def shared_ok_def)
  next
    case PhaseCompleted
    then show ?thesis
      using moved [of "br_shared b" SubComplete] barrier_coreD [OF core i(1)] i quiet [of SubComplete]
      by (simp add: ShutdownRequester_subscribe_def)
  next
    case PhaseClosed
    then show ?thesis
      using moved [of "br_shared b" "SubReject (Some SubscribeClosed)"] barrier_coreD [OF core i(1)] i
        quiet [of "SubReject (Some SubscribeClosed)"]
      by (simp add: ShutdownRequester_subscribe_def)
  qed
qed

lemma running_phase:
  assumes "requests_ok phase succeeded calls" "i < length calls" "request_running (sc_pc (calls ! i))"
  shows "phase = PhaseRequesting \<or> phase = PhaseCompleted \<or> phase = PhaseClosed"
  using calls_at_member [of i calls request_running] assms
  by (cases phase) (auto simp: requests_ok_def)

lemma finish_success_ok:
  assumes inv: "barrier_inv will_wake capacity b" and i: "i < length (br_calls b)"
    "sc_pc (br_calls b ! i) = SubFinish (Inr ())" and capacity: "0 < capacity"
  shows "barrier_kept will_wake capacity (and_then (finish_success (br_shared b) i) (\<lambda>result. Ret (set_call b i result)))"
proof -
  have core: "barrier_core will_wake capacity b"
    using inv by (simp add: barrier_inv_def)
  note moved = barrier_inv_moved [OF inv i(1), where succeeded = "br_succeeded b", simplified]
  note requests = requests_succeed [OF i _ barrier_coreD(4) [OF core i(1)]]
  have c: "1 \<le> unat capacity"
    using capacity by (simp add: word_less_nat_alt)
  consider "sh_phase (br_shared b) = PhaseRequesting" | "sh_phase (br_shared b) = PhaseCompleted" |
      "sh_phase (br_shared b) = PhaseClosed"
    using running_phase [OF barrier_coreD(4) [OF core i(1)] i(1)] i(2) by auto
  then show ?thesis
    using barrier_coreD(1,2) [OF core i(1)] i c
      moved [of "br_shared b \<lparr> sh_subscribers := sh_subscribers (br_shared b) @ [i], sh_phase := PhaseRequested \<rparr>"
        "SubNotify (SubReturned (Inr ()))"]
      requests [of "SubNotify (SubReturned (Inr ()))" PhaseRequested]
      moved [of "br_shared b" "SubNotify SubComplete"] requests [of "SubNotify SubComplete"]
      moved [of "br_shared b" "SubNotify (SubReject (Some SubscribeClosed))"]
      requests [of "SubNotify (SubReject (Some SubscribeClosed))"]
    by cases (simp_all add: barrier_kept_def finish_success_def Shared_finish_request_success_def
      owner_ok_running [of PhaseRequesting] shared_ok_def)
qed

lemma finish_failure_ok:
  assumes inv: "barrier_inv will_wake capacity b" and i: "i < length (br_calls b)"
    "sc_pc (br_calls b ! i) = SubFinish (Inl e)"
  shows "barrier_kept will_wake capacity (and_then (finish_failure (br_shared b) e) (\<lambda>result. Ret (set_call b i result)))"
proof -
  have core: "barrier_core will_wake capacity b"
    using inv by (simp add: barrier_inv_def)
  note moved = barrier_inv_moved [OF inv i(1), where succeeded = "br_succeeded b", simplified]
  note requests = requests_fail [OF i(1) disjI1 [OF i(2)] _ barrier_coreD(4) [OF core i(1)]]
  consider "sh_phase (br_shared b) = PhaseRequesting" | "sh_phase (br_shared b) = PhaseCompleted" |
      "sh_phase (br_shared b) = PhaseClosed"
    using running_phase [OF barrier_coreD(4) [OF core i(1)] i(1)] i(2) by auto
  then show ?thesis
    using barrier_coreD(1,2) [OF core i(1)] i
      moved [of "br_shared b \<lparr> sh_phase := PhaseOpen \<rparr>" "SubNotify (SubReject (Some (SubscribeRequest e)))"]
      requests [of "SubNotify (SubReject (Some (SubscribeRequest e)))" PhaseOpen]
      moved [of "br_shared b" "SubNotify SubComplete"] requests [of "SubNotify SubComplete"]
      moved [of "br_shared b" "SubNotify (SubReject (Some SubscribeClosed))"]
      requests [of "SubNotify (SubReject (Some SubscribeClosed))"]
    by cases (simp_all add: barrier_kept_def finish_failure_def Shared_finish_request_failure_def
      owner_ok_running [of PhaseRequesting] shared_ok_def)
qed

lemma abort_ok:
  assumes inv: "barrier_inv will_wake capacity b" and i: "i < length (br_calls b)" "sc_pc (br_calls b ! i) = SubAbort"
  shows "barrier_inv will_wake capacity (set_call b i (RequestAttempt_drop (br_shared b)))"
proof -
  have core: "barrier_core will_wake capacity b"
    using inv by (simp add: barrier_inv_def)
  note moved = barrier_inv_moved [OF inv i(1), where succeeded = "br_succeeded b", simplified]
  note requests = requests_fail [OF i(1) disjI2 [OF i(2)] _ barrier_coreD(4) [OF core i(1)]]
  consider "sh_phase (br_shared b) = PhaseRequesting" | "sh_phase (br_shared b) = PhaseCompleted" |
      "sh_phase (br_shared b) = PhaseClosed"
    using running_phase [OF barrier_coreD(4) [OF core i(1)] i(1)] i(2) by auto
  then show ?thesis
    using barrier_coreD(1,2) [OF core i(1)] i
      moved [of "br_shared b \<lparr> sh_phase := PhaseOpen \<rparr>" "SubNotify (SubReject None)"]
      requests [of "SubNotify (SubReject None)" PhaseOpen] moved [of "br_shared b" "SubReject None"]
      requests [of "SubReject None"]
    by cases (simp_all add: RequestAttempt_drop_def Shared_abort_request_def
      owner_ok_running [of PhaseRequesting] shared_ok_def)
qed
text \<open>The steps that use a pair.\<close>

lemma shutdown_call_update [simp]:
  "c \<lparr> sc_pair := p, sc_pc := pc \<rparr> = \<lparr> sc_pc = pc, sc_pair = p \<rparr>" "c \<lparr> sc_pc := sc_pc c \<rparr> = c"
  for c :: "('e, 'w) shutdown_call"
  by (cases c; simp)+

lemma set_pair_simps [simp]:
  "br_shared (set_pair b i p) = br_shared b" "br_owner (set_pair b i p) = br_owner b"
  "br_succeeded (set_pair b i p) = br_succeeded b" "length (br_calls (set_pair b i p)) = length (br_calls b)"
  "retained (set_pair b i p) = retained b"
  "i < length (br_calls b) \<Longrightarrow> br_calls (set_pair b i p) ! i = (br_calls b ! i) \<lparr> sc_pair := p \<rparr>"
  by (simp_all add: set_pair_def retained_def)

lemma calls_at_set_pair: "calls_at P (br_calls (set_pair b i p)) = calls_at P (br_calls b)"
  using calls_at_same_pc [of i "br_calls b" "(br_calls b ! i) \<lparr> sc_pair := p \<rparr>" P]
  by (cases "i < length (br_calls b)") (simp_all add: set_pair_def list_update_beyond)

lemma requests_set_pair: "requests_ok phase succeeded (br_calls (set_pair b i p)) = requests_ok phase succeeded (br_calls b)"
  by (simp add: requests_ok_def calls_at_set_pair)

lemma waits_set_pair: "waits_ok phase owner (br_calls (set_pair b i p)) = waits_ok phase owner (br_calls b)"
  by (simp add: waits_ok_def calls_at_set_pair)

text \<open>One call's pair and place move together; the rest of the barrier, but the owner, stands.\<close>

lemma barrier_inv_call:
  assumes inv: "barrier_inv will_wake capacity b" and i: "i < length (br_calls b)"
    and pc: "\<not> request_running (sc_pc (br_calls b ! i))" "\<not> notifying (sc_pc (br_calls b ! i))"
      "\<not> request_running pc" "pc \<noteq> SubWait"
    and call: "call_ok will_wake (sh_phase (br_shared b)) (i \<in> set (retained b)) \<lparr> sc_pc = pc, sc_pair = p \<rparr>"
  shows "barrier_inv will_wake capacity (set_call (set_pair b i p) i (br_shared b, pc))"
proof -
  let ?c = "\<lparr> sc_pc = pc, sc_pair = p \<rparr>" and ?b = "set_call (set_pair b i p) i (br_shared b, pc)"
  have core: "barrier_core will_wake capacity b" and waits: "waits_ok (sh_phase (br_shared b)) (br_owner b) (br_calls b)"
    using inv by (simp_all add: barrier_inv_def)
  have b: "?b = b \<lparr> br_calls := (br_calls b)[i := ?c] \<rparr>"
    using i by (simp add: set_call_def set_pair_def)
  have "requests_ok (sh_phase (br_shared b)) (br_succeeded b) (moved (br_calls (set_pair b i p)) i pc)"
    using requests_quiet [of i "br_calls (set_pair b i p)" pc] i pc barrier_coreD(4) [OF core i]
    by (simp add: requests_set_pair)
  moreover have "waits_ok (sh_phase (br_shared b)) (br_owner b) (moved (br_calls (set_pair b i p)) i pc)"
    using waits_moved [of i "br_calls (set_pair b i p)" _ _ pc] i pc waits by (simp add: waits_set_pair)
  moreover have "moved (br_calls (set_pair b i p)) i pc = (br_calls b)[i := ?c]"
    using i by (simp add: set_pair_def)
  moreover have "call_ok will_wake (sh_phase (br_shared b)) (j \<in> set (retained b)) ((br_calls b)[i := ?c] ! j)"
    if "j < length (br_calls b)" for j
    using barrier_coreD(3) [OF core that] call by (cases "j = i") (simp_all add: that i)
  ultimately show ?thesis
    using core unfolding b by (simp add: barrier_inv_def barrier_core_def retained_def)
qed

lemma set_call_same_pc:
  "i < length (br_calls b) \<Longrightarrow> sc_pc (br_calls b ! i) = pc \<Longrightarrow> set_call b i (br_shared b, pc) = b"
  by (auto simp: set_call_def)

lemma complete_own_ok:
  assumes inv: "barrier_inv will_wake capacity b" and i: "i < length (br_calls b)" "sc_pc (br_calls b ! i) = SubComplete"
  shows "barrier_kept will_wake capacity (and_then (use_completer will_wake b i (Complete ())) (\<lambda>b.
       Ret (set_call b i (br_shared b, SubReturned (Inr ())))))"
proof -
  have core: "barrier_core will_wake capacity b"
    using inv by (simp add: barrier_inv_def)
  note own = owning_call [OF core i(1)]
  obtain p where p: "use_pair will_wake (sc_pair (br_calls b ! i)) (Complete ()) = Ret p" "pair_reachable will_wake p"
    "pr_settled p" "pr_published p = [()]"
    using use_pair_settles [of will_wake "sc_pair (br_calls b ! i)" "Complete ()"] own i(2) by auto
  have "call_ok will_wake (sh_phase (br_shared b)) (i \<in> set (retained b)) \<lparr> sc_pc = SubReturned (Inr ()), sc_pair = p \<rparr>"
    using own i(2) p by (simp add: call_ok_def)
  from barrier_inv_call [OF inv i(1) _ _ _ _ this] show ?thesis
    using p(1) i(2) by (simp add: barrier_kept_def use_completer_def)
qed

lemma reject_ok:
  assumes inv: "barrier_inv will_wake capacity b" and i: "i < length (br_calls b)" "sc_pc (br_calls b ! i) = SubReject e"
  shows "barrier_kept will_wake capacity (and_then (drop_pair will_wake b i) (\<lambda>b.
       Ret (set_call b i (br_shared b, case e of Some e \<Rightarrow> SubReturned (Inl e) | None \<Rightarrow> SubUnwound))))"
proof -
  let ?pc = "case e of Some e \<Rightarrow> SubReturned (Inl e) | None \<Rightarrow> SubUnwound"
  have core: "barrier_core will_wake capacity b"
    using inv by (simp add: barrier_inv_def)
  note own = owning_call [OF core i(1)]
  obtain p where p: "use_pair will_wake (sc_pair (br_calls b ! i)) CloseOrDrop = Ret p" "pair_reachable will_wake p"
    "pr_settled p" "pr_published p = []" "pr_observing p"
    using use_pair_settles [of will_wake "sc_pair (br_calls b ! i)" CloseOrDrop] own i(2) by auto
  obtain q where q: "use_pair will_wake p Abandon = Ret q" "pair_reachable will_wake q" "pr_settled q"
    "pr_published q = []" "\<not> pr_observing q"
    using use_pair_abandons [OF p(2,5)] p(3,4) by metis
  have "place_ok (sh_phase (br_shared b)) (SubReject e)"
    using own(4) i(2) by simp
  then have "place_ok (sh_phase (br_shared b)) ?pc"
    by (cases "(sh_phase (br_shared b), SubReject e)" rule: place_ok.cases) (simp_all split: option.splits)
  then have "call_ok will_wake (sh_phase (br_shared b)) (i \<in> set (retained b)) \<lparr> sc_pc = ?pc, sc_pair = q \<rparr>"
    using own(1) i(2) q by (simp add: call_ok_def split: option.splits)
  from barrier_inv_call [OF inv i(1) _ _ _ _ this] show ?thesis
    using p(1) q(1) i
    by (simp add: barrier_kept_def drop_pair_def use_completer_def set_pair_def split: option.splits)
qed

lemma observe_ok:
  assumes inv: "barrier_inv will_wake capacity b" and i: "i < length (br_calls b)"
    "sc_pc (br_calls b ! i) = SubReturned (Inr ())" "consumer_op op" "pair_step will_wake (sc_pair (br_calls b ! i)) op = Some r"
  shows "barrier_kept will_wake capacity (and_then r (\<lambda>p. Ret (set_pair b i p)))"
proof -
  have core: "barrier_core will_wake capacity b"
    using inv by (simp add: barrier_inv_def)
  note call = barrier_coreD(3) [OF core i(1)]
  then have reach: "pair_reachable will_wake (sc_pair (br_calls b ! i))"
    by (simp add: call_ok_def)
  obtain p where r: "r = Ret p"
    using pair_step_ok [OF pair_reachable_inv [OF reach] i(4)] by (cases r) auto
  then have "call_ok will_wake (sh_phase (br_shared b)) (i \<in> set (retained b)) \<lparr> sc_pc = SubReturned (Inr ()), sc_pair = p \<rparr>"
    using call i(2) pair_step_consumer [OF i(3), of will_wake _ p] pair_reachable.step [OF reach] i(4)
    by (auto simp: call_ok_def split: if_splits)
  from barrier_inv_call [OF inv i(1) _ _ _ _ this] show ?thesis
    using r i by (simp add: barrier_kept_def set_call_same_pc [of i "set_pair b i p" "SubReturned (Inr ())", simplified])
qed
text \<open>Steps of the callback and of the condition variable, and new calls.\<close>

lemma callback_ok:
  assumes inv: "barrier_inv will_wake capacity b" and i: "i < length (br_calls b)" "sc_pc (br_calls b ! i) = SubCallback"
  shows "barrier_inv will_wake capacity (set_call b i (br_shared b, publish_first_request result)
    \<lparr> br_succeeded := (if result = Some (Inr ()) then br_succeeded b @ [i] else br_succeeded b) \<rparr>)"
proof -
  have core: "barrier_core will_wake capacity b"
    using inv by (simp add: barrier_inv_def)
  have pc: "class_of_call (publish_first_request result) = Owning"
    "place_ok phase (publish_first_request result)" "publish_first_request result \<noteq> SubWait" for phase
    by (auto simp: publish_first_request_def split: option.splits)
  show ?thesis
    using pc i barrier_coreD [OF core i(1)] requests_callback [OF i barrier_coreD(4) [OF core i(1)]]
    by (intro barrier_inv_moved [OF inv i(1)]) simp_all
qed

lemma spurious_ok:
  assumes inv: "barrier_inv will_wake capacity b" and i: "i < length (br_calls b)" "sc_pc (br_calls b ! i) = SubWait"
  shows "barrier_inv will_wake capacity (set_call b i (br_shared b, SubLock))"
proof -
  have core: "barrier_core will_wake capacity b"
    using inv by (simp add: barrier_inv_def)
  show ?thesis
    using i barrier_coreD [OF core i(1)] requests_quiet [OF i(1) _ _ barrier_coreD(4) [OF core i(1)], of SubLock]
      barrier_inv_moved [OF inv i(1), of "br_shared b" SubLock "br_succeeded b"]
    by simp
qed

lemma notify_ok:
  assumes inv: "barrier_inv will_wake capacity b" and i: "i < length (br_calls b)" "sc_pc (br_calls b ! i) = SubNotify pc"
  shows "barrier_inv will_wake capacity (notify_all (set_call b i (br_shared b, pc)))"
proof -
  have core: "barrier_core will_wake capacity b"
    using inv by (simp add: barrier_inv_def)
  note inv' = barrier_coreD [OF core i(1)]
  have pc: "place_ok (sh_phase (br_shared b)) pc" "\<not> request_running pc"
    using inv'(3) i(2) by (simp_all add: call_ok_def)
  have "call_ok will_wake (sh_phase (br_shared b)) (i \<in> set (retained b)) ((br_calls b ! i) \<lparr> sc_pc := pc \<rparr>)"
    using inv'(3) i(2) pc by (auto simp: call_ok_def split: if_splits call_class.splits)
  then have "barrier_core will_wake capacity (set_call b i (br_shared b, pc) \<lparr> br_succeeded := br_succeeded b \<rparr>)"
    using inv' i pc requests_quiet [OF i(1) _ pc(2) inv'(4)]
    by (intro barrier_core_set_call [OF core i(1)]) (simp_all add: retained_def)
  then show ?thesis
    by (simp add: notified_inv)
qed

lemma new_call_ok:
  assumes inv: "barrier_inv will_wake capacity b"
  shows "barrier_inv will_wake capacity
    (b \<lparr> br_calls := br_calls b @ [\<lparr> sc_pc = SubLock, sc_pair = completion_pair \<rparr>] \<rparr>)"
proof -
  let ?c = "\<lparr> sc_pc = SubLock, sc_pair = completion_pair \<rparr>"
  have "call_ok will_wake phase False ?c" for phase
    by (simp add: call_ok_def pair_reachable.start)
  moreover have "length (br_calls b) \<notin> set (retained b)"
    using inv by (auto simp: barrier_inv_def barrier_core_def)
  ultimately have "call_ok will_wake (sh_phase (br_shared b)) (j \<in> set (retained b)) ((br_calls b @ [?c]) ! j)"
    if "j < Suc (length (br_calls b))" for j
    using inv that by (cases "j = length (br_calls b)") (auto simp: barrier_inv_def barrier_core_def nth_append)
  then show ?thesis
    using inv
    by (auto simp: barrier_inv_def barrier_core_def retained_def requests_ok_def waits_ok_def calls_at_append)
qed

text \<open>The owner.\<close>

lemma owner_settle_ok:
  assumes inv: "barrier_inv will_wake capacity b" and owner: "br_owner b = OwnerIdle False" and t: "phase_terminal terminal"
  shows "barrier_kept will_wake capacity (set_owner b (owner_settle (br_shared b) terminal next))"
proof -
  have phase: "\<not> phase_terminal (sh_phase (br_shared b))"
    using inv owner by (simp add: barrier_inv_def barrier_core_def owner_ok_def)
  let ?b = "b \<lparr> br_shared := br_shared b \<lparr> sh_phase := terminal, sh_subscribers := [] \<rparr>,
    br_owner := OwnerNotify terminal (sh_subscribers (br_shared b)) \<rparr>"
  have held: "retained ?b = retained b"
    using owner by (simp add: retained_def owner_holds_def)
  have core: "barrier_core will_wake capacity b"
    using inv by (simp add: barrier_inv_def)
  then have "\<forall>i<length (br_calls b). call_ok will_wake terminal (i \<in> set (retained b)) (br_calls b ! i)"
    using call_ok_later phase unfolding barrier_core_def by blast
  moreover have "requests_ok terminal (br_succeeded b) (br_calls b)"
    using core t requests_settled unfolding barrier_core_def by blast
  ultimately have "barrier_inv will_wake capacity ?b"
    using core t unfolding barrier_inv_def barrier_core_def held
    by (simp add: shared_ok_def owner_ok_def waits_ok_def owner_notifying_def)
  then show ?thesis
    using phase t by (simp add: barrier_kept_def set_owner_def owner_settle_def Shared_settle_def)
qed

lemma owner_moves:
  assumes "barrier_inv will_wake capacity b" "owner_holds owner = owner_holds (br_owner b)"
    "owner_ok (sh_phase (br_shared b)) owner" "\<not> owner_notifying (br_owner b)"
  shows "barrier_inv will_wake capacity (b \<lparr> br_owner := owner \<rparr>)"
  using assms by (auto simp: barrier_inv_def barrier_core_def retained_def waits_ok_def)

lemma owner_call_ok:
  assumes inv: "barrier_inv will_wake capacity b" and owner: "br_owner b = OwnerIdle settled"
  shows "barrier_kept will_wake capacity (set_owner b (ShutdownCompleter_complete (br_shared b) settled))"
    "barrier_kept will_wake capacity (set_owner b (ShutdownCompleter_close (br_shared b)))"
    "barrier_kept will_wake capacity (set_owner b (ShutdownCompleter_drop (br_shared b) settled))"
proof -
  have gone: "barrier_inv will_wake capacity (b \<lparr> br_owner := OwnerGone \<rparr>)" "phase_terminal (sh_phase (br_shared b))" if settled
    using inv owner that owner_moves [OF inv, of OwnerGone]
    by (simp_all add: barrier_inv_def barrier_core_def owner_ok_def owner_holds_def owner_notifying_def)
  have idle: "b \<lparr> br_owner := OwnerIdle True \<rparr> = b" if settled
    using owner that by (cases b) simp
  show "barrier_kept will_wake capacity (set_owner b (ShutdownCompleter_complete (br_shared b) settled))"
  proof (cases settled)
    case True
    have "set_owner b (ShutdownCompleter_complete (br_shared b) settled) = Ret b"
      using True idle by (simp add: ShutdownCompleter_complete_def set_owner_def)
    then show ?thesis
      using inv by (simp add: barrier_kept_def)
  next
    case False
    then show ?thesis
      using owner owner_settle_ok [OF inv, of PhaseCompleted] by (simp add: ShutdownCompleter_complete_def)
  qed
  have "barrier_kept will_wake capacity (set_owner b (owner_settle (br_shared b) PhaseClosed OwnerGone))"
    using gone owner owner_settle_ok [OF inv, of PhaseClosed]
    by (cases settled) (simp_all add: owner_settle_def Shared_settle_def set_owner_def barrier_kept_def)
  then show "barrier_kept will_wake capacity (set_owner b (ShutdownCompleter_close (br_shared b)))"
    "barrier_kept will_wake capacity (set_owner b (ShutdownCompleter_drop (br_shared b) settled))"
    using gone(1)
    by (simp_all add: ShutdownCompleter_close_def ShutdownCompleter_drop_def set_owner_def barrier_kept_def)
qed

lemma drain_ok:
  assumes inv: "barrier_inv will_wake capacity b" and owner: "br_owner b = OwnerDrain terminal (i # rest)"
  shows "barrier_kept will_wake capacity (and_then
       (use_completer will_wake b i (if terminal = PhaseCompleted then Complete () else CloseOrDrop))
       (\<lambda>b. Ret (b \<lparr> br_owner := OwnerDrain terminal rest \<rparr>)))"
proof -
  let ?op = "if terminal = PhaseCompleted then Complete () else CloseOrDrop"
  have core: "barrier_core will_wake capacity b" and waits: "waits_ok (sh_phase (br_shared b)) (br_owner b) (br_calls b)"
    using inv by (simp_all add: barrier_inv_def)
  have phase: "sh_phase (br_shared b) = terminal" "phase_terminal terminal"
    using core owner by (simp_all add: barrier_core_def owner_ok_def)
  then have "sh_subscribers (br_shared b) = []"
    using core by (auto simp: barrier_core_def shared_ok_def phase_terminal_def)
  then have held: "retained b = i # rest" "i < length (br_calls b)" "i \<notin> set rest"
    using core owner by (auto simp: barrier_core_def retained_def owner_holds_def)
  note call = barrier_coreD(3) [OF core held(2)]
  have old: "pair_reachable will_wake (sc_pair (br_calls b ! i))" "\<not> pr_settled (sc_pair (br_calls b ! i))"
    "pr_published (sc_pair (br_calls b ! i)) = []" "class_of_call (sc_pc (br_calls b ! i)) = Accepted"
    using call held(1) by (simp_all add: call_ok_def)
  have op: "?op = Complete () \<or> ?op = CloseOrDrop"
    by simp
  obtain p where p: "use_pair will_wake (sc_pair (br_calls b ! i)) ?op = Ret p" "pair_reachable will_wake p"
    "pr_settled p" "pr_published p = (if terminal = PhaseCompleted then [()] else [])"
    by (rule use_pair_settles [OF old(1,2) op]) (simp add: old(3) split: if_splits)
  let ?b = "set_pair b i p \<lparr> br_owner := OwnerDrain terminal rest \<rparr>"
  have "call_ok will_wake terminal False ((br_calls b ! i) \<lparr> sc_pair := p \<rparr>)"
    using call phase p old(4) by (simp add: call_ok_def)
  then have "call_ok will_wake terminal (j \<in> set rest) (br_calls (set_pair b i p) ! j)" if "j < length (br_calls b)" for j
    using barrier_coreD(3) [OF core that] held phase that by (cases "j = i") (auto simp: set_pair_def)
  moreover have "retained ?b = rest"
    using \<open>sh_subscribers (br_shared b) = []\<close> by (simp add: retained_def owner_holds_def)
  moreover have "owner_ok terminal (OwnerDrain terminal rest)" "distinct rest" "set rest \<subseteq> {..<length (br_calls b)}"
    using core phase held by (auto simp: barrier_core_def owner_ok_def)
  ultimately have "barrier_inv will_wake capacity ?b"
    using core waits phase owner
    by (auto simp: barrier_inv_def barrier_core_def requests_set_pair waits_set_pair waits_ok_def calls_at_set_pair
      owner_notifying_def)
  then show ?thesis
    using p(1) by (simp add: barrier_kept_def use_completer_def)
qed
lemma completer_step_ok:
  assumes inv: "barrier_inv will_wake capacity b" and r: "completer_step will_wake b (br_owner b) = Some r"
  shows "barrier_kept will_wake capacity r"
proof (cases "br_owner b")
  case (OwnerNotify terminal subscribers)
  have "barrier_core will_wake capacity b"
    using inv by (simp add: barrier_inv_def)
  moreover have "retained (b \<lparr> br_owner := OwnerDrain terminal subscribers \<rparr>) = retained b"
    using OwnerNotify by (simp add: retained_def owner_holds_def)
  ultimately have "barrier_core will_wake capacity (b \<lparr> br_owner := OwnerDrain terminal subscribers \<rparr>)"
    using OwnerNotify by (auto simp: barrier_core_def owner_ok_def)
  then have "barrier_inv will_wake capacity (notify_all (b \<lparr> br_owner := OwnerDrain terminal subscribers \<rparr>))"
    by (rule notified_inv)
  moreover have "notify_all (b \<lparr> br_owner := OwnerDrain terminal subscribers \<rparr>) =
      notify_all b \<lparr> br_owner := OwnerDrain terminal subscribers \<rparr>"
    by (simp add: notify_all_def)
  ultimately show ?thesis
    using r OwnerNotify by (auto simp: barrier_kept_def)
next
  case (OwnerDrain terminal subscribers)
  show ?thesis
  proof (cases subscribers)
    case Nil
    have "owner_ok (sh_phase (br_shared b)) (OwnerDrain terminal [])"
      using inv OwnerDrain Nil by (simp add: barrier_inv_def barrier_core_def)
    then show ?thesis
      using r OwnerDrain Nil owner_moves [OF inv, of "if terminal = PhaseCompleted then OwnerIdle True else OwnerGone"]
      by (auto simp: barrier_kept_def owner_ok_def owner_holds_def owner_notifying_def)
  next
    case (Cons i rest)
    then show ?thesis
      using r OwnerDrain drain_ok [OF inv, of terminal i rest] by auto
  qed
qed (use r in simp_all)

lemma call_step_ok:
  assumes inv: "barrier_inv will_wake capacity b" and i: "i < length (br_calls b)" and capacity: "0 < capacity"
    and r: "call_step will_wake b i (sc_pc (br_calls b ! i)) = Some r"
  shows "barrier_kept will_wake capacity r"
proof (cases "sc_pc (br_calls b ! i)")
  case SubLock
  then show ?thesis
    using r subscribe_ok [OF inv i] by (auto simp: barrier_kept_def)
next
  case (SubFinish result)
  then show ?thesis
    using r finish_success_ok [OF inv i _ capacity] finish_failure_ok [OF inv i] by (cases result) auto
next
  case SubAbort
  then show ?thesis
    using r abort_ok [OF inv i] by (auto simp: barrier_kept_def)
next
  case (SubNotify pc)
  then show ?thesis
    using r notify_ok [OF inv i] by (auto simp: barrier_kept_def)
next
  case SubComplete
  then show ?thesis
    using r complete_own_ok [OF inv i] by auto
next
  case (SubReject e)
  then show ?thesis
    using r reject_ok [OF inv i SubReject] by auto
qed (use r in simp_all)

lemma barrier_step_ok:
  assumes inv: "barrier_inv will_wake capacity b" and capacity: "0 < capacity" and r: "barrier_step will_wake b op = Some r"
  shows "barrier_kept will_wake capacity r"
proof (cases op)
  case Subscribe
  then show ?thesis
    using r new_call_ok [OF inv] by (auto simp: barrier_step_def barrier_kept_def)
next
  case (CallStep i)
  then show ?thesis
    using r call_step_ok [OF inv _ capacity, of i] by (simp add: barrier_step_def split: if_splits)
next
  case (CallbackReturns i result)
  then show ?thesis
    using r callback_ok [OF inv, of i result] by (auto simp: barrier_step_def barrier_kept_def split: if_splits)
next
  case (SpuriousWake i)
  then show ?thesis
    using r spurious_ok [OF inv, of i] by (auto simp: barrier_step_def barrier_kept_def split: if_splits)
next
  case (Observe i used)
  then show ?thesis
    using r observe_ok [OF inv, of i used] by (auto simp: barrier_step_def split: if_splits option.splits)
next
  case OwnerStep
  then show ?thesis
    using r completer_step_ok [OF inv] by (simp add: barrier_step_def)
qed (use r owner_call_ok [OF inv] in \<open>auto simp: barrier_step_def split: owner_pc.splits\<close>)

lemma barrier_inv_new: "barrier_inv will_wake capacity (shutdown_barrier capacity)"
  by (simp add: shutdown_barrier_def barrier_inv_def barrier_core_def Shared_new_def shared_ok_def owner_ok_def
    retained_def owner_holds_def requests_ok_def waits_ok_def calls_at_def)

lemma barrier_reachable_inv:
  "barrier_reachable will_wake capacity b \<Longrightarrow> 0 < capacity \<Longrightarrow> barrier_inv will_wake capacity b"
proof (induction rule: barrier_reachable.induct)
  case (step b op b')
  then show ?case
    using barrier_step_ok [of will_wake capacity b op "Ret b'"] by (auto simp: barrier_kept_def)
qed (rule barrier_inv_new)

section \<open>The barrier's promise\<close>

lemma delivered_published:
  fixes p :: "('a, 'w) pair"
  assumes "pair_inv will_wake p" "Inr v \<in> set (pr_delivered p)"
  shows "pr_published p \<noteq> []"
proof -
  have "v \<in> set (ok_values (pr_delivered p))"
    using assms(2) by (force simp: ok_values_def List.map_filter_def)
  then show ?thesis
    using assms(1) by (auto simp: pair_inv_def)
qed

lemma call_promise:
  assumes core: "barrier_core will_wake capacity b"
  shows "\<forall>i<length (br_calls b). let pc = sc_pc (br_calls b ! i); p = sc_pair (br_calls b ! i) in
      (pc = SubReturned (Inr ()) \<longrightarrow>
         (if i \<in> set (retained b) then \<not> pr_settled p
          else phase_terminal (sh_phase (br_shared b)) \<and> pr_settled p \<and>
            (pr_published p = [()] \<longleftrightarrow> sh_phase (br_shared b) = PhaseCompleted))) \<and>
      (pc = SubUnwound \<or> (\<exists>e. pc = SubReturned (Inl e)) \<longrightarrow>
         i \<notin> set (retained b) \<and> pr_settled p \<and> \<not> pr_observing p \<and> pr_published p = []) \<and>
      (pc = SubReturned (Inl SubscribeClosed) \<longrightarrow> sh_phase (br_shared b) = PhaseClosed) \<and>
      (Inr () \<in> set (pr_delivered p) \<longrightarrow> sh_phase (br_shared b) = PhaseCompleted)"
    (is "\<forall>i<_. ?P i")
proof (intro allI impI)
  fix i
  assume i: "i < length (br_calls b)"
  note call = barrier_coreD(3) [OF core i]
  then have "pr_published (sc_pair (br_calls b ! i)) \<noteq> [] \<longrightarrow> sh_phase (br_shared b) = PhaseCompleted"
    by (auto simp: call_ok_def split: if_splits call_class.splits)
  moreover have "Inr () \<in> set (pr_delivered (sc_pair (br_calls b ! i))) \<longrightarrow> pr_published (sc_pair (br_calls b ! i)) \<noteq> []"
    using call delivered_published [OF pair_reachable_inv [of will_wake "sc_pair (br_calls b ! i)"]]
    unfolding call_ok_def by blast
  ultimately show "?P i"
    using call by (auto simp: call_ok_def Let_def split: if_splits)
qed

text \<open>
  C7. The shutdown barrier admits and settles its subscribers exactly, whatever the order in which
  any number of callers, their request callbacks (which may return, fail or panic), the consumers of
  the completions and the owner take their steps. No step panics: neither the source's invariant
  panics nor a second use of a completer. At most the capacity is retained; at most one callback
  runs, none after one succeeded, and at most one ever succeeds. A call that returned a completion
  is retained by the barrier, or is being settled by its owner, with its completer unused; or the
  barrier is terminal and its completion was given the value exactly if the barrier completed. A
  call that was refused or whose callback panicked has its completer closed, without a value, and
  it was refused as closed only by a closed barrier. Whoever received the value did so from a
  completed barrier. A blocked caller has a running attempt to wait for, or a notification is on
  its way.
\<close>

theorem shutdown_settles_every_subscriber:
  assumes "barrier_reachable will_wake capacity b" "0 < capacity"
  shows "barrier_step will_wake b op \<noteq> Some Panic \<and>
         length (sh_subscribers (br_shared b)) \<le> unat capacity \<and>
         calls_at request_running (br_calls b) \<le> 1 \<and> length (br_succeeded b) \<le> 1 \<and>
         (br_succeeded b \<noteq> [] \<longrightarrow> calls_at (\<lambda>pc. pc = SubCallback) (br_calls b) = 0) \<and>
         (\<forall>i<length (br_calls b). let pc = sc_pc (br_calls b ! i); p = sc_pair (br_calls b ! i) in
            (pc = SubReturned (Inr ()) \<longrightarrow>
               (if i \<in> set (retained b) then \<not> pr_settled p
                else phase_terminal (sh_phase (br_shared b)) \<and> pr_settled p \<and>
                  (pr_published p = [()] \<longleftrightarrow> sh_phase (br_shared b) = PhaseCompleted))) \<and>
            (pc = SubUnwound \<or> (\<exists>e. pc = SubReturned (Inl e)) \<longrightarrow>
               i \<notin> set (retained b) \<and> pr_settled p \<and> \<not> pr_observing p \<and> pr_published p = []) \<and>
            (pc = SubReturned (Inl SubscribeClosed) \<longrightarrow> sh_phase (br_shared b) = PhaseClosed) \<and>
            (Inr () \<in> set (pr_delivered p) \<longrightarrow> sh_phase (br_shared b) = PhaseCompleted)) \<and>
         (0 < calls_at (\<lambda>pc. pc = SubWait) (br_calls b) \<longrightarrow>
            sh_phase (br_shared b) = PhaseRequesting \<and> calls_at request_running (br_calls b) = 1 \<or>
            0 < calls_at notifying (br_calls b) \<or> owner_notifying (br_owner b))"
proof -
  have inv: "barrier_inv will_wake capacity b"
    using barrier_reachable_inv [OF assms] .
  then have core: "barrier_core will_wake capacity b" and waits: "waits_ok (sh_phase (br_shared b)) (br_owner b) (br_calls b)"
    by (simp_all add: barrier_inv_def)
  have requests: "requests_ok (sh_phase (br_shared b)) (br_succeeded b) (br_calls b)"
    and shared: "shared_ok capacity (br_shared b)"
    using core by (simp_all add: barrier_core_def)
  have one: "calls_at request_running (br_calls b) \<le> 1 \<and> length (br_succeeded b) \<le> 1 \<and>
      (br_succeeded b \<noteq> [] \<longrightarrow> calls_at (\<lambda>pc. pc = SubCallback) (br_calls b) = 0)"
    using requests by (cases "br_succeeded b") (auto simp: requests_ok_def split: if_splits)
  have waiting: "0 < calls_at (\<lambda>pc. pc = SubWait) (br_calls b) \<longrightarrow>
      sh_phase (br_shared b) = PhaseRequesting \<and> calls_at request_running (br_calls b) = 1 \<or>
      0 < calls_at notifying (br_calls b) \<or> owner_notifying (br_owner b)"
    using waits requests by (auto simp: waits_ok_def requests_ok_def)
  have "barrier_step will_wake b op \<noteq> Some Panic"
    using barrier_step_ok [OF inv assms(2), of op Panic] by (auto simp: barrier_kept_def)
  moreover have "length (sh_subscribers (br_shared b)) \<le> unat capacity"
    using shared by (simp add: shared_ok_def)
  ultimately show ?thesis
    using one waiting call_promise [OF core] unfolding Let_def by blast
qed

text \<open>
  Three callers of a barrier of two: the second blocks while the first's request runs, then joins
  it; the third is refused. The owner completes, and the first caller takes its value.
\<close>

definition run_barrier ::
  "('w \<Rightarrow> 'w \<Rightarrow> bool) \<Rightarrow> ('e, 'w) barrier \<Rightarrow> ('e, 'w) barrier_op list \<Rightarrow> ('e, 'w) barrier option" where
  "run_barrier will_wake =
     (\<lambda>b ops. fold (\<lambda>op b. case b of None \<Rightarrow> None
       | Some b \<Rightarrow> (case barrier_step will_wake b op of Some (Ret b') \<Rightarrow> Some b' | _ \<Rightarrow> None)) ops (Some b))"

lemma run_barrier_reachable:
  "barrier_reachable will_wake capacity b \<Longrightarrow> run_barrier will_wake b ops = Some b' \<Longrightarrow>
     barrier_reachable will_wake capacity b'"
proof (induction ops arbitrary: b)
  case (Cons op ops)
  have none: "fold (\<lambda>op b. case b of None \<Rightarrow> None
       | Some b \<Rightarrow> (case barrier_step will_wake b op of Some (Ret b') \<Rightarrow> Some b' | _ \<Rightarrow> None)) ops None = None"
    by (induction ops) simp_all
  obtain c where "barrier_step will_wake b op = Some (Ret c)" "run_barrier will_wake c ops = Some b'"
    using Cons.prems(2) none by (auto simp: run_barrier_def split: option.splits run.splits)
  then show ?case
    using Cons.IH [OF barrier_reachable.step [OF Cons.prems(1)]] by blast
qed (simp add: run_barrier_def)

definition barrier_demo :: "(nat, nat) barrier_op list" where
  "barrier_demo =
     [Subscribe, Subscribe, Subscribe, CallStep 0, CallStep 1, CallbackReturns 0 (Some (Inr ())), CallStep 0,
      CallStep 0, CallStep 1, CallStep 2, CallStep 2, OwnerCompletes, OwnerStep, OwnerStep, OwnerStep, OwnerStep,
      Observe 0 TryTake]"

lemma barrier_demo_run:
  "case run_barrier (=) (shutdown_barrier 2) barrier_demo of None \<Rightarrow> False
   | Some b \<Rightarrow> br_owner b = OwnerIdle True \<and> sh_phase (br_shared b) = PhaseCompleted \<and>
       map sc_pc (br_calls b) =
         [SubReturned (Inr ()), SubReturned (Inr ()), SubReturned (Inl SubscribeFull)] \<and>
       pr_delivered (sc_pair (br_calls b ! 0)) = [Inr ()]"
  by code_simp

theorem shutdown_settles_every_subscriber_witness:
  "\<exists>b. run_barrier (=) (shutdown_barrier 2) barrier_demo = Some b \<and>
       map sc_pc (br_calls b) =
         [SubReturned (Inr ()), SubReturned (Inr ()), SubReturned (Inl SubscribeFull)] \<and>
       sh_phase (br_shared b) = PhaseCompleted \<and> barrier_step (=) b OwnerDrops \<noteq> Some Panic"
proof -
  obtain b where b: "run_barrier (=) (shutdown_barrier 2) barrier_demo = Some b"
    "map sc_pc (br_calls b) = [SubReturned (Inr ()), SubReturned (Inr ()), SubReturned (Inl SubscribeFull)]"
    "pr_delivered (sc_pair (br_calls b ! 0)) = [Inr ()]"
    using barrier_demo_run by (auto split: option.splits)
  have "length (br_calls b) = 3"
    using arg_cong [OF b(2), of length] by simp
  then have "Inr () \<in> set (pr_delivered (sc_pair (br_calls b ! 0)))" "0 < length (br_calls b)"
    using b(3) by simp_all
  moreover have "0 < (2 :: usize)"
    by simp
  note promise = shutdown_settles_every_subscriber [OF run_barrier_reachable [OF barrier_reachable.start b(1)] this,
    of OwnerDrops, unfolded Let_def]
  ultimately have "sh_phase (br_shared b) = PhaseCompleted"
    by blast
  with b(1,2) show ?thesis
    using conjunct1 [OF promise] by (intro exI [of _ b] conjI)
qed

end
