(* ===== verification/Host.thy ===== *)
theory Host
  imports Next_Turn
begin

text \<open>
  The embedded host (\<open>host/\<close>): one caller-driven owner, its clock, the policy that turns an owner's
  interest into a bounded wait, and the terminal phases; and the thread parker, the simplest waiter.

  The duty, the clock and the waiter are consumer code: each is a function on its own state that may
  panic. The theorem is about every sequence of steps.
\<close>

section \<open>Actions\<close>

record host_config =
  hc_wait_ceiling :: span

definition DEFAULT_WAIT_CEILING :: span where
  "DEFAULT_WAIT_CEILING = 100000000"

definition HostConfig_default :: host_config where
  "HostConfig_default = \<lparr> hc_wait_ceiling = DEFAULT_WAIT_CEILING \<rparr>"

datatype host_action = HostContinue | HostWait span | HostStop

definition HostAction_from_wait :: "span \<Rightarrow> host_action" where
  "HostAction_from_wait wait = (if wait = 0 then HostContinue else HostWait wait)"

definition HostAction_for_next :: "next_run \<Rightarrow> moment \<Rightarrow> host_config \<Rightarrow> host_action" where
  "HostAction_for_next nxt now config =
     (case nxt of
        Now \<Rightarrow> HostContinue
      | Wake \<Rightarrow> HostAction_from_wait (hc_wait_ceiling config)
      | WakeOr deadline \<Rightarrow>
          let wait = Span_min (Deadline_remaining_at deadline now) (hc_wait_ceiling config) in
          HostAction_from_wait wait
      | Stop \<Rightarrow> HostStop)"

definition HostAction_for_turn :: "turn \<Rightarrow> moment \<Rightarrow> host_config \<Rightarrow> host_action" where
  "HostAction_for_turn turn now config = HostAction_for_next (turn_next turn) now config"

definition HostAction_wait_span :: "host_action \<Rightarrow> span option" where
  "HostAction_wait_span self = (case self of HostWait wait \<Rightarrow> Some wait | HostContinue \<Rightarrow> None | HostStop \<Rightarrow> None)"

record host_step =
  hst_started_at :: moment
  hst_completed_at :: moment
  hst_turn :: turn
  hst_action :: host_action

section \<open>Snapshots\<close>

datatype host_phase = HostRunning | HostStopped | HostTerminated | HostFailed

record host_snapshot =
  hs_phase :: host_phase
  hs_turns :: u64
  hs_work :: work_count
  hs_last_moment :: "moment option"
  hs_last_turn :: "turn option"
  hs_last_action :: "host_action option"

definition HostSnapshot_new :: host_snapshot where
  "HostSnapshot_new = \<lparr> hs_phase = HostRunning, hs_turns = 0, hs_work = WorkCount_ZERO, hs_last_moment = None,
     hs_last_turn = None, hs_last_action = None \<rparr>"

definition HostSnapshot_observe :: "host_snapshot \<Rightarrow> moment \<Rightarrow> host_snapshot" where
  "HostSnapshot_observe self moment = self \<lparr> hs_last_moment := Some moment \<rparr>"

definition HostSnapshot_record :: "host_snapshot \<Rightarrow> turn \<Rightarrow> host_action \<Rightarrow> host_snapshot" where
  "HostSnapshot_record self turn action =
     self \<lparr> hs_turns := saturating_add (hs_turns self) 1,
            hs_work := WorkCount_saturating_add (hs_work self) (turn_work turn),
            hs_last_turn := Some turn, hs_last_action := Some action \<rparr>"

definition HostSnapshot_stop :: "host_snapshot \<Rightarrow> host_snapshot" where
  "HostSnapshot_stop self = self \<lparr> hs_phase := HostStopped \<rparr>"

definition HostSnapshot_terminate :: "host_snapshot \<Rightarrow> host_snapshot" where
  "HostSnapshot_terminate self = self \<lparr> hs_phase := HostTerminated \<rparr>"

definition HostSnapshot_fail :: "host_snapshot \<Rightarrow> host_snapshot" where
  "HostSnapshot_fail self = self \<lparr> hs_phase := HostFailed \<rparr>"

lemmas host_snapshot_ops = HostSnapshot_new_def HostSnapshot_observe_def HostSnapshot_record_def
  HostSnapshot_stop_def HostSnapshot_terminate_def HostSnapshot_fail_def

section \<open>The host\<close>

text \<open>The traits \<open>Duty\<close> and \<open>Clock\<close>, as the code that implements them.\<close>

record ('d, 'de) duty_code =
  dc_turn :: "'d \<Rightarrow> moment \<Rightarrow> ('d \<times> ('de + turn)) run"

record ('c, 'ce) clock_code =
  cc_now :: "'c \<Rightarrow> ('c \<times> ('ce + moment)) run"

text \<open>The production clock; \<open>elapsed\<close> is what \<open>Instant::elapsed\<close> answers, one reading after another.\<close>

record monotonic_clock =
  mc_origin :: nat
  mc_elapsed :: "duration list"

definition MonotonicClock_shares_origin :: "monotonic_clock \<Rightarrow> monotonic_clock \<Rightarrow> bool" where
  "MonotonicClock_shares_origin self other \<longleftrightarrow> mc_origin self = mc_origin other"

definition MonotonicClock_now :: "monotonic_clock \<Rightarrow> (monotonic_clock \<times> (duration_overflow + moment)) run" where
  "MonotonicClock_now self =
     (case mc_elapsed self of
        [] \<Rightarrow> Panic
      | elapsed # rest \<Rightarrow>
          Ret (self \<lparr> mc_elapsed := rest \<rparr>,
            (case Span_try_from elapsed of Inl overflow \<Rightarrow> Inl overflow | Inr sp \<Rightarrow> Inr sp)))"

record ('d, 'c) embedded_host =
  eh_duty :: 'd
  eh_clock :: 'c
  eh_config :: host_config
  eh_snapshot :: host_snapshot

definition EmbeddedHost_new :: "'d \<Rightarrow> 'c \<Rightarrow> host_config \<Rightarrow> ('d, 'c) embedded_host" where
  "EmbeddedHost_new duty clock config =
     \<lparr> eh_duty = duty, eh_clock = clock, eh_config = config, eh_snapshot = HostSnapshot_new \<rparr>"

datatype ('de, 'ce) host_error =
  HostNotRunning host_phase
| HostClock 'ce
| HostClockRegressed moment moment
| HostDuty 'de

definition HostError_phase :: "('de, 'ce) host_error \<Rightarrow> host_phase option" where
  "HostError_phase self = (case self of HostNotRunning phase \<Rightarrow> Some phase | _ \<Rightarrow> None)"

definition EmbeddedHost_fail :: "('d, 'c) embedded_host \<Rightarrow> ('d, 'c) embedded_host" where
  "EmbeddedHost_fail self = self \<lparr> eh_snapshot := HostSnapshot_fail (eh_snapshot self) \<rparr>"

definition EmbeddedHost_terminate :: "('d, 'c) embedded_host \<Rightarrow> ('d, 'c) embedded_host" where
  "EmbeddedHost_terminate self = self \<lparr> eh_snapshot := HostSnapshot_terminate (eh_snapshot self) \<rparr>"

definition EmbeddedHost_observe_now ::
  "('c, 'ce) clock_code \<Rightarrow> ('d, 'c) embedded_host \<Rightarrow>
   (('d, 'c) embedded_host \<times> (('de, 'ce) host_error + moment)) run" where
  "EmbeddedHost_observe_now cc self =
     and_then (cc_now cc (eh_clock self)) (\<lambda>(clock, now).
       let self = self \<lparr> eh_clock := clock \<rparr> in
       case now of
         Inl source \<Rightarrow> Ret (EmbeddedHost_fail self, Inl (HostClock source))
       | Inr observed \<Rightarrow>
           (case hs_last_moment (eh_snapshot self) of
              Some previous \<Rightarrow>
                if observed < previous
                then Ret (EmbeddedHost_fail self, Inl (HostClockRegressed previous observed))
                else Ret (self \<lparr> eh_snapshot := HostSnapshot_observe (eh_snapshot self) observed \<rparr>, Inr observed)
            | None \<Rightarrow>
                Ret (self \<lparr> eh_snapshot := HostSnapshot_observe (eh_snapshot self) observed \<rparr>, Inr observed)))"

definition EmbeddedHost_step ::
  "('d, 'de) duty_code \<Rightarrow> ('c, 'ce) clock_code \<Rightarrow> ('d, 'c) embedded_host \<Rightarrow>
   (('d, 'c) embedded_host \<times> (('de, 'ce) host_error + host_step)) run" where
  "EmbeddedHost_step dc cc self =
     (if hs_phase (eh_snapshot self) \<noteq> HostRunning
      then Ret (self, Inl (HostNotRunning (hs_phase (eh_snapshot self))))
      else and_then (EmbeddedHost_observe_now cc self) (\<lambda>(self, started).
        case started of Inl e \<Rightarrow> Ret (self, Inl e) | Inr started_at \<Rightarrow>
        and_then (dc_turn dc (eh_duty self) started_at) (\<lambda>(duty, turned).
          let self = self \<lparr> eh_duty := duty \<rparr> in
          case turned of
            Inl source \<Rightarrow> Ret (EmbeddedHost_fail self, Inl (HostDuty source))
          | Inr turn \<Rightarrow>
              and_then (EmbeddedHost_observe_now cc self) (\<lambda>(self, completed).
                case completed of Inl e \<Rightarrow> Ret (self, Inl e) | Inr completed_at \<Rightarrow>
                let action = HostAction_for_turn turn completed_at (eh_config self);
                    self = self \<lparr> eh_snapshot := HostSnapshot_record (eh_snapshot self) turn action \<rparr>;
                    self = (if action = HostStop
                            then self \<lparr> eh_snapshot := HostSnapshot_stop (eh_snapshot self) \<rparr> else self) in
                Ret (self, Inr \<lparr> hst_started_at = started_at, hst_completed_at = completed_at,
                  hst_turn = turn, hst_action = action \<rparr>)))))"

section \<open>The parker\<close>

datatype wait_outcome = Notified | IdleReturn

text \<open>
  The token under the parker's lock. A wait that blocks gives the lock up: \<open>arrived\<close> says whether a
  notification came while it was blocked, without which \<open>wait_timeout_while\<close> returns on its timeout.
\<close>

definition thread_parker :: bool where
  "thread_parker = False"

definition ThreadNotifier_notify :: "bool \<Rightarrow> bool" where
  "ThreadNotifier_notify notified = True"

definition ThreadParker_wait :: "bool \<Rightarrow> span \<Rightarrow> bool \<Rightarrow> bool \<times> wait_outcome" where
  "ThreadParker_wait notified maximum arrived =
     (if notified then (False, Notified)
      else if maximum = 0 then (notified, IdleReturn)
      else let notified = (if arrived then ThreadNotifier_notify notified else notified) in
        if notified then (False, Notified) else (notified, IdleReturn))"

text \<open>A notification is a token: it is kept until a wait takes it, and taken by one wait only.\<close>

lemma parker_token:
  "ThreadParker_wait (ThreadNotifier_notify notified) maximum arrived = (False, Notified)"
  "ThreadParker_wait notified maximum arrived = (notified', outcome) \<Longrightarrow>
     \<not> notified' \<and> (outcome = Notified \<longleftrightarrow> notified \<or> maximum \<noteq> 0 \<and> arrived)"
  by (auto simp: ThreadParker_wait_def ThreadNotifier_notify_def split: if_splits)

section \<open>Waits\<close>

text \<open>The action is the bounded wait of the merged interest, zero meaning another turn at once.\<close>

lemma for_next_bounded_wait:
  "HostAction_for_next n now config =
     (if n = Stop then HostStop else HostAction_from_wait (Next_bounded_wait n now (hc_wait_ceiling config)))"
  by (cases n) (simp_all add: HostAction_for_next_def HostAction_from_wait_def Span_ZERO_def)

section \<open>One step\<close>

text \<open>What an accepted observation is, and what a refused one leaves.\<close>

lemma observe_now_cases:
  assumes "EmbeddedHost_observe_now cc h = Ret (h', r)"
  obtains (refused) e where "r = Inl e" "HostError_phase e = None"
      "\<And>p ob. e = HostClockRegressed p ob \<Longrightarrow> ob < p"
      "eh_config h' = eh_config h" "eh_snapshot h' = HostSnapshot_fail (eh_snapshot h)"
    | (observed) m where "r = Inr m" "eh_config h' = eh_config h"
      "\<And>l. hs_last_moment (eh_snapshot h) = Some l \<Longrightarrow> l \<le> m"
      "eh_snapshot h' = HostSnapshot_observe (eh_snapshot h) m"
proof -
  obtain clock now where n: "cc_now cc (eh_clock h) = Ret (clock, now)"
    using assms by (auto simp: EmbeddedHost_observe_now_def and_then_Ret_iff)
  show thesis
  proof (cases now)
    case (Inl source)
    show thesis
      by (rule refused [of "HostClock source"])
        (use assms n Inl in \<open>auto simp: EmbeddedHost_observe_now_def EmbeddedHost_fail_def HostError_phase_def Let_def\<close>)
  next
    case (Inr m)
    show thesis
    proof (cases "\<exists>l. hs_last_moment (eh_snapshot h) = Some l \<and> m < l")
      case True
      then obtain l where l: "hs_last_moment (eh_snapshot h) = Some l" "m < l"
        by blast
      show thesis
        by (rule refused [of "HostClockRegressed l m"])
          (use assms n Inr l in \<open>auto simp: EmbeddedHost_observe_now_def EmbeddedHost_fail_def HostError_phase_def Let_def\<close>)
    next
      case False
      show thesis
        by (rule observed [of m])
          (use assms n Inr False in
            \<open>auto simp: EmbeddedHost_observe_now_def Let_def not_less split: option.splits if_splits\<close>)
    qed
  qed
qed

lemma EmbeddedHost_step_cases:
  fixes dc :: "('d, 'de) duty_code" and cc :: "('c, 'ce) clock_code"
  assumes "EmbeddedHost_step dc cc h = Ret (h', r)"
  obtains (not_running) "hs_phase (eh_snapshot h) \<noteq> HostRunning" "h' = h"
      "r = Inl (HostNotRunning (hs_phase (eh_snapshot h)))"
    | (failed) e where "hs_phase (eh_snapshot h) = HostRunning" "r = Inl e" "HostError_phase e = None"
      "\<And>p ob. e = HostClockRegressed p ob \<Longrightarrow> ob < p" "eh_config h' = eh_config h"
      "hs_phase (eh_snapshot h') = HostFailed" "hs_turns (eh_snapshot h') = hs_turns (eh_snapshot h)"
      "hs_work (eh_snapshot h') = hs_work (eh_snapshot h)"
      "\<And>l. hs_last_moment (eh_snapshot h) = Some l \<Longrightarrow> \<exists>l'. hs_last_moment (eh_snapshot h') = Some l' \<and> l \<le> l'"
    | (turned) st where "hs_phase (eh_snapshot h) = HostRunning" "r = Inr st" "eh_config h' = eh_config h"
      "\<And>l. hs_last_moment (eh_snapshot h) = Some l \<Longrightarrow> l \<le> hst_started_at st"
      "hst_started_at st \<le> hst_completed_at st"
      "hs_last_moment (eh_snapshot h') = Some (hst_completed_at st)"
      "hst_action st = HostAction_for_turn (hst_turn st) (hst_completed_at st) (eh_config h)"
      "hs_phase (eh_snapshot h') = (if hst_action st = HostStop then HostStopped else HostRunning)"
      "hs_turns (eh_snapshot h') = saturating_add (hs_turns (eh_snapshot h)) 1"
      "hs_work (eh_snapshot h') = saturating_add (hs_work (eh_snapshot h)) (turn_work (hst_turn st))"
proof (cases "hs_phase (eh_snapshot h) = HostRunning")
  case False
  show thesis
    by (rule not_running) (use assms False in \<open>auto simp: EmbeddedHost_step_def\<close>)
next
  case running: True
  then obtain h1 and r1 :: "('de, 'ce) host_error + moment" where o1: "EmbeddedHost_observe_now cc h = Ret (h1, r1)"
    using assms by (auto simp: EmbeddedHost_step_def and_then_Ret_iff)
  from o1 show thesis
  proof (cases rule: observe_now_cases)
    case (refused e)
    show thesis
      by (rule failed [of e]) (use assms running o1 refused in \<open>auto simp: EmbeddedHost_step_def HostSnapshot_fail_def\<close>)
  next
    case m1: (observed m1)
    then obtain d t where t: "dc_turn dc (eh_duty h1) m1 = Ret (d, t)"
      using assms running o1 by (auto simp: EmbeddedHost_step_def and_then_Ret_iff)
    show thesis
    proof (cases t)
      case (Inl source)
      show thesis
        by (rule failed [of "HostDuty source"])
          (use assms running o1 m1 t Inl in
            \<open>auto simp: EmbeddedHost_step_def EmbeddedHost_fail_def host_snapshot_ops HostError_phase_def\<close>)
    next
      case (Inr turn)
      let ?h1 = "h1 \<lparr> eh_duty := d \<rparr>"
      obtain h2 and r2 :: "('de, 'ce) host_error + moment" where o2: "EmbeddedHost_observe_now cc ?h1 = Ret (h2, r2)"
        using assms running o1 m1 t Inr by (auto simp: EmbeddedHost_step_def and_then_Ret_iff)
      from o2 show thesis
      proof (cases rule: observe_now_cases)
        case (refused e)
        show thesis
          by (rule failed [of e])
            (use assms running o1 m1 t Inr o2 refused in \<open>auto simp: EmbeddedHost_step_def host_snapshot_ops\<close>)
      next
        case m2: (observed m2)
        let ?st = "\<lparr> hst_started_at = m1, hst_completed_at = m2, hst_turn = turn,
          hst_action = HostAction_for_turn turn m2 (eh_config h) \<rparr>"
        have "h' = (if hst_action ?st = HostStop
              then h2 \<lparr> eh_snapshot := HostSnapshot_stop (HostSnapshot_record (eh_snapshot h2) turn (hst_action ?st)) \<rparr>
              else h2 \<lparr> eh_snapshot := HostSnapshot_record (eh_snapshot h2) turn (hst_action ?st) \<rparr>)"
            "r = Inr ?st"
          using assms running o1 m1(1) t Inr o2 m2(1,2) m1(2)
          by (simp_all add: EmbeddedHost_step_def Let_def split: if_splits)
        then show thesis
          by (intro turned [of ?st])
            (use running m1 m2 in \<open>simp_all add: host_snapshot_ops WorkCount_saturating_add_def\<close>)
      qed
    qed
  qed
qed

section \<open>Sequences of steps\<close>

type_synonym ('de, 'ce) host_result = "('de, 'ce) host_error + host_step"

fun host_run ::
  "('d, 'de) duty_code \<Rightarrow> ('c, 'ce) clock_code \<Rightarrow> nat \<Rightarrow> ('d, 'c) embedded_host \<Rightarrow>
   (('d, 'c) embedded_host \<times> ('de, 'ce) host_result list) run" where
  "host_run dc cc 0 h = Ret (h, [])"
| "host_run dc cc (Suc n) h =
     and_then (host_run dc cc n h) (\<lambda>(h, results).
       and_then (EmbeddedHost_step dc cc h) (\<lambda>(h, result). Ret (h, results @ [result])))"

definition steps_of :: "('de, 'ce) host_result list \<Rightarrow> host_step list" where
  "steps_of results = List.map_filter (\<lambda>r. case r of Inl _ \<Rightarrow> None | Inr st \<Rightarrow> Some st) results"

definition host_moments :: "host_step list \<Rightarrow> moment list" where
  "host_moments sts = concat (map (\<lambda>st. [hst_started_at st, hst_completed_at st]) sts)"

definition host_work :: "host_step list \<Rightarrow> nat" where
  "host_work sts = sum_list (map (unat \<circ> turn_work \<circ> hst_turn) sts)"

text \<open>The shape of the results, by the phase the host is in.\<close>

definition phase_log :: "host_phase \<Rightarrow> ('de, 'ce) host_result list \<Rightarrow> bool" where
  "phase_log phase results \<longleftrightarrow>
     (case phase of
        HostRunning \<Rightarrow> results = map Inr (steps_of results) \<and> HostStop \<notin> hst_action ` set (steps_of results)
      | HostStopped \<Rightarrow>
          \<exists>sts st k. results = map Inr (sts @ [st]) @ replicate k (Inl (HostNotRunning HostStopped)) \<and>
            hst_action st = HostStop \<and> HostStop \<notin> hst_action ` set sts
      | HostFailed \<Rightarrow>
          \<exists>sts e k. results = map Inr sts @ Inl e # replicate k (Inl (HostNotRunning HostFailed)) \<and>
            HostError_phase e = None \<and> (\<forall>p ob. e = HostClockRegressed p ob \<longrightarrow> ob < p) \<and>
            HostStop \<notin> hst_action ` set sts
      | HostTerminated \<Rightarrow> False)"

definition host_log :: "('d, 'c) embedded_host \<Rightarrow> ('de, 'ce) host_result list \<Rightarrow> bool" where
  "host_log h results \<longleftrightarrow>
     phase_log (hs_phase (eh_snapshot h)) results \<and>
     sorted (host_moments (steps_of results)) \<and>
     (\<forall>m\<in>set (host_moments (steps_of results)). \<exists>l. hs_last_moment (eh_snapshot h) = Some l \<and> m \<le> l) \<and>
     unat (hs_turns (eh_snapshot h)) = min (length (steps_of results)) (2 ^ 64 - 1) \<and>
     unat (hs_work (eh_snapshot h)) = min (host_work (steps_of results)) (2 ^ 64 - 1) \<and>
     (\<forall>st\<in>set (steps_of results).
        hst_action st = HostAction_for_turn (hst_turn st) (hst_completed_at st) (eh_config h))"

lemma steps_of_simps [simp]:
  "steps_of [] = []" "steps_of (xs @ ys) = steps_of xs @ steps_of ys"
  "steps_of (Inl e # xs) = steps_of xs" "steps_of (Inr st # xs) = st # steps_of xs"
  "steps_of (map Inr sts) = sts" "steps_of (replicate k (Inl e)) = []"
  by (induction sts; induction k; simp add: steps_of_def List.map_filter_def)+

lemma host_moments_simps [simp]:
  "host_moments [] = []" "host_moments (xs @ ys) = host_moments xs @ host_moments ys"
  "host_moments (st # xs) = hst_started_at st # hst_completed_at st # host_moments xs"
  by (simp_all add: host_moments_def)

lemma host_work_simps [simp]:
  "host_work [] = 0" "host_work (sts @ [st]) = host_work sts + unat (turn_work (hst_turn st))"
  by (simp_all add: host_work_def)

lemma host_log_new: "host_log (EmbeddedHost_new duty clock config) []"
  by (simp add: host_log_def phase_log_def EmbeddedHost_new_def host_snapshot_ops WorkCount_ZERO_def)

lemma phase_logI:
  "results = map Inr (sts @ [st]) @ replicate k (Inl (HostNotRunning HostStopped)) \<Longrightarrow>
    hst_action st = HostStop \<Longrightarrow> HostStop \<notin> hst_action ` set sts \<Longrightarrow> phase_log HostStopped results"
  "results = map Inr sts @ Inl e # replicate k (Inl (HostNotRunning HostFailed)) \<Longrightarrow>
    HostError_phase e = None \<Longrightarrow> (\<And>p ob. e = HostClockRegressed p ob \<Longrightarrow> ob < p) \<Longrightarrow>
    HostStop \<notin> hst_action ` set sts \<Longrightarrow> phase_log HostFailed results"
  unfolding phase_log_def host_phase.case by blast+

lemma phase_log_refused:
  assumes "phase_log phase results" "phase \<noteq> HostRunning"
  shows "phase_log phase (results @ [Inl (HostNotRunning phase)])"
proof -
  have more: "replicate k x @ [x] = replicate (Suc k) x" for k and x :: "('a, 'b) host_result"
    by (simp add: replicate_append_same)
  show ?thesis
  proof (cases phase)
    case HostStopped
    then obtain sts st k where "results = map Inr (sts @ [st]) @ replicate k (Inl (HostNotRunning HostStopped))"
        "hst_action st = HostStop" "HostStop \<notin> hst_action ` set sts"
      using assms(1) unfolding phase_log_def by auto
    moreover from this have "results @ [Inl (HostNotRunning HostStopped)] =
        map Inr (sts @ [st]) @ replicate (Suc k) (Inl (HostNotRunning HostStopped))"
      by (simp only: append_assoc more)
    ultimately show ?thesis
      using HostStopped phase_logI(1) by metis
  next
    case HostFailed
    then obtain sts e k where "results = map Inr sts @ Inl e # replicate k (Inl (HostNotRunning HostFailed))"
        "HostError_phase e = None" "\<forall>p ob. e = HostClockRegressed p ob \<longrightarrow> ob < p"
        "HostStop \<notin> hst_action ` set sts"
      using assms(1) unfolding phase_log_def by auto
    moreover from this have "results @ [Inl (HostNotRunning HostFailed)] =
        map Inr sts @ Inl e # replicate (Suc k) (Inl (HostNotRunning HostFailed))"
      by (simp only: append_assoc append_Cons more)
    ultimately show ?thesis
      using HostFailed phase_logI(2) by metis
  qed (use assms in \<open>simp_all add: phase_log_def\<close>)
qed

lemma phase_log_failed:
  assumes "phase_log HostRunning results" "HostError_phase e = None" "\<And>p ob. e = HostClockRegressed p ob \<Longrightarrow> ob < p"
  shows "phase_log HostFailed (results @ [Inl e])"
proof -
  have "results @ [Inl e] = map Inr (steps_of results) @ Inl e # replicate 0 (Inl (HostNotRunning HostFailed))"
    using assms(1) by (simp add: phase_log_def)
  from phase_logI(2) [OF this assms(2,3)] show ?thesis
    using assms(1) by (simp add: phase_log_def)
qed

lemma phase_log_turned:
  assumes "phase_log HostRunning results"
  shows "phase_log (if hst_action st = HostStop then HostStopped else HostRunning) (results @ [Inr st])"
proof (cases "hst_action st = HostStop")
  case True
  have "results @ [Inr st] = map Inr (steps_of results @ [st]) @ replicate 0 (Inl (HostNotRunning HostStopped))"
    using assms by (simp add: phase_log_def)
  from phase_logI(1) [OF this True] show ?thesis
    using assms True by (simp add: phase_log_def)
next
  case False
  then show ?thesis
    using assms by (auto simp: phase_log_def)
qed

lemma host_log_step:
  assumes log: "host_log h results" and r: "EmbeddedHost_step dc cc h = Ret (h', r)"
  shows "host_log h' (results @ [r])"
  using r
proof (cases rule: EmbeddedHost_step_cases)
  case not_running
  then show ?thesis
    using log phase_log_refused [of "hs_phase (eh_snapshot h)" results] by (simp add: host_log_def)
next
  case (failed e)
  have "phase_log HostFailed (results @ [r])"
    using phase_log_failed [of results e] log failed by (simp add: host_log_def)
  moreover have "\<exists>l. hs_last_moment (eh_snapshot h') = Some l \<and> m \<le> l"
    if m: "m \<in> set (host_moments (steps_of results))" for m
  proof -
    obtain l where l: "hs_last_moment (eh_snapshot h) = Some l" "m \<le> l"
      using log m by (auto simp: host_log_def)
    then show ?thesis
      using failed(9) [OF l(1)] by force
  qed
  ultimately show ?thesis
    using log failed by (simp add: host_log_def)
next
  case (turned st)
  have "phase_log (hs_phase (eh_snapshot h')) (results @ [r])"
    using phase_log_turned [of results st] log turned by (simp add: host_log_def)
  moreover have before: "m \<le> hst_started_at st" if m: "m \<in> set (host_moments (steps_of results))" for m
  proof -
    obtain l where l: "hs_last_moment (eh_snapshot h) = Some l" "m \<le> l"
      using log m by (auto simp: host_log_def)
    then show ?thesis
      using turned(4) [OF l(1)] by simp
  qed
  moreover have "m \<le> hst_completed_at st" if "m \<in> set (host_moments (steps_of results))" for m
    using before [OF that] turned(5) by simp
  ultimately show ?thesis
    using log turned
    by (auto simp: host_log_def sorted_append unat_saturating_add)
qed

lemma host_run_log:
  fixes results :: "('de, 'ce) host_result list"
  shows "host_log h ([] :: ('de, 'ce) host_result list) \<Longrightarrow> host_run dc cc n h = Ret (h', results) \<Longrightarrow>
    host_log h' results"
proof (induction n arbitrary: h' results)
  case (Suc n)
  then obtain h1 rs r where "host_run dc cc n h = Ret (h1, rs)" "EmbeddedHost_step dc cc h1 = Ret (h', r)"
      "results = rs @ [r]"
    by (auto simp: and_then_Ret_iff)
  then show ?case
    using Suc by (simp add: host_log_step)
qed auto

lemma host_run_length:
  fixes results :: "('de, 'ce) host_result list"
  shows "host_run dc cc n h = Ret (h', results) \<Longrightarrow> length results = n \<and> eh_config h' = eh_config h"
  by (induction n arbitrary: h' results) (auto simp: and_then_Ret_iff elim!: EmbeddedHost_step_cases)

lemma and_then_PanicE:
  assumes "and_then r f = Panic"
  obtains "r = Panic" | v where "r = Ret v" "f v = Panic"
  using assms by (cases r) auto

lemma observe_now_Panic:
  "EmbeddedHost_observe_now cc h = Panic \<Longrightarrow> \<exists>c. cc_now cc c = Panic"
  by (auto simp: EmbeddedHost_observe_now_def Let_def elim!: and_then_PanicE
      split: sum.splits option.splits if_splits)

lemma EmbeddedHost_step_Panic:
  "EmbeddedHost_step dc cc h = Panic \<Longrightarrow> (\<exists>d m. dc_turn dc d m = Panic) \<or> (\<exists>c. cc_now cc c = Panic)"
  by (auto simp: EmbeddedHost_step_def Let_def elim!: and_then_PanicE
      split: sum.splits option.splits if_splits dest!: observe_now_Panic) blast

lemma host_run_Panic:
  "host_run dc cc n h = Panic \<Longrightarrow> (\<exists>d m. dc_turn dc d m = Panic) \<or> (\<exists>c. cc_now cc c = Panic)"
proof (induction n)
  case (Suc n)
  then show ?case
    by (auto elim!: and_then_PanicE dest: EmbeddedHost_step_Panic)
qed simp

text \<open>
  What the actions of a run say, step by step. Waiting \<open>n\<close> nanoseconds is the action \<open>HostWait\<close>,
  unless there is nothing to wait for.
\<close>

definition waits_for :: "host_action \<Rightarrow> nat \<Rightarrow> bool" where
  "waits_for action n \<longleftrightarrow> (if n = 0 then action = HostContinue else \<exists>w. action = HostWait w \<and> unat w = n)"

definition action_exact :: "host_config \<Rightarrow> host_step \<Rightarrow> bool" where
  "action_exact config st \<longleftrightarrow>
     (case turn_next (hst_turn st) of
        Now \<Rightarrow> hst_action st = HostContinue
      | Wake \<Rightarrow> waits_for (hst_action st) (unat (hc_wait_ceiling config))
      | WakeOr d \<Rightarrow>
          waits_for (hst_action st) (min (unat d - unat (hst_completed_at st)) (unat (hc_wait_ceiling config)))
      | Stop \<Rightarrow> hst_action st = HostStop)"

lemma from_wait_waits: "waits_for (HostAction_from_wait w) (unat w)"
  by (simp add: waits_for_def HostAction_from_wait_def unat_eq_zero)

lemma Span_min_unat: "unat (Span_min a b) = min (unat a) (unat b)"
  by (simp add: Span_min_eq_min min_def word_le_nat_alt)

lemma action_exact_for_turn:
  "hst_action st = HostAction_for_turn (hst_turn st) (hst_completed_at st) config \<Longrightarrow> action_exact config st"
proof (cases "turn_next (hst_turn st)")
  case (WakeOr d)
  assume st: "hst_action st = HostAction_for_turn (hst_turn st) (hst_completed_at st) config"
  let ?wait = "Span_min (Deadline_remaining_at d (hst_completed_at st)) (hc_wait_ceiling config)"
  have "waits_for (hst_action st) (unat ?wait)"
    using st WakeOr by (simp add: HostAction_for_turn_def HostAction_for_next_def from_wait_waits)
  then show ?thesis
    using WakeOr by (simp add: action_exact_def Span_min_unat Deadline_remaining_at_unat)
qed (simp_all add: action_exact_def HostAction_for_turn_def HostAction_for_next_def from_wait_waits)

lemma host_log_exact:
  assumes "host_log h results" "st \<in> set (steps_of results)"
  shows "action_exact (eh_config h) st"
  using assms by (simp add: host_log_def action_exact_for_turn)

section \<open>Theorem\<close>

text \<open>
  C13. A host is well behaved over any number of steps, whatever its duty and its clock do; it panics
  only if one of them does. Its results are successful steps in a row, then nothing more while it
  runs; or a last step that asked to stop; or one failure, a clock that went back among them; and
  from then on only refusals that name the terminal phase. The moments the duty was given and the
  moments observed after its turns never go back, within a step and from one to the next. Every
  step's action is what its turn asks for at the moment after the turn: another turn at once, a stop,
  a wait of exactly the ceiling, or of exactly what is left until the deadline if that is less; a
  wait of nothing is another turn at once. The turns and the work are counted exactly, saturating.
\<close>

theorem host_steps_exact:
  fixes dc :: "('d, 'de) duty_code" and cc :: "('c, 'ce) clock_code"
  shows "case host_run dc cc n (EmbeddedHost_new duty clock config) of
      Panic \<Rightarrow> (\<exists>d m. dc_turn dc d m = Panic) \<or> (\<exists>c. cc_now cc c = Panic)
    | Ret (h, results) \<Rightarrow>
        length results = n \<and> phase_log (hs_phase (eh_snapshot h)) results \<and>
        sorted (host_moments (steps_of results)) \<and>
        unat (hs_turns (eh_snapshot h)) = min (length (steps_of results)) (2 ^ 64 - 1) \<and>
        unat (hs_work (eh_snapshot h)) = min (host_work (steps_of results)) (2 ^ 64 - 1) \<and>
        (\<forall>st\<in>set (steps_of results). action_exact config st)"
proof (cases "host_run dc cc n (EmbeddedHost_new duty clock config)")
  case Panic
  then show ?thesis
    using host_run_Panic [OF Panic] by simp
next
  case (Ret r)
  obtain h results where r: "r = (h, results)"
    by (cases r)
  note run = Ret [unfolded r]
  have log: "host_log h results"
    by (rule host_run_log [OF host_log_new run])
  have "length results = n \<and> eh_config h = config"
    using host_run_length [OF run] by (simp add: EmbeddedHost_new_def)
  then show ?thesis
    using log host_log_exact [OF log] run by (auto simp: host_log_def)
qed

text \<open>A duty that works until a deadline has passed and then stops, over a clock that ticks by ten.\<close>

definition duty_demo :: "(nat, unit) duty_code" where
  "duty_demo = \<lparr> dc_turn = (\<lambda>k now.
     Ret (k + 1, Inr (if k = 0 then Turn_until 3 50 else Turn_stopped 2))) \<rparr>"

definition clock_demo :: "(moment, unit) clock_code" where
  "clock_demo = \<lparr> cc_now = (\<lambda>t. Ret (t + 10, Inr t)) \<rparr>"

lemma host_demo_run:
  "case host_run duty_demo clock_demo 3 (EmbeddedHost_new 0 0 \<lparr> hc_wait_ceiling = 100 \<rparr>) of
     Panic \<Rightarrow> False
   | Ret (h, results) \<Rightarrow>
       length (steps_of results) = 2 \<and>
       map (map_sum id hst_action) results = [Inr (HostWait 40), Inr HostStop, Inl (HostNotRunning HostStopped)]"
  by code_simp

theorem host_steps_exact_witness:
  "case host_run duty_demo clock_demo 3 (EmbeddedHost_new 0 0 \<lparr> hc_wait_ceiling = 100 \<rparr>) of
     Panic \<Rightarrow> False
   | Ret (h, results) \<Rightarrow> phase_log (hs_phase (eh_snapshot h)) results \<and> length (steps_of results) = 2 \<and>
       (\<forall>st\<in>set (steps_of results). action_exact \<lparr> hc_wait_ceiling = 100 \<rparr> st)"
proof -
  obtain h results where
    run: "host_run duty_demo clock_demo 3 (EmbeddedHost_new 0 0 \<lparr> hc_wait_ceiling = 100 \<rparr>) = Ret (h, results)" and
    two: "length (steps_of results) = 2"
    using run_case_Ret [OF host_demo_run] by (elim exE conjE) (rule that)
  then show ?thesis
    using host_steps_exact [where n = 3 and duty = 0 and clock = 0 and dc = duty_demo and cc = clock_demo and config = "\<lparr> hc_wait_ceiling = 100 \<rparr>"] run two by simp
qed

end
