(* ===== verification/Reactor.thy ===== *)
theory Reactor
  imports Host
begin

text \<open>
  One reactor (\<open>reactor/\<close>): the run loop around an embedded host and a waiter, and the control through
  which other threads request its termination. The control's phase is behind a lock that the loop
  and the requesters take for one access at a time, so the loop is a machine whose steps are the
  stretches between its accesses, and the theorems are about every interleaving with requests.

  Duty, clock and waiter are consumer code that may panic; a panic unwinds the loop and drops the
  control's owner. Ghost fields count the accepted requests and the turns and waits begun after one,
  and keep the phase in which the host was handed over: a host that is over already is refused by its
  first step.
\<close>

section \<open>Control\<close>

datatype control_phase = ControlRunning | ControlTerminationRequested | ControlExited

datatype termination_status = TerminationRequested | TerminationAlreadyRequested | TerminationExited

record 'w reactor_termination =
  rtm_status :: termination_status
  rtm_wake_error :: "'w option"

text \<open>The wake handle is held for the first request only.\<close>

record published_termination =
  pt_status :: termination_status
  pt_wake :: bool

definition ReactorControl_publish_termination :: "control_phase \<Rightarrow> control_phase \<times> published_termination" where
  "ReactorControl_publish_termination phase =
     (case phase of
        ControlRunning \<Rightarrow>
          (ControlTerminationRequested, \<lparr> pt_status = TerminationRequested, pt_wake = True \<rparr>)
      | ControlTerminationRequested \<Rightarrow>
          (phase, \<lparr> pt_status = TerminationAlreadyRequested, pt_wake = False \<rparr>)
      | ControlExited \<Rightarrow> (phase, \<lparr> pt_status = TerminationExited, pt_wake = False \<rparr>))"

text \<open>\<open>answer\<close> is what waking answers, if it is tried.\<close>

definition PublishedTermination_complete :: "published_termination \<Rightarrow> 'w + unit \<Rightarrow> 'w reactor_termination" where
  "PublishedTermination_complete self answer =
     \<lparr> rtm_status = pt_status self,
       rtm_wake_error = (if pt_wake self then (case answer of Inl e \<Rightarrow> Some e | Inr _ \<Rightarrow> None) else None) \<rparr>"

definition ReactorControl_request_termination ::
  "control_phase \<Rightarrow> 'w + unit \<Rightarrow> control_phase \<times> 'w reactor_termination" where
  "ReactorControl_request_termination phase answer =
     (let (phase, published) = ReactorControl_publish_termination phase in
      (phase, PublishedTermination_complete published answer))"

definition ReactorControlOwner_termination_requested :: "control_phase \<Rightarrow> bool" where
  "ReactorControlOwner_termination_requested phase \<longleftrightarrow> phase = ControlTerminationRequested"

definition ReactorControlOwner_finish :: "control_phase \<Rightarrow> control_phase \<times> bool" where
  "ReactorControlOwner_finish phase = (ControlExited, phase = ControlTerminationRequested)"

definition ReactorControlOwner_drop :: "control_phase \<Rightarrow> control_phase" where
  "ReactorControlOwner_drop phase = fst (ReactorControlOwner_finish phase)"

lemmas control_ops = ReactorControl_publish_termination_def PublishedTermination_complete_def
  ReactorControl_request_termination_def ReactorControlOwner_termination_requested_def
  ReactorControlOwner_finish_def ReactorControlOwner_drop_def

section \<open>Observations and outcomes\<close>

record reactor_snapshot =
  rs_waits :: u64
  rs_notifications :: u64
  rs_idle_returns :: u64

definition ReactorSnapshot_default :: reactor_snapshot where
  "ReactorSnapshot_default = \<lparr> rs_waits = 0, rs_notifications = 0, rs_idle_returns = 0 \<rparr>"

definition ReactorSnapshot_record :: "reactor_snapshot \<Rightarrow> wait_outcome \<Rightarrow> reactor_snapshot" where
  "ReactorSnapshot_record self outcome =
     (let self = self \<lparr> rs_waits := saturating_add (rs_waits self) 1 \<rparr> in
      case outcome of
        Notified \<Rightarrow> self \<lparr> rs_notifications := saturating_add (rs_notifications self) 1 \<rparr>
      | IdleReturn \<Rightarrow> self \<lparr> rs_idle_returns := saturating_add (rs_idle_returns self) 1 \<rparr>)"

datatype ('de, 'ce, 'we) reactor_failure = FailureHost "('de, 'ce) host_error" | FailureWait 'we

datatype ('de, 'ce, 'we) reactor_outcome =
  ReactorStopped
| ReactorTerminated
| ReactorFailed "('de, 'ce, 'we) reactor_failure"

record ('d, 'c, 'v, 'de, 'ce, 'we) reactor_exit =
  rex_host :: "('d, 'c) embedded_host"
  rex_waiter :: 'v
  rex_outcome :: "('de, 'ce, 'we) reactor_outcome"
  rex_snapshot :: reactor_snapshot

text \<open>The trait \<open>Waiter\<close>, as the code that implements it.\<close>

record ('v, 'd, 'we) waiter_code =
  wc_wait :: "'v \<Rightarrow> 'd \<Rightarrow> span \<Rightarrow> ('v \<times> 'd \<times> ('we + wait_outcome)) run"

section \<open>The run loop\<close>

text \<open>Where the loop stands between its accesses to the control.\<close>

datatype ('d, 'c, 'v, 'de, 'ce, 'we) run_pc =
  RunTop
| RunFinishTerminated
| RunTurn
| RunFinishStop
| RunCheckWait span
| RunWait span
| RunFinishFailed "('de, 'ce, 'we) reactor_failure"
| RunExited "('d, 'c, 'v, 'de, 'ce, 'we) reactor_exit"
| RunUnwound

record ('d, 'c, 'v, 'de, 'ce, 'we) reactor =
  rc_host :: "('d, 'c) embedded_host"
  rc_waiter :: 'v
  rc_control :: control_phase
  rc_snapshot :: reactor_snapshot
  rc_pc :: "('d, 'c, 'v, 'de, 'ce, 'we) run_pc"
  rc_accepted :: nat
  rc_late :: nat
  rc_handed :: host_phase

definition Reactor_from_host :: "('d, 'c) embedded_host \<Rightarrow> 'v \<Rightarrow> ('d, 'c, 'v, 'de, 'ce, 'we) reactor" where
  "Reactor_from_host host waiter =
     \<lparr> rc_host = host, rc_waiter = waiter, rc_control = ControlRunning, rc_snapshot = ReactorSnapshot_default,
       rc_pc = RunTop, rc_accepted = 0, rc_late = 0, rc_handed = hs_phase (eh_snapshot host) \<rparr>"

definition Reactor_with_config ::
  "'d \<Rightarrow> 'c \<Rightarrow> 'v \<Rightarrow> host_config \<Rightarrow> ('d, 'c, 'v, 'de, 'ce, 'we) reactor" where
  "Reactor_with_config duty clock waiter config = Reactor_from_host (EmbeddedHost_new duty clock config) waiter"

definition Reactor_new :: "'d \<Rightarrow> 'c \<Rightarrow> 'v \<Rightarrow> ('d, 'c, 'v, 'de, 'ce, 'we) reactor" where
  "Reactor_new duty clock waiter = Reactor_with_config duty clock waiter HostConfig_default"

definition exit_with ::
  "('de, 'ce, 'we) reactor_outcome \<Rightarrow> ('d, 'c, 'v, 'de, 'ce, 'we) reactor \<Rightarrow> ('d, 'c, 'v, 'de, 'ce, 'we) reactor" where
  "exit_with outcome r =
     r \<lparr> rc_pc := RunExited \<lparr> rex_host = rc_host r, rex_waiter = rc_waiter r, rex_outcome = outcome,
                              rex_snapshot = rc_snapshot r \<rparr> \<rparr>"

text \<open>A panic of consumer code drops the control's owner.\<close>

definition unwind :: "('d, 'c, 'v, 'de, 'ce, 'we) reactor \<Rightarrow> ('d, 'c, 'v, 'de, 'ce, 'we) reactor" where
  "unwind r = r \<lparr> rc_control := ReactorControlOwner_drop (rc_control r), rc_pc := RunUnwound \<rparr>"

definition begun :: "('d, 'c, 'v, 'de, 'ce, 'we) reactor \<Rightarrow> ('d, 'c, 'v, 'de, 'ce, 'we) reactor" where
  "begun r = r \<lparr> rc_late := rc_late r + (if rc_control r = ControlTerminationRequested then 1 else 0) \<rparr>"

definition run_turn ::
  "('d, 'de) duty_code \<Rightarrow> ('c, 'ce) clock_code \<Rightarrow> ('d, 'c, 'v, 'de, 'ce, 'we) reactor \<Rightarrow>
   ('d, 'c, 'v, 'de, 'ce, 'we) reactor" where
  "run_turn dc cc r =
     (case EmbeddedHost_step dc cc (rc_host r) of
        Panic \<Rightarrow> unwind r
      | Ret (host, result) \<Rightarrow>
          let r = r \<lparr> rc_host := host \<rparr> in
          (case result of
             Inl source \<Rightarrow> r \<lparr> rc_pc := RunFinishFailed (FailureHost source) \<rparr>
           | Inr st \<Rightarrow>
               (case hst_action st of
                  HostContinue \<Rightarrow> r \<lparr> rc_pc := RunTop \<rparr>
                | HostStop \<Rightarrow> r \<lparr> rc_pc := RunFinishStop \<rparr>
                | HostWait maximum \<Rightarrow> r \<lparr> rc_pc := RunCheckWait maximum \<rparr>)))"

definition run_wait ::
  "('v, 'd, 'we) waiter_code \<Rightarrow> span \<Rightarrow> ('d, 'c, 'v, 'de, 'ce, 'we) reactor \<Rightarrow>
   ('d, 'c, 'v, 'de, 'ce, 'we) reactor" where
  "run_wait wc maximum r =
     (case wc_wait wc (rc_waiter r) (eh_duty (rc_host r)) maximum of
        Panic \<Rightarrow> unwind r
      | Ret (waiter, duty, result) \<Rightarrow>
          let r = r \<lparr> rc_waiter := waiter, rc_host := (rc_host r) \<lparr> eh_duty := duty \<rparr> \<rparr> in
          (case result of
             Inr outcome \<Rightarrow> r \<lparr> rc_snapshot := ReactorSnapshot_record (rc_snapshot r) outcome, rc_pc := RunTop \<rparr>
           | Inl source \<Rightarrow>
               r \<lparr> rc_host := EmbeddedHost_fail (rc_host r), rc_pc := RunFinishFailed (FailureWait source) \<rparr>))"

definition owner_step ::
  "('d, 'de) duty_code \<Rightarrow> ('c, 'ce) clock_code \<Rightarrow> ('v, 'd, 'we) waiter_code \<Rightarrow>
   ('d, 'c, 'v, 'de, 'ce, 'we) reactor \<Rightarrow> ('d, 'c, 'v, 'de, 'ce, 'we) reactor" where
  "owner_step dc cc wc r =
     (case rc_pc r of
        RunTop \<Rightarrow>
          if ReactorControlOwner_termination_requested (rc_control r)
          then r \<lparr> rc_host := EmbeddedHost_terminate (rc_host r), rc_pc := RunFinishTerminated \<rparr>
          else r \<lparr> rc_pc := RunTurn \<rparr>
      | RunFinishTerminated \<Rightarrow>
          exit_with ReactorTerminated (r \<lparr> rc_control := fst (ReactorControlOwner_finish (rc_control r)) \<rparr>)
      | RunTurn \<Rightarrow> run_turn dc cc (begun r)
      | RunFinishStop \<Rightarrow>
          let (control, requested) = ReactorControlOwner_finish (rc_control r);
              r = r \<lparr> rc_control := control \<rparr> in
          if requested
          then exit_with ReactorTerminated (r \<lparr> rc_host := EmbeddedHost_terminate (rc_host r) \<rparr>)
          else exit_with ReactorStopped r
      | RunCheckWait maximum \<Rightarrow>
          if ReactorControlOwner_termination_requested (rc_control r) then r \<lparr> rc_pc := RunTop \<rparr>
          else r \<lparr> rc_pc := RunWait maximum \<rparr>
      | RunWait maximum \<Rightarrow> run_wait wc maximum (begun r)
      | RunFinishFailed failure \<Rightarrow>
          exit_with (ReactorFailed failure) (r \<lparr> rc_control := fst (ReactorControlOwner_finish (rc_control r)) \<rparr>)
      | RunExited _ \<Rightarrow> r
      | RunUnwound \<Rightarrow> r)"

text \<open>A request by any thread, from the reactor's side.\<close>

definition request_step ::
  "('d, 'c, 'v, 'de, 'ce, 'we) reactor \<Rightarrow> 'w + unit \<Rightarrow>
   ('d, 'c, 'v, 'de, 'ce, 'we) reactor \<times> 'w reactor_termination" where
  "request_step r answer =
     (let (control, termination) = ReactorControl_request_termination (rc_control r) answer in
      (r \<lparr> rc_control := control,
           rc_accepted := rc_accepted r + (if rtm_status termination = TerminationRequested then 1 else 0) \<rparr>,
       termination))"

section \<open>Starting a thread\<close>

text \<open>
  \<open>spawn\<close>: a name with a null byte is refused; otherwise the operating system answers. The reactor is
  in a slot that the thread takes, or the error path if there is no thread.
\<close>

datatype 'i spawn_source = InvalidThreadName | ThreadCreation 'i

record ('i, 'r) reactor_spawn_error =
  rse_source :: "'i spawn_source"
  rse_reactor :: 'r

definition take_slot :: "'r option \<Rightarrow> ('r option \<times> 'r) run" where
  "take_slot slot = (case slot of Some r \<Rightarrow> Ret (None, r) | None \<Rightarrow> Panic)"

text \<open>\<open>Inr\<close>: the reactor the started thread runs.\<close>

definition reactor_spawn :: "u8 list \<Rightarrow> 'r \<Rightarrow> 'i + unit \<Rightarrow> (('i, 'r) reactor_spawn_error + 'r) run" where
  "reactor_spawn name reactor spawned =
     (if 0 \<in> set name then Ret (Inl \<lparr> rse_source = InvalidThreadName, rse_reactor = reactor \<rparr>)
      else let slot = Some reactor in
        (case spawned of
           Inr _ \<Rightarrow> and_then (take_slot slot) (\<lambda>(_, reactor). Ret (Inr reactor))
         | Inl source \<Rightarrow> and_then (take_slot slot) (\<lambda>(_, reactor).
             Ret (Inl \<lparr> rse_source = ThreadCreation source, rse_reactor = reactor \<rparr>))))"

text \<open>The reactor is never lost: it runs, or it comes back with the reason.\<close>

lemma reactor_spawn_keeps:
  "reactor_spawn name reactor spawned =
     Ret (if 0 \<in> set name then Inl \<lparr> rse_source = InvalidThreadName, rse_reactor = reactor \<rparr>
          else case spawned of
            Inr _ \<Rightarrow> Inr reactor
          | Inl source \<Rightarrow> Inl \<lparr> rse_source = ThreadCreation source, rse_reactor = reactor \<rparr>)"
  by (simp add: reactor_spawn_def take_slot_def split: sum.split)

section \<open>Interleavings\<close>

text \<open>A failed wake is an error number here; no state depends on it.\<close>

inductive reactor_next ::
  "('d, 'de) duty_code \<Rightarrow> ('c, 'ce) clock_code \<Rightarrow> ('v, 'd, 'we) waiter_code \<Rightarrow>
   ('d, 'c, 'v, 'de, 'ce, 'we) reactor \<Rightarrow> ('d, 'c, 'v, 'de, 'ce, 'we) reactor \<Rightarrow> bool"
  for dc cc wc where
  own: "reactor_next dc cc wc r (owner_step dc cc wc r)"
| request: "reactor_next dc cc wc r (fst (request_step r (answer :: nat + unit)))"

inductive reactor_reachable ::
  "('d, 'de) duty_code \<Rightarrow> ('c, 'ce) clock_code \<Rightarrow> ('v, 'd, 'we) waiter_code \<Rightarrow>
   ('d, 'c, 'v, 'de, 'ce, 'we) reactor \<Rightarrow> bool"
  for dc cc wc where
  start: "reactor_reachable dc cc wc (Reactor_from_host host waiter)"
| step: "reactor_reachable dc cc wc r \<Longrightarrow> reactor_next dc cc wc r r' \<Longrightarrow> reactor_reachable dc cc wc r'"

definition exited :: "('d, 'c, 'v, 'de, 'ce, 'we) run_pc \<Rightarrow> bool" where
  "exited pc \<longleftrightarrow> (case pc of RunExited _ \<Rightarrow> True | RunUnwound \<Rightarrow> True | _ \<Rightarrow> False)"

definition rc_host_phase :: "('d, 'c, 'v, 'de, 'ce, 'we) reactor \<Rightarrow> host_phase" where
  "rc_host_phase r = hs_phase (eh_snapshot (rc_host r))"

text \<open>
  What a failure says, given the phase the host was handed over in and the phase it is left in: it is
  the refusal of a host that was over already, in that phase, or the failure of one that ran.
\<close>

definition failure_truthful :: "host_phase \<Rightarrow> ('de, 'ce, 'we) reactor_failure \<Rightarrow> host_phase \<Rightarrow> bool" where
  "failure_truthful handed failure phase \<longleftrightarrow>
     (if handed = HostRunning
      then phase = HostFailed \<and> (\<forall>p. failure \<noteq> FailureHost (HostNotRunning p))
      else phase = handed \<and> failure = FailureHost (HostNotRunning handed))"

text \<open>What an exit says, against that phase and the requests accepted.\<close>

definition exit_truthful :: "host_phase \<Rightarrow> nat \<Rightarrow> ('d, 'c, 'v, 'de, 'ce, 'we) reactor_exit \<Rightarrow> bool" where
  "exit_truthful handed accepted x \<longleftrightarrow>
     (case rex_outcome x of
        ReactorStopped \<Rightarrow>
          accepted = 0 \<and> handed = HostRunning \<and> hs_phase (eh_snapshot (rex_host x)) = HostStopped
      | ReactorTerminated \<Rightarrow> accepted = 1 \<and> hs_phase (eh_snapshot (rex_host x)) = HostTerminated
      | ReactorFailed failure \<Rightarrow> failure_truthful handed failure (hs_phase (eh_snapshot (rex_host x))))"

lemma HostError_phase_None: "HostError_phase e = None \<longleftrightarrow> (\<forall>p. e \<noteq> HostNotRunning p)"
  by (cases e) (simp_all add: HostError_phase_def)

definition reactor_inv :: "('d, 'c, 'v, 'de, 'ce, 'we) reactor \<Rightarrow> bool" where
  "reactor_inv r \<longleftrightarrow>
     rc_accepted r \<le> 1 \<and>
     (rc_control r = ControlRunning \<longrightarrow> rc_accepted r = 0) \<and>
     (rc_control r = ControlTerminationRequested \<longrightarrow> rc_accepted r = 1) \<and>
     (rc_control r = ControlExited \<longleftrightarrow> exited (rc_pc r)) \<and>
     rc_late r \<le> 1 \<and>
     (rc_late r \<noteq> 0 \<longrightarrow> rc_control r \<noteq> ControlRunning) \<and>
     (rc_late r = 1 \<longrightarrow> rc_pc r \<noteq> RunTurn \<and> (\<forall>m. rc_pc r \<noteq> RunWait m)) \<and>
     (case rc_pc r of
        RunTop \<Rightarrow> rc_host_phase r = rc_handed r
      | RunTurn \<Rightarrow> rc_host_phase r = rc_handed r
      | RunCheckWait m \<Rightarrow> rc_host_phase r = HostRunning \<and> rc_handed r = HostRunning
      | RunWait m \<Rightarrow> rc_host_phase r = HostRunning \<and> rc_handed r = HostRunning
      | RunFinishTerminated \<Rightarrow> rc_host_phase r = HostTerminated \<and> rc_accepted r = 1
      | RunFinishStop \<Rightarrow> rc_host_phase r = HostStopped \<and> rc_handed r = HostRunning
      | RunFinishFailed failure \<Rightarrow> failure_truthful (rc_handed r) failure (rc_host_phase r)
      | RunExited x \<Rightarrow> exit_truthful (rc_handed r) (rc_accepted r) x
      | RunUnwound \<Rightarrow> True)"

lemma exited_simps [simp]:
  "exited (RunExited x)" "exited RunUnwound" "\<not> exited RunTop" "\<not> exited RunTurn" "\<not> exited RunFinishTerminated"
  "\<not> exited RunFinishStop" "\<not> exited (RunCheckWait m)" "\<not> exited (RunWait m)" "\<not> exited (RunFinishFailed f)"
  by (simp_all add: exited_def)

lemma control_phase_cases: "c = ControlRunning \<or> c = ControlTerminationRequested \<or> c = ControlExited"
  by (cases c) simp_all

lemma reactor_inv_new: "reactor_inv (Reactor_from_host host waiter)"
  by (simp add: reactor_inv_def Reactor_from_host_def rc_host_phase_def)

lemma request_inv: "reactor_inv r \<Longrightarrow> reactor_inv (fst (request_step r answer))"
  by (cases "rc_control r")
    (auto simp: reactor_inv_def request_step_def control_ops rc_host_phase_def split: run_pc.splits)

lemma run_turn_inv:
  assumes inv: "reactor_inv r" and pc: "rc_pc r = RunTurn"
  shows "reactor_inv (run_turn dc cc (begun r))"
proof -
  have host: "hs_phase (eh_snapshot (rc_host r)) = rc_handed r"
    using inv pc by (simp add: reactor_inv_def rc_host_phase_def)
  show ?thesis
  proof (cases "EmbeddedHost_step dc cc (rc_host r)")
    case Panic
    then show ?thesis
      using inv pc by (auto simp: reactor_inv_def run_turn_def begun_def unwind_def control_ops)
  next
    case (Ret x)
    obtain h result where x: "x = (h, result)"
      by (cases x)
    from Ret [unfolded x] show ?thesis
    proof (cases rule: EmbeddedHost_step_cases)
      case not_running
      then show ?thesis
        using inv pc Ret x host by (auto simp: reactor_inv_def run_turn_def begun_def rc_host_phase_def failure_truthful_def)
    next
      case (failed e)
      then show ?thesis
        using inv pc Ret x host
        by (auto simp: reactor_inv_def run_turn_def begun_def rc_host_phase_def failure_truthful_def HostError_phase_None)
    next
      case (turned st)
      have "hs_phase (eh_snapshot h) = (if hst_action st = HostStop then HostStopped else HostRunning)"
        by (rule turned(8))
      then show ?thesis
        using inv pc Ret x turned(1,2) host
        by (cases "hst_action st") (auto simp: reactor_inv_def run_turn_def begun_def rc_host_phase_def Let_def)
    qed
  qed
qed

lemma run_wait_inv:
  assumes "reactor_inv r" "rc_pc r = RunWait m"
  shows "reactor_inv (run_wait wc m (begun r))"
proof (cases "wc_wait wc (rc_waiter r) (eh_duty (rc_host r)) m")
  case Panic
  then show ?thesis
    using assms by (auto simp: reactor_inv_def run_wait_def begun_def unwind_def control_ops)
next
  case (Ret x)
  obtain waiter duty result where "x = (waiter, duty, result)"
    by (cases x)
  then show ?thesis
    using assms Ret
    by (cases result) (auto simp: reactor_inv_def run_wait_def begun_def rc_host_phase_def EmbeddedHost_fail_def
        HostSnapshot_fail_def Let_def failure_truthful_def)
qed

lemma owner_step_inv:
  assumes inv: "reactor_inv r"
  shows "reactor_inv (owner_step dc cc wc r)"
proof (cases "rc_pc r")
  case RunTurn
  then show ?thesis
    using run_turn_inv [OF inv] by (simp add: owner_step_def)
next
  case (RunWait m)
  then show ?thesis
    using run_wait_inv [OF inv] by (simp add: owner_step_def)
next
  case (RunExited x)
  then show ?thesis
    using inv by (simp add: owner_step_def)
next
  case RunUnwound
  then show ?thesis
    using inv by (simp add: owner_step_def)
next
  case RunTop
  then show ?thesis
    using inv by (cases "rc_control r") (auto simp: owner_step_def reactor_inv_def control_ops rc_host_phase_def
        EmbeddedHost_terminate_def HostSnapshot_terminate_def)
next
  case (RunCheckWait m)
  then show ?thesis
    using inv by (cases "rc_control r") (auto simp: owner_step_def reactor_inv_def control_ops rc_host_phase_def)
next
  case RunFinishTerminated
  then show ?thesis
    using inv by (cases "rc_control r") (auto simp: owner_step_def reactor_inv_def control_ops rc_host_phase_def exit_with_def
        exit_truthful_def)
next
  case RunFinishStop
  then show ?thesis
    using inv by (cases "rc_control r") (auto simp: owner_step_def reactor_inv_def control_ops rc_host_phase_def
        exit_with_def exit_truthful_def EmbeddedHost_terminate_def HostSnapshot_terminate_def)
next
  case (RunFinishFailed failure)
  then show ?thesis
    using inv by (cases "rc_control r") (auto simp: owner_step_def reactor_inv_def control_ops rc_host_phase_def exit_with_def
        exit_truthful_def)
qed

lemma reactor_reachable_inv: "reactor_reachable dc cc wc r \<Longrightarrow> reactor_inv r"
proof (induction rule: reactor_reachable.induct)
  case (step r r')
  from step(2) show ?case
    by cases (use step(3) owner_step_inv request_inv in blast)+
qed (rule reactor_inv_new)

section \<open>Termination is prompt\<close>

text \<open>A schedule: the loop moves, or some thread requests termination.\<close>

datatype reactor_move = OwnerMoves | RequestMove "nat + unit"

fun reactor_moves ::
  "('d, 'de) duty_code \<Rightarrow> ('c, 'ce) clock_code \<Rightarrow> ('v, 'd, 'we) waiter_code \<Rightarrow> reactor_move list \<Rightarrow>
   ('d, 'c, 'v, 'de, 'ce, 'we) reactor \<Rightarrow> ('d, 'c, 'v, 'de, 'ce, 'we) reactor" where
  "reactor_moves dc cc wc [] r = r"
| "reactor_moves dc cc wc (OwnerMoves # moves) r = reactor_moves dc cc wc moves (owner_step dc cc wc r)"
| "reactor_moves dc cc wc (RequestMove answer # moves) r = reactor_moves dc cc wc moves (fst (request_step r answer))"

text \<open>How many moves of its own the loop needs at most, once a request is pending.\<close>

definition moves_left :: "('d, 'c, 'v, 'de, 'ce, 'we) run_pc \<Rightarrow> nat" where
  "moves_left pc =
     (case pc of
        RunTurn \<Rightarrow> 4 | RunCheckWait _ \<Rightarrow> 3 | RunWait _ \<Rightarrow> 3 | RunTop \<Rightarrow> 2
      | RunFinishTerminated \<Rightarrow> 1 | RunFinishStop \<Rightarrow> 1 | RunFinishFailed _ \<Rightarrow> 1
      | RunExited _ \<Rightarrow> 0 | RunUnwound \<Rightarrow> 0)"

lemma moves_left_exited [simp]: "exited pc \<Longrightarrow> moves_left pc = 0"
  by (cases pc) (simp_all add: moves_left_def)

lemma moves_left_0: "moves_left pc = 0 \<longleftrightarrow> exited pc"
  by (cases pc) (simp_all add: moves_left_def)

lemma run_turn_moves:
  "rc_control r = ControlTerminationRequested \<Longrightarrow>
   exited (rc_pc (run_turn dc cc r)) \<or>
   rc_control (run_turn dc cc r) = ControlTerminationRequested \<and> moves_left (rc_pc (run_turn dc cc r)) \<le> 3"
  by (auto simp: run_turn_def unwind_def moves_left_def Let_def
      split: run.splits prod.splits sum.splits host_action.splits)

lemma run_wait_moves:
  "rc_control r = ControlTerminationRequested \<Longrightarrow>
   exited (rc_pc (run_wait wc m r)) \<or>
   rc_control (run_wait wc m r) = ControlTerminationRequested \<and> moves_left (rc_pc (run_wait wc m r)) \<le> 2"
  by (auto simp: run_wait_def unwind_def moves_left_def Let_def split: run.splits prod.splits sum.splits)

lemma begun_control [simp]: "rc_control (begun r) = rc_control r"
  by (simp add: begun_def)

lemma owner_step_moves:
  assumes "rc_control r = ControlTerminationRequested \<or> exited (rc_pc r)"
  shows "exited (rc_pc (owner_step dc cc wc r)) \<or>
    rc_control (owner_step dc cc wc r) = ControlTerminationRequested \<and>
    moves_left (rc_pc (owner_step dc cc wc r)) < moves_left (rc_pc r)"
proof (cases "rc_pc r")
  case RunTurn
  then show ?thesis
    using assms run_turn_moves [of "begun r" dc cc] by (auto simp: owner_step_def moves_left_def [of RunTurn])
next
  case (RunWait m)
  then show ?thesis
    using assms run_wait_moves [of "begun r" wc m] by (auto simp: owner_step_def moves_left_def [of "RunWait m"])
qed (use assms in \<open>simp_all add: owner_step_def control_ops exit_with_def moves_left_def\<close>)

lemma request_step_moves:
  assumes "rc_control r = ControlTerminationRequested \<or> exited (rc_pc r)"
  shows "rc_pc (fst (request_step r answer)) = rc_pc r \<and>
    (rc_control (fst (request_step r answer)) = ControlTerminationRequested \<or> exited (rc_pc r))"
  using assms by (auto simp: request_step_def control_ops Let_def split: prod.splits)

lemma reactor_moves_exit:
  assumes "rc_control r = ControlTerminationRequested \<or> exited (rc_pc r)"
    and "moves_left (rc_pc r) \<le> count_list moves OwnerMoves"
  shows "exited (rc_pc (reactor_moves dc cc wc moves r))"
  using assms
proof (induction moves arbitrary: r)
  case (Cons move moves)
  show ?case
  proof (cases move)
    case OwnerMoves
    let ?r = "owner_step dc cc wc r"
    have "moves_left (rc_pc ?r) \<le> count_list moves OwnerMoves"
      using owner_step_moves [OF Cons.prems(1), of dc cc wc] Cons.prems(2) OwnerMoves by auto
    then show ?thesis
      using Cons.IH [of ?r] owner_step_moves [OF Cons.prems(1), of dc cc wc] OwnerMoves by auto
  next
    case (RequestMove answer)
    then show ?thesis
      using Cons.IH [of "fst (request_step r answer)"] request_step_moves [OF Cons.prems(1), of answer]
        Cons.prems(2) by simp
  qed
qed (auto simp: moves_left_0)

section \<open>Theorems\<close>

text \<open>
  C12. A reactor's outcome tells the truth, whatever its duty, clock and waiter do and however the run
  loop interleaves with termination requests. At most one request is accepted; a request is told
  that it is the first, that one is pending, or that the reactor has exited, as is the case. After
  an accepted request at most one more bounded operation, a turn or a wait, begins. A reactor that
  says it stopped was never asked to terminate and its host stopped; one that says it terminated was
  asked to. A failure leaves a host that was handed over running failed, and is then no refusal; a
  host that was handed over when it was over already is left as it was, and the failure is the
  refusal that names its phase. Any embedded host may be handed over.
\<close>

theorem reactor_outcome_truthful:
  assumes "reactor_reachable dc cc wc r"
  shows "rc_accepted r \<le> 1 \<and> rc_late r \<le> 1 \<and>
    rtm_status (snd (request_step r answer)) =
      (if exited (rc_pc r) then TerminationExited
       else if rc_accepted r = 0 then TerminationRequested else TerminationAlreadyRequested) \<and>
    (\<forall>x. rc_pc r = RunExited x \<longrightarrow> exit_truthful (rc_handed r) (rc_accepted r) x)"
proof -
  have inv: "reactor_inv r"
    using assms by (rule reactor_reachable_inv)
  have "rtm_status (snd (request_step r answer)) =
      (if exited (rc_pc r) then TerminationExited
       else if rc_accepted r = 0 then TerminationRequested else TerminationAlreadyRequested)"
    using inv by (cases "rc_control r") (auto simp: reactor_inv_def request_step_def control_ops)
  then show ?thesis
    using inv by (auto simp: reactor_inv_def)
qed

text \<open>A duty that waits, a waiter that returns at once, and a request between the two.\<close>

definition waiting_duty :: "(unit, unit) duty_code" where
  "waiting_duty = \<lparr> dc_turn = (\<lambda>d now. Ret (d, Inr Turn_waiting)) \<rparr>"

definition idle_waiter :: "(unit, unit, unit) waiter_code" where
  "idle_waiter = \<lparr> wc_wait = (\<lambda>v d maximum. Ret (v, d, Inr IdleReturn)) \<rparr>"

definition reactor_demo :: "(unit, moment, unit, unit, unit, unit) reactor" where
  "reactor_demo = Reactor_new () 0 ()"

lemma reactor_moves_reachable:
  "reactor_reachable dc cc wc r \<Longrightarrow> reactor_reachable dc cc wc (reactor_moves dc cc wc moves r)"
  by (induction dc cc wc moves r rule: reactor_moves.induct)
    (auto intro: reactor_reachable.step reactor_next.intros)

lemma reactor_demo_reachable: "reactor_reachable dc cc wc reactor_demo"
  unfolding reactor_demo_def Reactor_new_def Reactor_with_config_def by (rule reactor_reachable.start)

lemma reactor_demo_run:
  "case rc_pc (reactor_moves waiting_duty clock_demo idle_waiter
       [OwnerMoves, OwnerMoves, RequestMove (Inr ()), OwnerMoves, OwnerMoves, OwnerMoves] reactor_demo) of
     RunExited x \<Rightarrow> rex_outcome x = ReactorTerminated | _ \<Rightarrow> False"
  by code_simp

text \<open>A host that has stopped is handed over.\<close>

definition stopped_demo :: "(unit, moment, unit, unit, unit, unit) reactor" where
  "stopped_demo = Reactor_from_host
     \<lparr> eh_duty = (), eh_clock = 0, eh_config = HostConfig_default, eh_snapshot = HostSnapshot_stop HostSnapshot_new \<rparr> ()"

lemma stopped_demo_run:
  "case rc_pc (reactor_moves waiting_duty clock_demo idle_waiter [OwnerMoves, OwnerMoves, OwnerMoves] stopped_demo) of
     RunExited x \<Rightarrow> rex_outcome x = ReactorFailed (FailureHost (HostNotRunning HostStopped)) | _ \<Rightarrow> False"
  by code_simp

theorem reactor_outcome_truthful_witness:
  "(\<exists>x. rc_pc (reactor_moves waiting_duty clock_demo idle_waiter
       [OwnerMoves, OwnerMoves, RequestMove (Inr ()), OwnerMoves, OwnerMoves, OwnerMoves] reactor_demo) = RunExited x \<and>
     rex_outcome x = ReactorTerminated \<and> hs_phase (eh_snapshot (rex_host x)) = HostTerminated) \<and>
   (\<exists>x. rc_pc (reactor_moves waiting_duty clock_demo idle_waiter [OwnerMoves, OwnerMoves, OwnerMoves] stopped_demo) =
       RunExited x \<and> hs_phase (eh_snapshot (rex_host x)) \<noteq> HostFailed)"
proof
  let ?r = "reactor_moves waiting_duty clock_demo idle_waiter
       [OwnerMoves, OwnerMoves, RequestMove (Inr ()), OwnerMoves, OwnerMoves, OwnerMoves] reactor_demo"
  obtain x where x: "rc_pc ?r = RunExited x" "rex_outcome x = ReactorTerminated"
    using reactor_demo_run by (cases "rc_pc ?r") simp_all
  have "reactor_reachable waiting_duty clock_demo idle_waiter ?r"
    by (rule reactor_moves_reachable [OF reactor_demo_reachable])
  from reactor_outcome_truthful [OF this, of "Inr ()"] have "exit_truthful (rc_handed ?r) (rc_accepted ?r) x"
    using x(1) by blast
  then show "\<exists>x. rc_pc ?r = RunExited x \<and> rex_outcome x = ReactorTerminated \<and>
      hs_phase (eh_snapshot (rex_host x)) = HostTerminated"
    using x by (auto simp: exit_truthful_def)
next
  let ?r = "reactor_moves waiting_duty clock_demo idle_waiter [OwnerMoves, OwnerMoves, OwnerMoves] stopped_demo"
  obtain x where x: "rc_pc ?r = RunExited x" "rex_outcome x = ReactorFailed (FailureHost (HostNotRunning HostStopped))"
    using stopped_demo_run by (cases "rc_pc ?r") simp_all
  have "reactor_reachable waiting_duty clock_demo idle_waiter ?r"
    unfolding stopped_demo_def by (rule reactor_moves_reachable [OF reactor_reachable.start])
  from reactor_outcome_truthful [OF this, of "Inr ()"] have "exit_truthful (rc_handed ?r) (rc_accepted ?r) x"
    using x(1) by blast
  then show "\<exists>x. rc_pc ?r = RunExited x \<and> hs_phase (eh_snapshot (rex_host x)) \<noteq> HostFailed"
    using x by (auto simp: exit_truthful_def failure_truthful_def split: if_splits)
qed

text \<open>
  C14. Termination is prompt. Once a request has been accepted, the reactor has exited, or unwound,
  within four moves of its own loop, however they interleave with further requests and wherever the
  loop stood; nothing but its current turn or wait, each of which must return, can delay it.
\<close>

theorem reactor_terminates_promptly:
  assumes "reactor_reachable dc cc wc r" "rc_accepted r = 1" "4 \<le> count_list moves OwnerMoves"
  shows "exited (rc_pc (reactor_moves dc cc wc moves r))"
proof -
  have "reactor_inv r"
    using assms(1) by (rule reactor_reachable_inv)
  then have "rc_control r = ControlTerminationRequested \<or> exited (rc_pc r)"
    using assms(2) by (cases "rc_control r") (simp_all add: reactor_inv_def)
  moreover have "moves_left (rc_pc r) \<le> count_list moves OwnerMoves"
    using assms(3) by (auto simp: moves_left_def split: run_pc.splits)
  ultimately show ?thesis
    by (rule reactor_moves_exit)
qed

theorem reactor_terminates_promptly_witness:
  "exited (rc_pc (reactor_moves waiting_duty clock_demo idle_waiter
     [OwnerMoves, OwnerMoves, OwnerMoves, OwnerMoves] (fst (request_step reactor_demo (Inr () :: nat + unit)))))"
proof -
  have "reactor_reachable waiting_duty clock_demo idle_waiter (fst (request_step reactor_demo (Inr () :: nat + unit)))"
    by (rule reactor_reachable.step [OF reactor_demo_reachable reactor_next.request])
  moreover have "rc_accepted (fst (request_step reactor_demo (Inr () :: nat + unit))) = 1"
    by (simp add: reactor_demo_def Reactor_new_def Reactor_with_config_def Reactor_from_host_def
        request_step_def control_ops)
  ultimately show ?thesis
    by (rule reactor_terminates_promptly) simp
qed

end
