(* ===== verification/Group_Ingress.thy ===== *)
theory Group_Ingress
  imports Mailbox
begin

text \<open>
  Admission to a reactor group (\<open>reactor/group/\<close>: \<open>identity\<close>, \<open>limits\<close>, \<open>admission\<close>, \<open>port\<close>,
  \<open>send_error\<close>): one bounded mailbox a reactor, a flag that says whether the group is open, and a
  lock a shard that makes closing a fence. A send looks at the flag, takes the lock of its shard,
  looks again and sends; a close clears the flag and then takes and releases every lock once. The
  machine below steps between those accesses, for any number of senders and closers, with the
  receivers draining meanwhile; the mailboxes are those of \<open>Mailbox\<close>.
\<close>

section \<open>Identity and limits\<close>

type_synonym reactor_id = u64

definition ReactorId_from_position :: "nat \<Rightarrow> reactor_id run" where
  "ReactorId_from_position position = (if position < 2 ^ 64 then Ret (of_nat position) else Panic)"

text \<open>\<open>try_from\<close> of a 64-bit identity into a 64-bit index always answers.\<close>

definition ReactorId_position :: "reactor_id \<Rightarrow> nat option" where
  "ReactorId_position self = Some (unat self)"

lemma position_of_from_position:
  "ReactorId_from_position n = Ret r \<Longrightarrow> ReactorId_position r = Some n"
  by (auto simp: ReactorId_from_position_def ReactorId_position_def unat_of_nat take_bit_nat_eq_self_iff
    split: if_splits)

record reactor_group_limits =
  rgl_reactors :: usize

section \<open>Rejections\<close>

datatype 'w group_send_failure =
  GroupClosed
| UnknownReactor reactor_id nat
| GroupMailbox "'w admission_failure"

record ('u, 'w) group_send_error =
  gse_item :: 'u
  gse_lane :: lane
  gse_failure :: "'w group_send_failure"

section \<open>The port\<close>

text \<open>The accesses of a send, in order: the first look with the lookup, the second look, the mailbox.\<close>

definition port_route :: "bool \<Rightarrow> nat \<Rightarrow> reactor_id \<Rightarrow> 'w group_send_failure + nat" where
  "port_route is_open reactors reactor =
     (if \<not> is_open then Inl GroupClosed
      else case ReactorId_position reactor of
        None \<Rightarrow> Inl (UnknownReactor reactor reactors)
      | Some index \<Rightarrow> if index < reactors then Inr index else Inl (UnknownReactor reactor reactors))"

definition group_error :: "('u, 'w) try_send_error \<Rightarrow> ('u, 'w) group_send_error" where
  "group_error error =
     \<lparr> gse_item = tse_item error, gse_lane = tse_lane error, gse_failure = GroupMailbox (tse_failure error) \<rparr>"

definition port_publish ::
  "'a mailbox \<Rightarrow> lane \<Rightarrow> 'u \<Rightarrow> ('u \<Rightarrow> retained_bytes) \<Rightarrow> ('u \<Rightarrow> 'a) \<Rightarrow> 'w + unit \<Rightarrow>
   'a mailbox \<times> (('u, 'w) group_send_error + unit)" where
  "port_publish ingress lane owner retained_bytes materialize backend =
     (case MailboxSender_try_send_materialized ingress lane owner retained_bytes materialize backend of
        (ingress, Inl error) \<Rightarrow> (ingress, Inl (group_error error))
      | (ingress, Inr _) \<Rightarrow> (ingress, Inr ()))"

text \<open>A send that runs alone, on the flag and the mailboxes.\<close>

definition ReactorGroupHandle_try_send_materialized ::
  "bool \<Rightarrow> 'a mailbox list \<Rightarrow> reactor_id \<Rightarrow> lane \<Rightarrow> 'u \<Rightarrow> ('u \<Rightarrow> retained_bytes) \<Rightarrow> ('u \<Rightarrow> 'a) \<Rightarrow>
   'w + unit \<Rightarrow> 'a mailbox list \<times> (('u, 'w) group_send_error + unit)" where
  "ReactorGroupHandle_try_send_materialized is_open shards reactor lane owner retained_bytes materialize backend =
     (let rejected = (\<lambda>failure. (shards, Inl \<lparr> gse_item = owner, gse_lane = lane, gse_failure = failure \<rparr>)) in
      case port_route is_open (length shards) reactor of
        Inl failure \<Rightarrow> rejected failure
      | Inr index \<Rightarrow>
          if \<not> is_open then rejected GroupClosed
          else (let (ingress, result) = port_publish (shards ! index) lane owner retained_bytes materialize backend in
            (shards[index := ingress], result)))"

definition ReactorGroupHandle_try_send_to ::
  "bool \<Rightarrow> 'a mailbox list \<Rightarrow> reactor_id \<Rightarrow> lane \<Rightarrow> 'a \<Rightarrow> 'w + unit \<Rightarrow>
   'a mailbox list \<times> (('a, 'w) group_send_error + unit)" where
  "ReactorGroupHandle_try_send_to is_open shards reactor lane item backend =
     (let rejected = (\<lambda>failure. (shards, Inl \<lparr> gse_item = item, gse_lane = lane, gse_failure = failure \<rparr>)) in
      case port_route is_open (length shards) reactor of
        Inl failure \<Rightarrow> rejected failure
      | Inr index \<Rightarrow>
          if \<not> is_open then rejected GroupClosed
          else (case MailboxSender_try_send_to (shards ! index) lane item backend of
              (ingress, Inl error) \<Rightarrow> (shards[index := ingress], Inl (group_error error))
            | (ingress, Inr _) \<Rightarrow> (shards[index := ingress], Inr ())))"

definition ReactorGroupHandle_try_send ::
  "bool \<Rightarrow> 'a mailbox list \<Rightarrow> reactor_id \<Rightarrow> 'a \<Rightarrow> 'w + unit \<Rightarrow>
   'a mailbox list \<times> (('a, 'w) group_send_error + unit)" where
  "ReactorGroupHandle_try_send is_open shards reactor item backend =
     ReactorGroupHandle_try_send_to is_open shards reactor Work item backend"

definition ReactorGroupHandle_try_send_control ::
  "bool \<Rightarrow> 'a mailbox list \<Rightarrow> reactor_id \<Rightarrow> 'a \<Rightarrow> 'w + unit \<Rightarrow>
   'a mailbox list \<times> (('a, 'w) group_send_error + unit)" where
  "ReactorGroupHandle_try_send_control is_open shards reactor item backend =
     ReactorGroupHandle_try_send_to is_open shards reactor Control item backend"

definition ReactorGroupHandle_mailbox_snapshot :: "'a mailbox list \<Rightarrow> reactor_id \<Rightarrow> mailbox_snapshot option" where
  "ReactorGroupHandle_mailbox_snapshot shards reactor =
     (case ReactorId_position reactor of
        None \<Rightarrow> None
      | Some index \<Rightarrow> if index < length shards then Some (Shared_snapshot (shards ! index)) else None)"

text \<open>Sending an item is sending it under the shard's own measure.\<close>

lemma try_send_to_materialized:
  "ReactorGroupHandle_try_send_to is_open shards reactor lane item backend =
     ReactorGroupHandle_try_send_materialized is_open shards reactor lane item
       (mb_measure (shards ! unat reactor)) (\<lambda>x. x) backend"
  by (auto simp: ReactorGroupHandle_try_send_to_def ReactorGroupHandle_try_send_materialized_def port_route_def
    port_publish_def MailboxSender_try_send_to_def ReactorId_position_def Let_def split: prod.splits sum.splits)

section \<open>Threads\<close>

text \<open>
  Who holds a shard's lock, and a shard: its lock, its mailbox, and what was admitted to it, by which
  send, and delivered from it.
\<close>

datatype lock_holder = BySend nat | ByClose nat

record 'a shard =
  gs_lock :: "lock_holder option"
  gs_ingress :: "'a mailbox"
  gs_admitted :: "(nat \<times> lane \<times> 'a) list"
  gs_delivered :: "(lane \<times> 'a) list"

definition Shard_new :: "'a mailbox \<Rightarrow> 'a shard" where
  "Shard_new ingress = \<lparr> gs_lock = None, gs_ingress = ingress, gs_admitted = [], gs_delivered = [] \<rparr>"

text \<open>The size may be the shard's own measure, so it is a function of the mailbox.\<close>

record ('a, 'u) send_request =
  sr_reactor :: reactor_id
  sr_lane :: lane
  sr_owner :: 'u
  sr_size :: "'a mailbox \<Rightarrow> 'u \<Rightarrow> retained_bytes"
  sr_materialize :: "'u \<Rightarrow> 'a"

datatype ('u, 'w) send_pc =
  SendRoute
| SendLock nat
| SendRecheck nat
| SendPublish nat
| SendUnlock nat "('u, 'w) group_send_error + unit"
| SendDone "('u, 'w) group_send_error + unit"

datatype close_pc = CloseStore | CloseLock nat | CloseUnlock nat | CloseDone

record ('a, 'u, 'w) ingress =
  gi_open :: bool
  gi_shards :: "'a shard list"
  gi_sends :: "(('a, 'u) send_request \<times> ('u, 'w) send_pc) list"
  gi_closes :: "close_pc list"

text \<open>A group without reactors panics.\<close>

definition bounded_ingress :: "'a mailbox list \<Rightarrow> ('a, 'u, 'w) ingress run" where
  "bounded_ingress senders =
     (if senders = [] then Panic
      else Ret \<lparr> gi_open = True, gi_shards = map Shard_new senders, gi_sends = [], gi_closes = [] \<rparr>)"

definition into_senders :: "('a, 'u, 'w) ingress \<Rightarrow> 'a mailbox list" where
  "into_senders self = map gs_ingress (gi_shards self)"

definition set_shard :: "nat \<Rightarrow> ('a shard \<Rightarrow> 'a shard) \<Rightarrow> ('a, 'u, 'w) ingress \<Rightarrow> ('a, 'u, 'w) ingress" where
  "set_shard i f g = g \<lparr> gi_shards := (gi_shards g)[i := f (gi_shards g ! i)] \<rparr>"

definition set_send :: "nat \<Rightarrow> ('u, 'w) send_pc \<Rightarrow> ('a, 'u, 'w) ingress \<Rightarrow> ('a, 'u, 'w) ingress" where
  "set_send t pc g = g \<lparr> gi_sends := (gi_sends g)[t := (fst (gi_sends g ! t), pc)] \<rparr>"

definition set_close :: "nat \<Rightarrow> close_pc \<Rightarrow> ('a, 'u, 'w) ingress \<Rightarrow> ('a, 'u, 'w) ingress" where
  "set_close c pc g = g \<lparr> gi_closes := (gi_closes g)[c := pc] \<rparr>"

definition refused :: "('a, 'u) send_request \<Rightarrow> 'w group_send_failure \<Rightarrow> ('u, 'w) group_send_error + unit" where
  "refused r failure = Inl \<lparr> gse_item = sr_owner r, gse_lane = sr_lane r, gse_failure = failure \<rparr>"

text \<open>One step of send \<open>t\<close>; \<open>None\<close> waits for a lock, or is over.\<close>

definition send_step ::
  "('a, 'u, 'w) ingress \<Rightarrow> nat \<Rightarrow> 'w + unit \<Rightarrow> ('a, 'u, 'w) ingress option" where
  "send_step g t backend =
     (let (r, pc) = gi_sends g ! t in
      case pc of
        SendRoute \<Rightarrow>
          Some (set_send t
            (case port_route (gi_open g) (length (gi_shards g)) (sr_reactor r) of
               Inl failure \<Rightarrow> SendDone (refused r failure)
             | Inr i \<Rightarrow> SendLock i) g)
      | SendLock i \<Rightarrow>
          if gs_lock (gi_shards g ! i) \<noteq> None then None
          else Some (set_send t (SendRecheck i) (set_shard i (gs_lock_update (\<lambda>_. Some (BySend t))) g))
      | SendRecheck i \<Rightarrow>
          Some (set_send t (if gi_open g then SendPublish i else SendUnlock i (refused r GroupClosed)) g)
      | SendPublish i \<Rightarrow>
          let (ingress, result) =
            port_publish (gs_ingress (gi_shards g ! i)) (sr_lane r) (sr_owner r)
              (sr_size r (gs_ingress (gi_shards g ! i))) (sr_materialize r) backend in
          Some (set_send t (SendUnlock i result)
            (set_shard i (\<lambda>s. s \<lparr> gs_ingress := ingress,
               gs_admitted := gs_admitted s @
                 (case result of Inl _ \<Rightarrow> [] | Inr _ \<Rightarrow> [(t, sr_lane r, sr_materialize r (sr_owner r))]) \<rparr>) g))
      | SendUnlock i result \<Rightarrow>
          Some (set_send t (SendDone result) (set_shard i (gs_lock_update (\<lambda>_. None)) g))
      | SendDone _ \<Rightarrow> None)"

text \<open>One step of close \<open>c\<close>.\<close>

definition close_step :: "('a, 'u, 'w) ingress \<Rightarrow> nat \<Rightarrow> ('a, 'u, 'w) ingress option" where
  "close_step g c =
     (case gi_closes g ! c of
        CloseStore \<Rightarrow> Some (set_close c (CloseLock 0) (g \<lparr> gi_open := False \<rparr>))
      | CloseLock i \<Rightarrow>
          if length (gi_shards g) \<le> i then Some (set_close c CloseDone g)
          else if gs_lock (gi_shards g ! i) \<noteq> None then None
          else Some (set_close c (CloseUnlock i) (set_shard i (gs_lock_update (\<lambda>_. Some (ByClose c))) g))
      | CloseUnlock i \<Rightarrow>
          Some (set_close c (CloseLock (i + 1)) (set_shard i (gs_lock_update (\<lambda>_. None)) g))
      | CloseDone \<Rightarrow> None)"

text \<open>What happens to a mailbox besides the sends: its receiver drains or closes, someone wakes.\<close>

definition receiver_op :: "('a, 'w) mailbox_op \<Rightarrow> bool" where
  "receiver_op op = (case op of MailboxDrain _ \<Rightarrow> True | MailboxClose \<Rightarrow> True | MailboxWake _ \<Rightarrow> True | _ \<Rightarrow> False)"

datatype ('a, 'u, 'w) ingress_op =
  BeginSend "('a, 'u) send_request"
| BeginClose
| SendStep nat "'w + unit"
| CloseStep nat
| Receive nat "('a, 'w) mailbox_op"

definition ingress_step ::
  "('a, 'u, 'w) ingress \<Rightarrow> ('a, 'u, 'w) ingress_op \<Rightarrow> ('a, 'u, 'w) ingress run option" where
  "ingress_step g op =
     (case op of
        BeginSend r \<Rightarrow> Some (Ret (g \<lparr> gi_sends := gi_sends g @ [(r, SendRoute)] \<rparr>))
      | BeginClose \<Rightarrow> Some (Ret (g \<lparr> gi_closes := gi_closes g @ [CloseStore] \<rparr>))
      | SendStep t backend \<Rightarrow>
          if length (gi_sends g) \<le> t then None else map_option Ret (send_step g t backend)
      | CloseStep c \<Rightarrow> if length (gi_closes g) \<le> c then None else map_option Ret (close_step g c)
      | Receive i op \<Rightarrow>
          if length (gi_shards g) \<le> i \<or> \<not> receiver_op op then None
          else Some (and_then (mailbox_step (gs_ingress (gi_shards g ! i)) op) (\<lambda>(ingress, accepted, delivered).
            Ret (set_shard i (\<lambda>s. s \<lparr> gs_ingress := ingress, gs_delivered := gs_delivered s @ delivered \<rparr>) g))))"

inductive ingress_reachable :: "'a mailbox list \<Rightarrow> ('a, 'u, 'w) ingress \<Rightarrow> bool" for senders where
  start: "bounded_ingress senders = Ret g \<Longrightarrow> ingress_reachable senders g"
| step: "ingress_reachable senders g \<Longrightarrow> ingress_step g op = Some (Ret g') \<Longrightarrow> ingress_reachable senders g'"

section \<open>Invariant\<close>

text \<open>A shard's mailbox against the one it was built from: its lanes are queues of what was admitted.\<close>

definition shard_ok :: "'a mailbox \<Rightarrow> 'a shard \<Rightarrow> bool" where
  "shard_ok m s \<longleftrightarrow> mailbox_inv (gs_ingress s) \<and>
     lane_conserved m (gs_ingress s) (map snd (gs_admitted s)) (gs_delivered s)"

definition admitted_by :: "nat \<Rightarrow> 'a shard \<Rightarrow> (lane \<times> 'a) list" where
  "admitted_by t s = map snd (filter (\<lambda>x. fst x = t) (gs_admitted s))"

definition send_succeeded :: "('u, 'w) send_pc \<Rightarrow> bool" where
  "send_succeeded pc = (case pc of SendUnlock _ result \<Rightarrow> result = Inr () | SendDone result \<Rightarrow> result = Inr () | _ \<Rightarrow> False)"

text \<open>The shard a send stands in, with its lock, and the shard it is on its way to.\<close>

definition send_inside :: "('u, 'w) send_pc \<Rightarrow> nat option" where
  "send_inside pc = (case pc of SendRecheck i \<Rightarrow> Some i | SendPublish i \<Rightarrow> Some i | SendUnlock i _ \<Rightarrow> Some i | _ \<Rightarrow> None)"

definition send_target :: "('u, 'w) send_pc \<Rightarrow> nat option" where
  "send_target pc = (case pc of SendLock i \<Rightarrow> Some i | _ \<Rightarrow> send_inside pc)"

definition send_result :: "('u, 'w) send_pc \<Rightarrow> (('u, 'w) group_send_error + unit) option" where
  "send_result pc = (case pc of SendUnlock _ result \<Rightarrow> Some result | SendDone result \<Rightarrow> Some result | _ \<Rightarrow> None)"

definition send_ok :: "'a shard list \<Rightarrow> nat \<Rightarrow> ('a, 'u) send_request \<times> ('u, 'w) send_pc \<Rightarrow> bool" where
  "send_ok shards t x \<longleftrightarrow> (let (r, pc) = x in
     (\<forall>i. send_target pc = Some i \<longrightarrow> i < length shards \<and> unat (sr_reactor r) = i) \<and>
     (\<forall>i. send_inside pc = Some i \<longrightarrow> gs_lock (shards ! i) = Some (BySend t)) \<and>
     (\<forall>e. send_result pc = Some (Inl e) \<longrightarrow> gse_item e = sr_owner r \<and> gse_lane e = sr_lane r) \<and>
     (\<forall>i<length shards. admitted_by t (shards ! i) =
        (if send_succeeded pc \<and> unat (sr_reactor r) = i then [(sr_lane r, sr_materialize r (sr_owner r))] else [])))"

definition fenced :: "('a, 'u, 'w) ingress \<Rightarrow> nat \<Rightarrow> bool" where
  "fenced g n \<longleftrightarrow> \<not> gi_open g \<and> (\<forall>x\<in>set (gi_sends g). \<forall>i<n. snd x \<noteq> SendPublish i)"

definition close_ok :: "('a, 'u, 'w) ingress \<Rightarrow> nat \<Rightarrow> close_pc \<Rightarrow> bool" where
  "close_ok g c pc \<longleftrightarrow>
     (case pc of
        CloseStore \<Rightarrow> True
      | CloseLock n \<Rightarrow> fenced g n
      | CloseUnlock n \<Rightarrow> fenced g n \<and> n < length (gi_shards g) \<and> gs_lock (gi_shards g ! n) = Some (ByClose c)
      | CloseDone \<Rightarrow> fenced g (length (gi_shards g)))"

definition ingress_inv :: "'a mailbox list \<Rightarrow> ('a, 'u, 'w) ingress \<Rightarrow> bool" where
  "ingress_inv senders g \<longleftrightarrow>
     length (gi_shards g) = length senders \<and>
     (\<forall>i<length senders. shard_ok (senders ! i) (gi_shards g ! i)) \<and>
     (\<forall>t. \<forall>i<length senders. length (gi_sends g) \<le> t \<longrightarrow> admitted_by t (gi_shards g ! i) = []) \<and>
     (\<forall>t<length (gi_sends g). send_ok (gi_shards g) t (gi_sends g ! t)) \<and>
     (\<forall>c<length (gi_closes g). close_ok g c (gi_closes g ! c))"

section \<open>Every step keeps the invariant\<close>

lemma admitted_by_simps [simp]:
  "admitted_by t (s \<lparr> gs_lock := l \<rparr>) = admitted_by t s" "admitted_by t (s \<lparr> gs_ingress := m \<rparr>) = admitted_by t s"
  "admitted_by t (s \<lparr> gs_delivered := d \<rparr>) = admitted_by t s"
  "admitted_by t (s \<lparr> gs_admitted := gs_admitted s @ [(u, x)] \<rparr>) = admitted_by t s @ (if u = t then [x] else [])"
  "admitted_by t (s \<lparr> gs_admitted := gs_admitted s \<rparr>) = admitted_by t s"
  by (simp_all add: admitted_by_def)

lemma shard_ok_lock [simp]: "shard_ok m (s \<lparr> gs_lock := l \<rparr>) = shard_ok m s"
  by (simp add: shard_ok_def)

lemma send_ok_other:
  assumes "send_ok shards t x" "length shards' = length shards"
    "\<And>i. i < length shards \<Longrightarrow> admitted_by t (shards' ! i) = admitted_by t (shards ! i)"
    "\<And>i. i < length shards \<Longrightarrow> gs_lock (shards ! i) = Some (BySend t) \<Longrightarrow> gs_lock (shards' ! i) = Some (BySend t)"
  shows "send_ok shards' t x"
proof -
  obtain r pc where x: "x = (r, pc)"
    by (cases x)
  have "send_inside pc = Some i \<Longrightarrow> i < length shards" for i
    using assms(1) x by (cases pc) (auto simp: send_ok_def send_target_def send_inside_def)
  then show ?thesis
    using assms x by (auto simp: send_ok_def)
qed

text \<open>A send moves; the shards change in what its lock protects.\<close>

lemma ingress_inv_send:
  assumes inv: "ingress_inv senders g" and t: "t < length (gi_sends g)"
    and shards: "length shards = length (gi_shards g)"
      "\<And>i. i < length senders \<Longrightarrow> shard_ok (senders ! i) (shards ! i)"
      "\<And>u i. u \<noteq> t \<Longrightarrow> i < length senders \<Longrightarrow> admitted_by u (shards ! i) = admitted_by u (gi_shards g ! i)"
      "\<And>i. i < length senders \<Longrightarrow> gs_lock (shards ! i) = gs_lock (gi_shards g ! i) \<or>
        gs_lock (gi_shards g ! i) = None \<or> gs_lock (gi_shards g ! i) = Some (BySend t)"
    and send: "send_ok shards t (fst (gi_sends g ! t), pc)" "\<And>i. pc = SendPublish i \<Longrightarrow> gi_open g"
  shows "ingress_inv senders (set_send t pc (g \<lparr> gi_shards := shards \<rparr>))"
proof -
  let ?g = "set_send t pc (g \<lparr> gi_shards := shards \<rparr>)"
  have n: "length (gi_shards g) = length senders"
    using inv by (simp add: ingress_inv_def)
  have sends: "send_ok shards u (gi_sends ?g ! u)" if u: "u < length (gi_sends g)" for u
  proof (cases "u = t")
    case True
    then show ?thesis
      using send t by (simp add: set_send_def)
  next
    case False
    have "send_ok shards u (gi_sends g ! u)"
    proof (rule send_ok_other [OF _ shards(1)])
      show "send_ok (gi_shards g) u (gi_sends g ! u)"
        using inv u by (simp add: ingress_inv_def)
      show "admitted_by u (shards ! i) = admitted_by u (gi_shards g ! i)" if "i < length (gi_shards g)" for i
        using shards(3) [OF False] that n by simp
      show "gs_lock (shards ! i) = Some (BySend u)"
        if "i < length (gi_shards g)" "gs_lock (gi_shards g ! i) = Some (BySend u)" for i
        using shards(4) [of i] that n False by simp
    qed
    then show ?thesis
      using False by (simp add: set_send_def)
  qed
  have "x \<in> set (gi_sends ?g) \<Longrightarrow> x = (fst (gi_sends g ! t), pc) \<or> x \<in> set (gi_sends g)" for x
    using set_update_subset_insert [of "gi_sends g" t "(fst (gi_sends g ! t), pc)"] by (auto simp: set_send_def)
  then have "fenced ?g k" if "fenced g k" for k
    using that send(2) by (fastforce simp: fenced_def set_send_def)
  moreover have "gs_lock (shards ! i) = Some (ByClose c)"
    if "i < length senders" "gs_lock (gi_shards g ! i) = Some (ByClose c)" for i c
    using shards(4) [of i] that by auto
  ultimately have "close_ok ?g c p" if "close_ok g c p" for c p
    using that shards(1) n by (auto simp: close_ok_def set_send_def split: close_pc.splits)
  then show ?thesis
    using sends inv shards t n by (auto simp: ingress_inv_def set_send_def)
qed

text \<open>A close moves.\<close>

lemma ingress_inv_close:
  assumes inv: "ingress_inv senders g" and c: "c < length (gi_closes g)"
    and shards: "length shards = length (gi_shards g)"
      "\<And>i. i < length senders \<Longrightarrow> shards ! i = (gi_shards g ! i) \<lparr> gs_lock := gs_lock (shards ! i) \<rparr>"
      "\<And>i. i < length senders \<Longrightarrow> gs_lock (shards ! i) = gs_lock (gi_shards g ! i) \<or>
        gs_lock (gi_shards g ! i) = None \<or> gs_lock (gi_shards g ! i) = Some (ByClose c)"
    and closing: "is_open \<Longrightarrow> gi_open g" "close_ok (g \<lparr> gi_open := is_open, gi_shards := shards \<rparr>) c pc"
  shows "ingress_inv senders (set_close c pc (g \<lparr> gi_open := is_open, gi_shards := shards \<rparr>))"
proof -
  let ?g = "set_close c pc (g \<lparr> gi_open := is_open, gi_shards := shards \<rparr>)"
  have n: "length (gi_shards g) = length senders"
    using inv by (simp add: ingress_inv_def)
  have same: "admitted_by u (shards ! i) = admitted_by u (gi_shards g ! i)"
    "shard_ok (senders ! i) (shards ! i) = shard_ok (senders ! i) (gi_shards g ! i)" if "i < length senders" for u i
    by (subst shards(2) [OF that], simp)+
  have "send_ok shards u (gi_sends g ! u)" if u: "u < length (gi_sends g)" for u
  proof (rule send_ok_other [OF _ shards(1)])
    show "send_ok (gi_shards g) u (gi_sends g ! u)"
      using inv u by (simp add: ingress_inv_def)
    show "admitted_by u (shards ! i) = admitted_by u (gi_shards g ! i)" if "i < length (gi_shards g)" for i
      using same(1) that n by simp
    show "gs_lock (shards ! i) = Some (BySend u)"
      if "i < length (gi_shards g)" "gs_lock (gi_shards g ! i) = Some (BySend u)" for i
      using shards(3) [of i] that n by simp
  qed
  moreover have fenced: "fenced ?g k = fenced (g \<lparr> gi_open := is_open \<rparr>) k" for k
    by (simp add: fenced_def set_close_def)
  have "close_ok ?g d (gi_closes ?g ! d)" if d: "d < length (gi_closes g)" for d
  proof (cases "d = c")
    case True
    then show ?thesis
      using closing(2) c by (simp add: close_ok_def set_close_def fenced_def split: close_pc.splits)
  next
    case False
    have "close_ok g d (gi_closes g ! d)"
      using inv d by (simp add: ingress_inv_def)
    moreover have "gs_lock (shards ! i) = Some (ByClose d)"
      if "i < length senders" "gs_lock (gi_shards g ! i) = Some (ByClose d)" for i
      using shards(3) [of i] that False by auto
    ultimately show ?thesis
      using False shards(1) n closing(1)
      by (auto simp: close_ok_def set_close_def fenced_def split: close_pc.splits)
  qed
  ultimately show ?thesis
    using inv shards(1) n same by (auto simp: ingress_inv_def set_close_def)
qed
lemma send_pc_simps [simp]:
  "send_target SendRoute = None" "send_target (SendLock i) = Some i" "send_target (SendRecheck i) = Some i"
  "send_target (SendPublish i) = Some i" "send_target (SendUnlock i result) = Some i" "send_target (SendDone result) = None"
  "send_inside SendRoute = None" "send_inside (SendLock i) = None" "send_inside (SendRecheck i) = Some i"
  "send_inside (SendPublish i) = Some i" "send_inside (SendUnlock i result) = Some i" "send_inside (SendDone result) = None"
  "send_result SendRoute = None" "send_result (SendLock i) = None" "send_result (SendRecheck i) = None"
  "send_result (SendPublish i) = None" "send_result (SendUnlock i result) = Some result"
  "send_result (SendDone result) = Some result"
  "\<not> send_succeeded SendRoute" "\<not> send_succeeded (SendLock i)" "\<not> send_succeeded (SendRecheck i)"
  "\<not> send_succeeded (SendPublish i)" "send_succeeded (SendUnlock i result) \<longleftrightarrow> result = Inr ()"
  "send_succeeded (SendDone result) \<longleftrightarrow> result = Inr ()"
  by (simp_all add: send_target_def send_inside_def send_result_def send_succeeded_def)

text \<open>Publication at a shard: the mailbox takes the item, or everything but its counters stands.\<close>

lemma port_publish_cases:
  fixes backend :: "'w + unit"
  assumes inv: "mailbox_inv m"
  obtains (accepted) m' where "port_publish m lane owner size_of materialize backend = (m', Inr ())"
      "mailbox_inv m'" "lane_conserved m m' [(lane, materialize owner)] []"
  | (rejected) m' e where "port_publish m lane owner size_of materialize backend = (m', Inl e)"
      "gse_item e = owner" "gse_lane e = lane" "mailbox_inv m'" "lane_conserved m m' [] []"
proof (cases "lane_admits m lane (size_of owner) \<and> snd (wake_call (mb_wake_requested m) backend) = Inr ()")
  case True
  from send_accepted [where m = m and lane = lane and size_of = size_of and owner = owner and
      backend = backend and materialize = materialize, OF inv conjunct1 [OF True] conjunct2 [OF True]]
  obtain m' where m': "MailboxSender_try_send_materialized m lane owner size_of materialize backend = (m', Inr ())"
    "mailbox_inv m'"
    "\<forall>l. lane_items (State_lane m' l) =
      (if l = lane then lane_items (State_lane m l) @ [materialize owner] else lane_items (State_lane m l))"
    by blast
  show ?thesis
    using m' by (intro accepted [of m']) (simp_all add: port_publish_def lane_conserved_def)
next
  case False
  then have "\<not> lane_admits m lane (size_of owner) \<or> snd (wake_call (mb_wake_requested m) backend) \<noteq> Inr ()"
    by blast
  from send_rejected [where m = m and lane = lane and size_of = size_of and owner = owner and
      backend = backend and materialize = materialize, OF inv this]
  obtain m' f where m': "MailboxSender_try_send_materialized m lane owner size_of materialize backend =
      (m', Inl \<lparr> tse_item = owner, tse_lane = lane, tse_failure = f \<rparr>)" "m' = m \<lparr> mb_counters := mb_counters m' \<rparr>"
    by blast
  have "mailbox_inv m'" "State_lane m' l = State_lane m l" for l
    using inv by (subst m'(2), simp)+
  then show ?thesis
    using m'(1)
    by (intro rejected [of m' "group_error \<lparr> tse_item = owner, tse_lane = lane, tse_failure = f \<rparr>"])
      (simp_all add: port_publish_def group_error_def lane_conserved_def)
qed

text \<open>A step of a send.\<close>

lemma shard_of_set [simp]:
  "length (gi_shards (set_shard i f g)) = length (gi_shards g)" "gi_sends (set_shard i f g) = gi_sends g"
  "gi_closes (set_shard i f g) = gi_closes g" "gi_open (set_shard i f g) = gi_open g"
  by (simp_all add: set_shard_def)

lemma set_shard_as_update: "set_shard i f g = g \<lparr> gi_shards := (gi_shards g)[i := f (gi_shards g ! i)] \<rparr>"
  by (simp add: set_shard_def)

lemma send_step_ok:
  assumes inv: "ingress_inv senders g" and t: "t < length (gi_sends g)" and step: "send_step g t backend = Some g'"
  shows "ingress_inv senders g'"
proof -
  obtain r pc where x: "gi_sends g ! t = (r, pc)"
    by (cases "gi_sends g ! t")
  have n: "length (gi_shards g) = length senders"
    and shards: "\<And>i. i < length senders \<Longrightarrow> shard_ok (senders ! i) (gi_shards g ! i)"
    and send: "send_ok (gi_shards g) t (r, pc)"
    using inv t x by (auto simp: ingress_inv_def)
  show ?thesis
  proof (cases pc)
    case SendRoute
    have "ingress_inv senders (set_send t
        (case port_route (gi_open g) (length (gi_shards g)) (sr_reactor r) of
           Inl failure \<Rightarrow> SendDone (refused r failure) | Inr i \<Rightarrow> SendLock i) (g \<lparr> gi_shards := gi_shards g \<rparr>))"
      using shards send x SendRoute
      by (intro ingress_inv_send [OF inv t])
        (auto simp: send_ok_def refused_def port_route_def ReactorId_position_def split: if_splits)
    then show ?thesis
      using step x SendRoute by (simp add: send_step_def)
  next
    case (SendLock i)
    have "ingress_inv senders (set_send t (SendRecheck i)
        (g \<lparr> gi_shards := (gi_shards g)[i := (gi_shards g ! i) \<lparr> gs_lock := Some (BySend t) \<rparr>] \<rparr>))"
      if "gs_lock (gi_shards g ! i) = None"
      using shards send x SendLock that n
      by (intro ingress_inv_send [OF inv t]) (auto simp: send_ok_def nth_list_update)
    then show ?thesis
      using step x SendLock by (simp add: send_step_def set_shard_as_update split: if_splits)
  next
    case (SendRecheck i)
    have "ingress_inv senders (set_send t (if gi_open g then SendPublish i else SendUnlock i (refused r GroupClosed))
        (g \<lparr> gi_shards := gi_shards g \<rparr>))"
      using shards send x SendRecheck by (intro ingress_inv_send [OF inv t]) (auto simp: send_ok_def refused_def split: if_splits)
    then show ?thesis
      using step x SendRecheck by (simp add: send_step_def)
  next
    case (SendPublish i)
    let ?s = "gi_shards g ! i"
    have i: "i < length senders" "unat (sr_reactor r) = i" "gs_lock ?s = Some (BySend t)"
      using send SendPublish n by (auto simp: send_ok_def)
    have m: "mailbox_inv (gs_ingress ?s)"
      "lane_conserved (senders ! i) (gs_ingress ?s) (map snd (gs_admitted ?s)) (gs_delivered ?s)"
      using shards [OF i(1)] by (simp_all add: shard_ok_def)
    from m(1) show ?thesis
    proof (cases rule: port_publish_cases [where lane = "sr_lane r" and owner = "sr_owner r"
        and size_of = "sr_size r (gs_ingress ?s)" and materialize = "sr_materialize r" and backend = backend])
      case (accepted m')
      have "shard_ok (senders ! i) (?s \<lparr> gs_ingress := m', gs_admitted := gs_admitted ?s @
          [(t, sr_lane r, sr_materialize r (sr_owner r))] \<rparr>)"
        using accepted(2) lane_conserved_trans [OF m(2) accepted(3)] by (simp add: shard_ok_def)
      then have "ingress_inv senders (set_send t (SendUnlock i (Inr ())) (g \<lparr> gi_shards := (gi_shards g)[i :=
          ?s \<lparr> gs_ingress := m', gs_admitted := gs_admitted ?s @ [(t, sr_lane r, sr_materialize r (sr_owner r))] \<rparr>] \<rparr>))"
        using shards send x SendPublish n i
        by (intro ingress_inv_send [OF inv t]) (auto simp: send_ok_def nth_list_update admitted_by_def)
      then show ?thesis
        using step x SendPublish accepted(1) by (simp add: send_step_def set_shard_as_update)
    next
      case (rejected m' e)
      have "shard_ok (senders ! i) (?s \<lparr> gs_ingress := m' \<rparr>)"
        using rejected(4) lane_conserved_trans [OF m(2) rejected(5)] by (simp add: shard_ok_def)
      then have "ingress_inv senders (set_send t (SendUnlock i (Inl e)) (g \<lparr> gi_shards := (gi_shards g)[i :=
          ?s \<lparr> gs_ingress := m', gs_admitted := gs_admitted ?s \<rparr>] \<rparr>))"
        using shards send x SendPublish n i rejected(2,3)
        by (intro ingress_inv_send [OF inv t]) (auto simp: send_ok_def nth_list_update admitted_by_def)
      then show ?thesis
        using step x SendPublish rejected(1) by (simp add: send_step_def set_shard_as_update)
    qed
  next
    case (SendUnlock i result)
    have "ingress_inv senders (set_send t (SendDone result)
        (g \<lparr> gi_shards := (gi_shards g)[i := (gi_shards g ! i) \<lparr> gs_lock := None \<rparr>] \<rparr>))"
      using shards send x SendUnlock n
      by (intro ingress_inv_send [OF inv t]) (auto simp: send_ok_def nth_list_update)
    then show ?thesis
      using step x SendUnlock by (simp add: send_step_def set_shard_as_update)
  qed (use step x in \<open>simp add: send_step_def\<close>)
qed

lemma close_step_ok:
  assumes inv: "ingress_inv senders g" and c: "c < length (gi_closes g)" and step: "close_step g c = Some g'"
  shows "ingress_inv senders g'"
proof -
  have n: "length (gi_shards g) = length senders" and ok: "close_ok g c (gi_closes g ! c)"
    using inv c by (simp_all add: ingress_inv_def)
  have same: "s = s \<lparr> gs_lock := gs_lock s \<rparr>" for s :: "'a shard"
    by simp
  show ?thesis
  proof (cases "gi_closes g ! c")
    case CloseStore
    have "ingress_inv senders (set_close c (CloseLock 0) (g \<lparr> gi_open := False, gi_shards := gi_shards g \<rparr>))"
      by (intro ingress_inv_close [OF inv c]) (simp_all add: close_ok_def fenced_def)
    then show ?thesis
      using step CloseStore by (simp add: close_step_def)
  next
    case (CloseLock k)
    show ?thesis
    proof (cases "length (gi_shards g) \<le> k")
      case True
      have "ingress_inv senders (set_close c CloseDone (g \<lparr> gi_open := gi_open g, gi_shards := gi_shards g \<rparr>))"
        using ok CloseLock True by (intro ingress_inv_close [OF inv c]) (auto simp: close_ok_def fenced_def)
      then show ?thesis
        using step CloseLock True by (simp add: close_step_def)
    next
      case False
      then have "gs_lock (gi_shards g ! k) = None"
        using step CloseLock by (simp add: close_step_def split: if_splits)
      then have "ingress_inv senders (set_close c (CloseUnlock k) (g \<lparr> gi_open := gi_open g,
          gi_shards := (gi_shards g)[k := (gi_shards g ! k) \<lparr> gs_lock := Some (ByClose c) \<rparr>] \<rparr>))"
        using ok CloseLock False n
        by (intro ingress_inv_close [OF inv c]) (auto simp: close_ok_def fenced_def nth_list_update)
      then show ?thesis
        using step CloseLock False by (simp add: close_step_def set_shard_as_update split: if_splits)
    qed
  next
    case (CloseUnlock k)
    have k: "k < length senders" "gs_lock (gi_shards g ! k) = Some (ByClose c)" "fenced g k"
      using ok CloseUnlock n by (auto simp: close_ok_def)
    have "snd x \<noteq> SendPublish k" if member: "x \<in> set (gi_sends g)" for x
    proof
      assume x: "snd x = SendPublish k"
      obtain t where t: "t < length (gi_sends g)" "gi_sends g ! t = x"
        using member by (auto simp: in_set_conv_nth)
      have "send_ok (gi_shards g) t (gi_sends g ! t)"
        using inv t(1) by (simp add: ingress_inv_def)
      then show False
        using k(2) t(2) x by (cases x) (simp add: send_ok_def)
    qed
    then have "fenced g (Suc k)"
      using k(3) by (auto simp: fenced_def less_Suc_eq)
    then have "ingress_inv senders (set_close c (CloseLock (Suc k)) (g \<lparr> gi_open := gi_open g,
        gi_shards := (gi_shards g)[k := (gi_shards g ! k) \<lparr> gs_lock := None \<rparr>] \<rparr>))"
      using k n by (intro ingress_inv_close [OF inv c]) (auto simp: close_ok_def fenced_def nth_list_update)
    then show ?thesis
      using step CloseUnlock by (simp add: close_step_def set_shard_as_update)
  qed (use step in \<open>simp add: close_step_def\<close>)
qed

text \<open>A receiver, a new send, a new close.\<close>

lemma receive_ok:
  assumes inv: "ingress_inv senders g" and i: "i < length (gi_shards g)" and op: "receiver_op op"
  obtains ingress delivered where "mailbox_step (gs_ingress (gi_shards g ! i)) op = Ret (ingress, [], delivered)"
    "ingress_inv senders (set_shard i (\<lambda>s. s \<lparr> gs_ingress := ingress, gs_delivered := gs_delivered s @ delivered \<rparr>) g)"
proof -
  let ?s = "gi_shards g ! i"
  have n: "length (gi_shards g) = length senders"
    using inv by (simp add: ingress_inv_def)
  have s: "mailbox_inv (gs_ingress ?s)"
    "lane_conserved (senders ! i) (gs_ingress ?s) (map snd (gs_admitted ?s)) (gs_delivered ?s)"
    using inv i n by (auto simp: ingress_inv_def shard_ok_def)
  obtain m acc del where m: "mailbox_step (gs_ingress ?s) op = Ret (m, acc, del)" "mailbox_inv m"
    "lane_conserved (gs_ingress ?s) m acc del"
    using mailbox_step_ok [OF s(1), of op] op
    by (cases "mailbox_step (gs_ingress ?s) op") (auto simp: receiver_op_def)
  have acc: "acc = []"
    using m(1) op by (auto simp: mailbox_step_def receiver_op_def and_then_Ret_iff split: mailbox_op.splits)
  let ?s' = "?s \<lparr> gs_ingress := m, gs_delivered := gs_delivered ?s @ del \<rparr>"
  have s': "shard_ok (senders ! i) ?s'"
    using m(2) lane_conserved_trans [OF s(2) m(3)] acc by (simp add: shard_ok_def)
  have locks: "gs_lock ((gi_shards g)[i := ?s'] ! j) = gs_lock (gi_shards g ! j)"
    "admitted_by u ((gi_shards g)[i := ?s'] ! j) = admitted_by u (gi_shards g ! j)" if "j < length (gi_shards g)" for j u
    using that by (cases "j = i"; simp)+
  have "send_ok ((gi_shards g)[i := ?s']) t (gi_sends g ! t)" if "t < length (gi_sends g)" for t
    by (rule send_ok_other [of "gi_shards g"]) (use inv that locks in \<open>simp_all add: ingress_inv_def\<close>)
  moreover have "shard_ok (senders ! j) ((gi_shards g)[i := ?s'] ! j)" if "j < length senders" for j
    using inv that s' n by (cases "j = i") (auto simp: ingress_inv_def)
  moreover have "close_ok (g \<lparr> gi_shards := (gi_shards g)[i := ?s'] \<rparr>) c pc" if "close_ok g c pc" for c pc
    using that locks(1) by (auto simp: close_ok_def fenced_def split: close_pc.splits)
  ultimately have "ingress_inv senders (g \<lparr> gi_shards := (gi_shards g)[i := ?s'] \<rparr>)"
    using inv locks(2) n by (simp add: ingress_inv_def)
  then show ?thesis
    using m(1) acc that by (simp add: set_shard_as_update)
qed

lemma begin_send_ok:
  assumes inv: "ingress_inv senders g"
  shows "ingress_inv senders (g \<lparr> gi_sends := gi_sends g @ [(r, SendRoute)] \<rparr>)"
proof -
  have "send_ok (gi_shards g) (length (gi_sends g)) (r, SendRoute)"
    using inv by (simp add: ingress_inv_def send_ok_def)
  then have "send_ok (gi_shards g) t ((gi_sends g @ [(r, SendRoute)]) ! t)" if "t < Suc (length (gi_sends g))" for t
    using inv that by (cases "t = length (gi_sends g)") (auto simp: ingress_inv_def nth_append)
  moreover have "close_ok (g \<lparr> gi_sends := gi_sends g @ [(r, SendRoute)] \<rparr>) c pc = close_ok g c pc" for c pc
    by (cases pc) (simp_all add: close_ok_def fenced_def)
  ultimately show ?thesis
    using inv by (simp add: ingress_inv_def)
qed

lemma begin_close_ok:
  assumes inv: "ingress_inv senders g"
  shows "ingress_inv senders (g \<lparr> gi_closes := gi_closes g @ [CloseStore] \<rparr>)"
proof -
  have "close_ok (g \<lparr> gi_closes := closes \<rparr>) c pc = close_ok g c pc" for c pc closes
    by (cases pc) (simp_all add: close_ok_def fenced_def)
  moreover have "close_ok g c ((gi_closes g @ [CloseStore]) ! c)" if "c < Suc (length (gi_closes g))" for c
    using inv that by (cases "c = length (gi_closes g)") (auto simp: ingress_inv_def close_ok_def nth_append)
  ultimately show ?thesis
    using inv by (simp add: ingress_inv_def)
qed

lemma ingress_step_ok:
  assumes inv: "ingress_inv senders g" and step: "ingress_step g op = Some r"
  shows "\<exists>g'. r = Ret g' \<and> ingress_inv senders g'"
proof (cases op)
  case (BeginSend request)
  then show ?thesis
    using step begin_send_ok [OF inv] by (auto simp: ingress_step_def)
next
  case BeginClose
  then show ?thesis
    using step begin_close_ok [OF inv] by (auto simp: ingress_step_def)
next
  case (SendStep t backend)
  then show ?thesis
    using step send_step_ok [OF inv, of t backend] by (auto simp: ingress_step_def split: if_splits)
next
  case (CloseStep c)
  then show ?thesis
    using step close_step_ok [OF inv, of c] by (auto simp: ingress_step_def split: if_splits)
next
  case (Receive i mop)
  then have op: "i < length (gi_shards g)" "receiver_op mop"
    using step by (auto simp: ingress_step_def split: if_splits)
  obtain m del where "mailbox_step (gs_ingress (gi_shards g ! i)) mop = Ret (m, [], del)"
    "ingress_inv senders (set_shard i (\<lambda>s. s \<lparr> gs_ingress := m, gs_delivered := gs_delivered s @ del \<rparr>) g)"
    by (rule receive_ok [OF inv op])
  then show ?thesis
    using step Receive op by (simp add: ingress_step_def) blast
qed

lemma ingress_inv_new:
  assumes "bounded_ingress senders = Ret g" "\<forall>m\<in>set senders. mailbox_inv m"
  shows "ingress_inv senders g"
proof -
  have "g = \<lparr> gi_open = True, gi_shards = map Shard_new senders, gi_sends = [], gi_closes = [] \<rparr>"
    using assms(1) by (auto simp: bounded_ingress_def split: if_splits)
  then show ?thesis
    using assms(2)
    by (simp add: ingress_inv_def Shard_new_def shard_ok_def admitted_by_def lane_conserved_def)
qed

lemma ingress_reachable_inv:
  "ingress_reachable senders g \<Longrightarrow> \<forall>m\<in>set senders. mailbox_inv m \<Longrightarrow> ingress_inv senders g"
proof (induction rule: ingress_reachable.induct)
  case (step g op g')
  then show ?case
    using ingress_step_ok [of senders g op "Ret g'"] by auto
qed (rule ingress_inv_new)
section \<open>The fence\<close>

lemma admitted_set_shard:
  "(\<And>s. gs_admitted (f s) = gs_admitted s) \<Longrightarrow> map gs_admitted (gi_shards (set_shard i f g)) = map gs_admitted (gi_shards g)"
  by (cases "i < length (gi_shards g)") (simp_all add: set_shard_def map_update list_update_same_conv list_update_beyond)

lemma set_thread_simps [simp]:
  "gi_shards (set_send t pc g) = gi_shards g" "gi_shards (set_close c cpc g) = gi_shards g"
  "gi_closes (set_send t pc g) = gi_closes g" "gi_closes (set_close c cpc g) = (gi_closes g)[c := cpc]"
  by (simp_all add: set_send_def set_close_def)

lemma closed_stays:
  assumes "ingress_step g op = Some (Ret g')" "CloseDone \<in> set (gi_closes g)"
  shows "CloseDone \<in> set (gi_closes g')"
proof (cases op)
  case (CloseStep c)
  obtain d where d: "d < length (gi_closes g)" "gi_closes g ! d = CloseDone"
    using assms(2) by (auto simp: in_set_conv_nth)
  obtain pc where "gi_closes g' = (gi_closes g)[c := pc]" "gi_closes g ! c \<noteq> CloseDone"
    using assms(1) CloseStep by (auto simp: ingress_step_def close_step_def split: if_splits close_pc.splits)
  then show ?thesis
    using d by (metis length_list_update nth_list_update_neq nth_mem)
qed (use assms in \<open>auto simp: ingress_step_def send_step_def Let_def and_then_Ret_iff
    split: if_splits prod.splits send_pc.splits\<close>)

lemma nothing_admitted:
  assumes "ingress_step g op = Some (Ret g')" "\<And>t i. t < length (gi_sends g) \<Longrightarrow> snd (gi_sends g ! t) \<noteq> SendPublish i"
  shows "map gs_admitted (gi_shards g') = map gs_admitted (gi_shards g)"
proof (cases op)
  case (SendStep t backend)
  then show ?thesis
    using assms(1) assms(2) [of t]
    by (auto simp: ingress_step_def send_step_def admitted_set_shard split: if_splits prod.splits send_pc.splits)
next
  case (CloseStep c)
  then show ?thesis
    using assms(1) by (auto simp: ingress_step_def close_step_def admitted_set_shard split: if_splits close_pc.splits)
next
  case (Receive i mop)
  then show ?thesis
    using assms(1) by (auto simp: ingress_step_def and_then_Ret_iff admitted_set_shard split: if_splits)
qed (use assms(1) in \<open>auto simp: ingress_step_def\<close>)

text \<open>
  C9. Closing a reactor group is a fence, and routing loses nothing, for any number of senders and
  closers in any interleaving, with receivers draining meanwhile. No step panics. Once some close
  has returned the group is closed, and from then on nothing is admitted to any mailbox. Every
  shard's mailbox keeps its invariant, and each of its lanes is a queue of what was admitted to
  this shard. A send that failed hands its item back with its lane and admitted nothing anywhere; a
  send that succeeded admitted its item exactly once, to the lane and the reactor it named. At most
  one send is between the lock and the unlock of a shard.
\<close>

theorem group_close_fences:
  assumes "ingress_reachable senders g" "\<forall>m\<in>set senders. mailbox_inv m"
  shows "ingress_step g op \<noteq> Some Panic \<and>
         (CloseDone \<in> set (gi_closes g) \<longrightarrow> \<not> gi_open g \<and>
            (\<forall>g'. ingress_step g op = Some (Ret g') \<longrightarrow>
               CloseDone \<in> set (gi_closes g') \<and> map gs_admitted (gi_shards g') = map gs_admitted (gi_shards g))) \<and>
         (\<forall>i<length senders. mailbox_inv (gs_ingress (gi_shards g ! i)) \<and>
            (\<forall>lane. lane_items (State_lane (senders ! i) lane) @ of_lane lane (map snd (gs_admitted (gi_shards g ! i))) =
               of_lane lane (gs_delivered (gi_shards g ! i)) @
               lane_items (State_lane (gs_ingress (gi_shards g ! i)) lane))) \<and>
         (\<forall>t<length (gi_sends g). let (r, pc) = gi_sends g ! t in
            (\<forall>e. send_result pc = Some (Inl e) \<longrightarrow> gse_item e = sr_owner r \<and> gse_lane e = sr_lane r) \<and>
            (\<forall>i<length senders. admitted_by t (gi_shards g ! i) =
               (if send_succeeded pc \<and> unat (sr_reactor r) = i
                then [(sr_lane r, sr_materialize r (sr_owner r))] else []))) \<and>
         (\<forall>t<length (gi_sends g). \<forall>u<length (gi_sends g). \<forall>i.
            send_inside (snd (gi_sends g ! t)) = Some i \<longrightarrow> send_inside (snd (gi_sends g ! u)) = Some i \<longrightarrow> t = u)"
proof -
  have inv: "ingress_inv senders g"
    using assms by (rule ingress_reachable_inv)
  have n: "length (gi_shards g) = length senders"
    and sends: "\<And>t. t < length (gi_sends g) \<Longrightarrow> send_ok (gi_shards g) t (gi_sends g ! t)"
    using inv by (simp_all add: ingress_inv_def)
  have "ingress_step g op \<noteq> Some Panic"
    using ingress_step_ok [OF inv, of op Panic] by auto
  moreover have "\<not> gi_open g \<and> (\<forall>g'. ingress_step g op = Some (Ret g') \<longrightarrow>
      CloseDone \<in> set (gi_closes g') \<and> map gs_admitted (gi_shards g') = map gs_admitted (gi_shards g))"
    if closed: "CloseDone \<in> set (gi_closes g)"
  proof -
    have f: "fenced g (length (gi_shards g))"
      using closed inv by (force simp: in_set_conv_nth ingress_inv_def close_ok_def)
    have quiet: "snd (gi_sends g ! t) \<noteq> SendPublish i" if t: "t < length (gi_sends g)" for t i
    proof
      assume p: "snd (gi_sends g ! t) = SendPublish i"
      then have "i < length (gi_shards g)"
        using sends [OF t] by (cases "gi_sends g ! t") (simp add: send_ok_def)
      then show False
        using f t p by (auto simp: fenced_def)
    qed
    then show ?thesis
      using f closed_stays [OF _ closed] nothing_admitted [OF _ quiet] by (auto simp: fenced_def)
  qed
  moreover have "\<forall>i<length senders. mailbox_inv (gs_ingress (gi_shards g ! i)) \<and>
      (\<forall>lane. lane_items (State_lane (senders ! i) lane) @ of_lane lane (map snd (gs_admitted (gi_shards g ! i))) =
         of_lane lane (gs_delivered (gi_shards g ! i)) @ lane_items (State_lane (gs_ingress (gi_shards g ! i)) lane))"
    using inv by (simp add: ingress_inv_def shard_ok_def lane_conserved_def)
  moreover have "\<forall>t<length (gi_sends g). let (r, pc) = gi_sends g ! t in
      (\<forall>e. send_result pc = Some (Inl e) \<longrightarrow> gse_item e = sr_owner r \<and> gse_lane e = sr_lane r) \<and>
      (\<forall>i<length senders. admitted_by t (gi_shards g ! i) =
         (if send_succeeded pc \<and> unat (sr_reactor r) = i
          then [(sr_lane r, sr_materialize r (sr_owner r))] else []))"
  proof (intro allI impI)
    fix t
    assume "t < length (gi_sends g)"
    then show "let (r, pc) = gi_sends g ! t in
      (\<forall>e. send_result pc = Some (Inl e) \<longrightarrow> gse_item e = sr_owner r \<and> gse_lane e = sr_lane r) \<and>
      (\<forall>i<length senders. admitted_by t (gi_shards g ! i) =
         (if send_succeeded pc \<and> unat (sr_reactor r) = i
          then [(sr_lane r, sr_materialize r (sr_owner r))] else []))"
      using sends [of t] n by (cases "gi_sends g ! t") (simp add: send_ok_def)
  qed
  moreover have "t = u" if "t < length (gi_sends g)" "u < length (gi_sends g)"
    "send_inside (snd (gi_sends g ! t)) = Some i" "send_inside (snd (gi_sends g ! u)) = Some i" for t u i
    using sends [OF that(1)] sends [OF that(2)] that(3,4)
    by (cases "gi_sends g ! t"; cases "gi_sends g ! u") (simp add: send_ok_def)
  ultimately show ?thesis
    by blast
qed
text \<open>
  Two reactors: a send holds the lock of the second shard when a close begins, gets its item in
  before the fence reaches that shard, and a send begun after the close is refused.
\<close>

definition run_ingress ::
  "('a, 'u, 'w) ingress \<Rightarrow> ('a, 'u, 'w) ingress_op list \<Rightarrow> ('a, 'u, 'w) ingress option" where
  "run_ingress g ops =
     fold (\<lambda>op g. case g of None \<Rightarrow> None
       | Some g \<Rightarrow> (case ingress_step g op of Some (Ret g') \<Rightarrow> Some g' | _ \<Rightarrow> None)) ops (Some g)"

lemma run_ingress_reachable:
  "ingress_reachable senders g \<Longrightarrow> run_ingress g ops = Some g' \<Longrightarrow> ingress_reachable senders g'"
proof (induction ops arbitrary: g)
  case (Cons op ops)
  have none: "fold (\<lambda>op g. case g of None \<Rightarrow> None
       | Some g \<Rightarrow> (case ingress_step g op of Some (Ret g') \<Rightarrow> Some g' | _ \<Rightarrow> None)) ops None = None"
    by (induction ops) simp_all
  obtain h where "ingress_step g op = Some (Ret h)" "run_ingress h ops = Some g'"
    using Cons.prems(2) none by (auto simp: run_ingress_def split: option.splits run.splits)
  then show ?case
    using Cons.IH [OF ingress_reachable.step [OF Cons.prems(1)]] by blast
qed (simp add: run_ingress_def)

definition demo_senders :: "nat mailbox list" where
  "demo_senders = [mailbox_with mailbox_limits_demo of_nat False, mailbox_with mailbox_limits_demo of_nat False]"

definition demo_request :: "nat \<Rightarrow> (nat, nat) send_request" where
  "demo_request x =
     \<lparr> sr_reactor = 1, sr_lane = Work, sr_owner = x, sr_size = (\<lambda>m. mb_measure m), sr_materialize = (\<lambda>x. x) \<rparr>"

definition ingress_demo :: "(nat, nat, unit) ingress_op list" where
  "ingress_demo =
     [BeginSend (demo_request 3), SendStep 0 (Inr ()), SendStep 0 (Inr ()), SendStep 0 (Inr ()), BeginClose,
      CloseStep 0, CloseStep 0, CloseStep 0, SendStep 0 (Inr ()), SendStep 0 (Inr ()), BeginSend (demo_request 4),
      SendStep 1 (Inr ()), CloseStep 0, CloseStep 0, CloseStep 0, Receive 1 (MailboxDrain 2)]"

definition ingress_demo_start :: "(nat, nat, unit) ingress" where
  "ingress_demo_start = \<lparr> gi_open = True, gi_shards = map Shard_new demo_senders, gi_sends = [], gi_closes = [] \<rparr>"

lemma ingress_demo_run:
  "case run_ingress ingress_demo_start ingress_demo of None \<Rightarrow> False
   | Some g \<Rightarrow> gi_closes g = [CloseDone] \<and> length (gi_sends g) = 2 \<and> length (gi_shards g) = 2 \<and>
       snd (gi_sends g ! 0) = SendDone (Inr ()) \<and> gs_delivered (gi_shards g ! 1) = [(Work, 3)]"
  by code_simp

theorem group_close_fences_witness:
  "\<exists>g. run_ingress ingress_demo_start ingress_demo = Some g \<and> \<not> gi_open g \<and>
     gs_delivered (gi_shards g ! 1) = [(Work, 3)] \<and> mailbox_inv (gs_ingress (gi_shards g ! 1)) \<and>
     ingress_step g (Receive 1 MailboxClose) \<noteq> Some Panic"
proof -
  have senders: "\<forall>m\<in>set demo_senders. mailbox_inv m" "length demo_senders = 2"
    by (simp_all add: demo_senders_def mailbox_inv_new)
  have "bounded_ingress demo_senders = Ret ingress_demo_start"
    by (simp add: bounded_ingress_def ingress_demo_start_def demo_senders_def)
  note reachable = run_ingress_reachable [OF ingress_reachable.start [OF this]]
  obtain g where g: "run_ingress ingress_demo_start ingress_demo = Some g" "gi_closes g = [CloseDone]"
    "gs_delivered (gi_shards g ! 1) = [(Work, 3)]"
    using ingress_demo_run by (auto split: option.splits)
  note promise = group_close_fences [OF reachable [OF g(1)] senders(1), of "Receive 1 MailboxClose"]
  have "\<not> gi_open g" "mailbox_inv (gs_ingress (gi_shards g ! 1))" "ingress_step g (Receive 1 MailboxClose) \<noteq> Some Panic"
    using promise g(2) senders(2) by simp_all
  then show ?thesis
    using g by blast
qed

end
