(* ===== verification/Group_Spawn.thy ===== *)
theory Group_Spawn
  imports Reactor Group_Ingress Search
begin

text \<open>
  Starting a reactor group (\<open>reactor/group/\<close>: \<open>member\<close>, \<open>gate\<close>, \<open>spawn\<close>, \<open>spawn_error\<close>, and the
  starting of threads in \<open>worker\<close> and \<open>supervisor\<close>). The operating system's answer to each thread
  creation is an argument. The reactors wait in slots and every worker waits at the gate until the
  supervisor exists, so a failure can be undone: the workers leave through the gate, the slots and
  the mailbox senders are taken back, and the members are rebuilt.

  A worker, the group control and the port each hold the shared ingress; its owners are counted,
  because taking the senders out of it panics while anybody else holds it.
\<close>

section \<open>Members\<close>

record ('r, 'a) group_member =
  gm_id :: reactor_id
  gm_reactor :: 'r
  gm_ingress :: "'a mailbox"

text \<open>The factory gets the receiver, a handle on the same mailbox, and moves it into the reactor.\<close>

definition ReactorGroupMember_with_mailbox_measure ::
  "reactor_id \<Rightarrow> mailbox_limits \<Rightarrow> ('a \<Rightarrow> retained_bytes) \<Rightarrow> bool \<Rightarrow> (reactor_id \<Rightarrow> 'r) \<Rightarrow> ('r, 'a) group_member" where
  "ReactorGroupMember_with_mailbox_measure identity limits size_of requested reactor =
     \<lparr> gm_id = identity, gm_reactor = reactor identity, gm_ingress = mailbox_with limits size_of requested \<rparr>"

text \<open>\<open>retained_bytes\<close> is the item type's \<open>Retained::retained_bytes\<close>.\<close>

definition ReactorGroupMember_with_mailbox ::
  "reactor_id \<Rightarrow> mailbox_limits \<Rightarrow> ('a \<Rightarrow> retained_bytes) \<Rightarrow> bool \<Rightarrow> (reactor_id \<Rightarrow> 'r) \<Rightarrow> ('r, 'a) group_member" where
  "ReactorGroupMember_with_mailbox identity limits retained_bytes requested reactor =
     \<lparr> gm_id = identity, gm_reactor = reactor identity, gm_ingress = mailbox_with limits retained_bytes requested \<rparr>"

definition ReactorGroupMember_from_parts :: "reactor_id \<Rightarrow> 'r \<Rightarrow> 'a mailbox \<Rightarrow> ('r, 'a) group_member" where
  "ReactorGroupMember_from_parts identity reactor ingress = \<lparr> gm_id = identity, gm_reactor = reactor, gm_ingress = ingress \<rparr>"

definition ReactorGroupMember_into_parts :: "('r, 'a) group_member \<Rightarrow> reactor_id \<times> 'r \<times> 'a mailbox" where
  "ReactorGroupMember_into_parts self = (gm_id self, gm_reactor self, gm_ingress self)"

section \<open>Failures\<close>

datatype 'i group_spawn_failure =
  GroupEmpty
| GroupCapacity usize nat
| GroupIdentity reactor_id reactor_id
| GroupReactorThread reactor_id "'i spawn_source"
| GroupSupervisorThread "'i spawn_source"

record ('i, 'r, 'a) group_spawn_error =
  gpe_failure :: "'i group_spawn_failure"
  gpe_members :: "('r, 'a) group_member list"

section \<open>Validation\<close>

fun validate_identities :: "nat \<Rightarrow> ('r, 'a) group_member list \<Rightarrow> 'i group_spawn_failure option run" where
  "validate_identities position [] = Ret None"
| "validate_identities position (member # members) =
     and_then (ReactorId_from_position position) (\<lambda>expected.
       if gm_id member \<noteq> expected then Ret (Some (GroupIdentity expected (gm_id member)))
       else validate_identities (Suc position) members)"

definition group_validate ::
  "reactor_group_limits \<Rightarrow> ('r, 'a) group_member list \<Rightarrow> 'i group_spawn_failure option run" where
  "group_validate limits members =
     (let actual = length members in
      if actual = 0 then Ret (Some GroupEmpty)
      else if unat (rgl_reactors limits) < actual then Ret (Some (GroupCapacity (rgl_reactors limits) actual))
      else validate_identities 0 members)"

section \<open>The gate\<close>

datatype start_decision = DecideStart | DecideAbort

definition StartGate_new :: "start_decision option" where
  "StartGate_new = None"

text \<open>The first decision stands.\<close>

definition StartGate_decide :: "start_decision option \<Rightarrow> start_decision \<Rightarrow> start_decision option" where
  "StartGate_decide decision selected = (case decision of None \<Rightarrow> Some selected | Some d \<Rightarrow> Some d)"

definition StartGate_start :: "start_decision option \<Rightarrow> start_decision option" where
  "StartGate_start decision = StartGate_decide decision DecideStart"

definition StartGate_abort :: "start_decision option \<Rightarrow> start_decision option" where
  "StartGate_abort decision = StartGate_decide decision DecideAbort"

text \<open>\<open>None\<close>: the wait blocks.\<close>

definition StartGate_wait :: "start_decision option \<Rightarrow> start_decision option" where
  "StartGate_wait decision = decision"

section \<open>Spawning\<close>

fun decimal_digits :: "nat \<Rightarrow> u8 list" where
  "decimal_digits n = (if n < 10 then [of_nat (48 + n)] else decimal_digits (n div 10) @ [of_nat (48 + n mod 10)])"

declare decimal_digits.simps [simp del]

text \<open>The names \<open>{name}-{index}\<close> and \<open>{name}-supervisor\<close>, as bytes.\<close>

definition worker_name :: "u8 list \<Rightarrow> nat \<Rightarrow> u8 list" where
  "worker_name name index = name @ [45] @ decimal_digits index"

definition supervisor_name :: "u8 list \<Rightarrow> u8 list" where
  "supervisor_name name = name @ [45, 115, 117, 112, 101, 114, 118, 105, 115, 111, 114]"

definition group_spawn_thread :: "u8 list \<Rightarrow> 'i + unit \<Rightarrow> 'i spawn_source + unit" where
  "group_spawn_thread name answer =
     (if 0 \<in> set name then Inl InvalidThreadName
      else case answer of Inl source \<Rightarrow> Inl (ThreadCreation source) | Inr _ \<Rightarrow> Inr ())"

text \<open>A group that is being started; \<open>gp_owners\<close> counts the holders of the shared ingress.\<close>

record ('r, 'a) group_pending =
  gp_slots :: "'r option list"
  gp_ingress :: "'a mailbox list"
  gp_owners :: nat
  gp_gate :: "start_decision option"
  gp_workers :: "nat list"

definition Pending_push :: "('r, 'a) group_pending \<Rightarrow> nat \<Rightarrow> ('r, 'a) group_pending" where
  "Pending_push self worker =
     self \<lparr> gp_workers := gp_workers self @ [worker], gp_owners := gp_owners self + 1 \<rparr>"

text \<open>Every slot's reactor; an empty slot panics.\<close>

fun take_slots :: "'r option list \<Rightarrow> 'r list run" where
  "take_slots [] = Ret []"
| "take_slots (slot # slots) =
     and_then (take_slot slot) (\<lambda>(_, reactor). and_then (take_slots slots) (\<lambda>reactors. Ret (reactor # reactors)))"

fun rebuild_members :: "nat \<Rightarrow> ('r \<times> 'a mailbox) list \<Rightarrow> ('r, 'a) group_member list run" where
  "rebuild_members position [] = Ret []"
| "rebuild_members position ((reactor, ingress) # rest) =
     and_then (ReactorId_from_position position) (\<lambda>identity.
       and_then (rebuild_members (Suc position) rest) (\<lambda>members.
         Ret (ReactorGroupMember_from_parts identity reactor ingress # members)))"

text \<open>
  Every worker is joined; one that did not leave through the gate as aborted panics, and a gate
  that never decided would block. The workers and then the control give up the ingress.
\<close>

definition Pending_abort ::
  "('r, 'a) group_pending \<Rightarrow> 'i group_spawn_failure \<Rightarrow> ('i, 'r, 'a) group_spawn_error run" where
  "Pending_abort self failure =
     (let gate = StartGate_abort (gp_gate self) in
      if \<not> list_all (\<lambda>_. StartGate_wait gate = Some DecideAbort) (gp_workers self) then Panic
      else let owners = gp_owners self - length (gp_workers self) - 1 in
        and_then (take_slots (gp_slots self)) (\<lambda>reactors.
          if owners \<noteq> 1 then Panic
          else and_then (rebuild_members 0 (zip reactors (gp_ingress self))) (\<lambda>members.
            Ret \<lparr> gpe_failure = failure, gpe_members = members \<rparr>)))"

text \<open>The loop over the workers: \<open>Inl\<close> is the failure of one, with what was started before it.\<close>

fun spawn_workers ::
  "u8 list \<Rightarrow> (nat \<Rightarrow> 'i + unit) \<Rightarrow> nat list \<Rightarrow> ('r, 'a) group_pending \<Rightarrow>
   (('r, 'a) group_pending \<times> 'i group_spawn_failure option) run" where
  "spawn_workers name answers [] pending = Ret (pending, None)"
| "spawn_workers name answers (index # indices) pending =
     and_then (ReactorId_from_position index) (\<lambda>identity.
       case group_spawn_thread (worker_name name index) (answers index) of
         Inr _ \<Rightarrow> spawn_workers name answers indices (Pending_push pending index)
       | Inl source \<Rightarrow> Ret (pending, Some (GroupReactorThread identity source)))"

text \<open>The started group: what the threads work on.\<close>

definition ReactorGroup_spawn ::
  "reactor_group_limits \<Rightarrow> u8 list \<Rightarrow> ('r, 'a) group_member list \<Rightarrow> (nat \<Rightarrow> 'i + unit) \<Rightarrow> 'i + unit \<Rightarrow>
   (('i, 'r, 'a) group_spawn_error + ('r, 'a) group_pending) run" where
  "ReactorGroup_spawn limits name members answers supervisor =
     and_then (group_validate limits members) (\<lambda>invalid.
       case invalid of
         Some failure \<Rightarrow> Ret (Inl \<lparr> gpe_failure = failure, gpe_members = members \<rparr>)
       | None \<Rightarrow>
           if members = [] then Panic
           else let pending =
               \<lparr> gp_slots = map (\<lambda>member. Some (gm_reactor member)) members, gp_ingress = map gm_ingress members,
                 gp_owners = 2, gp_gate = StartGate_new, gp_workers = [] \<rparr> in
             and_then (spawn_workers name answers [0..<length members] pending) (\<lambda>(pending, failed).
               case failed of
                 Some failure \<Rightarrow> and_then (Pending_abort pending failure) (\<lambda>error. Ret (Inl error))
               | None \<Rightarrow>
                   (case group_spawn_thread (supervisor_name name) supervisor of
                      Inl source \<Rightarrow>
                        and_then (Pending_abort pending (GroupSupervisorThread source)) (\<lambda>error. Ret (Inl error))
                    | Inr _ \<Rightarrow> Ret (Inr (pending \<lparr> gp_gate := StartGate_start (gp_gate pending) \<rparr>)))))"

section \<open>The outcome of spawning\<close>

lemma from_position_Ret: "n < 2 ^ 64 \<Longrightarrow> ReactorId_from_position n = Ret (of_nat n)"
  by (simp add: ReactorId_from_position_def)

text \<open>The first member whose identity is not its position.\<close>

definition first_misplaced :: "nat \<Rightarrow> ('r, 'a) group_member list \<Rightarrow> (nat \<times> ('r, 'a) group_member) option" where
  "first_misplaced position members = find (\<lambda>(i, m). gm_id m \<noteq> of_nat i) (enumerate position members)"

lemma validate_identities_first:
  "position + length members \<le> 2 ^ 64 \<Longrightarrow>
     validate_identities position members =
       Ret (map_option (\<lambda>(i, m). GroupIdentity (of_nat i) (gm_id m)) (first_misplaced position members))"
  by (induction position members rule: validate_identities.induct)
    (simp_all add: first_misplaced_def from_position_Ret)

lemma rebuild_members_placed:
  "position + length members \<le> 2 ^ 64 \<Longrightarrow> first_misplaced position members = None \<Longrightarrow>
     rebuild_members position (zip (map gm_reactor members) (map gm_ingress members)) = Ret members"
  by (induction members arbitrary: position)
    (auto simp: first_misplaced_def from_position_Ret ReactorGroupMember_from_parts_def split: if_splits)

lemma take_slots_full: "take_slots (map (\<lambda>x. Some (f x)) xs) = Ret (map f xs)"
  by (induction xs) (simp_all add: take_slot_def)

lemma abort_keeps:
  assumes "length members \<le> 2 ^ 64" "first_misplaced 0 members = None"
  shows "Pending_abort
      \<lparr> gp_slots = map (\<lambda>member. Some (gm_reactor member)) members, gp_ingress = map gm_ingress members,
        gp_owners = Suc (Suc (length workers)), gp_gate = None, gp_workers = workers \<rparr> failure =
    Ret \<lparr> gpe_failure = failure, gpe_members = members \<rparr>"
  using rebuild_members_placed [of 0 members] assms
  by (simp add: Pending_abort_def StartGate_abort_def StartGate_decide_def StartGate_wait_def take_slots_full
    list.pred_True)

text \<open>The names contain a null byte exactly if the group's name does.\<close>

lemma decimal_digits_nonzero: "0 \<notin> set (decimal_digits n)"
proof (induction n rule: decimal_digits.induct)
  case (1 n)
  have "(of_nat (48 + d) :: u8) \<noteq> 0" if "d < 10" for d
    using that nat_dvd_not_less [of "48 + d" "2 ^ 8"] by (simp only: word_of_nat_eq_0_iff) simp
  then show ?case
    using 1 by (subst decimal_digits.simps) auto
qed

lemma spawn_thread_named:
  "group_spawn_thread (worker_name name index) answer = group_spawn_thread name answer"
  "group_spawn_thread (supervisor_name name) answer = group_spawn_thread name answer"
  using decimal_digits_nonzero [of index]
  by (simp_all add: group_spawn_thread_def worker_name_def supervisor_name_def)

lemma spawn_workers_first:
  "(\<And>i. i \<in> set indices \<Longrightarrow> i < 2 ^ 64) \<Longrightarrow>
     spawn_workers name answers indices pending =
       (let started = takeWhile (\<lambda>i. group_spawn_thread name (answers i) = Inr ()) indices in
        Ret (pending \<lparr> gp_workers := gp_workers pending @ started, gp_owners := gp_owners pending + length started \<rparr>,
          map_option (\<lambda>i. GroupReactorThread (of_nat i) (projl (group_spawn_thread name (answers i))))
            (find (\<lambda>i. group_spawn_thread name (answers i) \<noteq> Inr ()) indices)))"
proof (induction indices arbitrary: pending)
  case (Cons i indices)
  then show ?case
    by (cases "group_spawn_thread name (answers i)")
      (simp_all add: spawn_thread_named from_position_Ret Pending_push_def Let_def)
qed simp

text \<open>What fails first, if anything does.\<close>

definition expected_spawn_failure ::
  "reactor_group_limits \<Rightarrow> u8 list \<Rightarrow> ('r, 'a) group_member list \<Rightarrow> (nat \<Rightarrow> 'i + unit) \<Rightarrow> 'i + unit \<Rightarrow>
   'i group_spawn_failure option" where
  "expected_spawn_failure limits name members answers supervisor =
     (if members = [] then Some GroupEmpty
      else if unat (rgl_reactors limits) < length members
      then Some (GroupCapacity (rgl_reactors limits) (length members))
      else case first_misplaced 0 members of
        Some (i, m) \<Rightarrow> Some (GroupIdentity (of_nat i) (gm_id m))
      | None \<Rightarrow>
          (case find (\<lambda>i. group_spawn_thread name (answers i) \<noteq> Inr ()) [0..<length members] of
             Some i \<Rightarrow> Some (GroupReactorThread (of_nat i) (projl (group_spawn_thread name (answers i))))
           | None \<Rightarrow>
               (case group_spawn_thread name supervisor of
                  Inl source \<Rightarrow> Some (GroupSupervisorThread source)
                | Inr _ \<Rightarrow> None)))"

text \<open>
  C10. Spawning a reactor group never panics, and never loses a member. It fails exactly when the
  topology is empty, exceeds the limit or declares a wrong identity, or when a worker's or then the
  supervisor's thread cannot be started, the first of these in that order; and then the error
  carries all the members it was given, each with its identity, reactor and mailbox, in their
  order, however many workers had been started. Otherwise every member has a worker, every reactor
  waits in its slot, and the gate has decided to start.
\<close>

theorem group_spawn_exact:
  fixes answers :: "nat \<Rightarrow> 'i + unit"
  shows "ReactorGroup_spawn limits name members answers supervisor =
     Ret (case expected_spawn_failure limits name members answers supervisor of
       Some failure \<Rightarrow> Inl \<lparr> gpe_failure = failure, gpe_members = members \<rparr>
     | None \<Rightarrow> Inr \<lparr> gp_slots = map (\<lambda>member. Some (gm_reactor member)) members, gp_ingress = map gm_ingress members,
         gp_owners = length members + 2, gp_gate = Some DecideStart, gp_workers = [0..<length members] \<rparr>)"
proof (cases "members = [] \<or> unat (rgl_reactors limits) < length members")
  case True
  then show ?thesis
    by (auto simp: ReactorGroup_spawn_def group_validate_def expected_spawn_failure_def)
next
  case False
  then have n: "length members < 2 ^ 64" "members \<noteq> []" "\<not> unat (rgl_reactors limits) < length members"
    using unat_less_exp [of "rgl_reactors limits"] by (auto simp: not_less)
  have valid: "(group_validate limits members :: 'i group_spawn_failure option run) =
      Ret (map_option (\<lambda>(i, m). GroupIdentity (of_nat i) (gm_id m)) (first_misplaced 0 members))"
    using n validate_identities_first [of 0 members] by (simp add: group_validate_def Let_def)
  show ?thesis
  proof (cases "first_misplaced 0 members")
    case (Some x)
    then show ?thesis
      using n valid by (cases x) (simp add: ReactorGroup_spawn_def expected_spawn_failure_def)
  next
    case None
    let ?pending = "\<lparr> gp_slots = map (\<lambda>member. Some (gm_reactor member)) members, gp_ingress = map gm_ingress members,
        gp_owners = 2, gp_gate = StartGate_new, gp_workers = [] \<rparr>"
    note workers = spawn_workers_first [of "[0..<length members]" name answers ?pending]
    note abort = abort_keeps [OF less_imp_le [OF n(1)] None]
    note simps = ReactorGroup_spawn_def expected_spawn_failure_def Let_def spawn_thread_named StartGate_new_def
      StartGate_start_def StartGate_decide_def
    show ?thesis
    proof (cases "find (\<lambda>i. group_spawn_thread name (answers i) \<noteq> Inr ()) [0..<length members]")
      case (Some i)
      then show ?thesis
        using n valid None workers by (simp add: abort simps)
    next
      case all: None
      then have all_started: "takeWhile (\<lambda>i. group_spawn_thread name (answers i) = Inr ()) [0..<length members] = [0..<length members]"
        by (auto simp: find_None_iff takeWhile_eq_all_conv)
      show ?thesis
        using n valid None workers [unfolded all_started Let_def all] all
        by (simp add: abort [of "[0..<length members]", simplified] simps split: sum.splits)
    qed
  qed
qed

end
