(* ===== verification/Group.thy ===== *)
theory Group
  imports Group_Spawn
begin

text \<open>
  A running reactor group (\<open>reactor/group/\<close>: \<open>worker\<close>, \<open>termination\<close>, \<open>supervisor\<close>, \<open>exit\<close>, \<open>owner\<close>):
  one worker thread a reactor, the completion channel, the supervisor that collects the exits, and
  termination requests, by callers of the group and by workers whose reactor failed. A state has the
  reactors of \<open>Reactor\<close>, each a machine of its own, and the shared ingress of \<open>Group_Ingress\<close>, so the
  steps of a group are theirs and those of the threads between their accesses to shared state.

  A thread's panic payload is not kept. Wakes are answers; no state depends on them.
\<close>

section \<open>Exits\<close>

datatype ('d, 'c, 'v, 'de, 'ce, 'we) member_exit =
  MemberExited "('d, 'c, 'v, 'de, 'ce, 'we) reactor_exit"
| MemberPanicked

datatype group_outcome =
  GroupStopped
| GroupTerminated
| GroupFailed reactor_id
| GroupPanicked reactor_id

text \<open>The classes of exits that \<open>aggregate\<close> and \<open>is_fatal\<close> match.\<close>

definition member_panicked :: "('d, 'c, 'v, 'de, 'ce, 'we) member_exit \<Rightarrow> bool" where
  "member_panicked member = (case member of MemberExited _ \<Rightarrow> False | MemberPanicked \<Rightarrow> True)"

definition member_failed :: "('d, 'c, 'v, 'de, 'ce, 'we) member_exit \<Rightarrow> bool" where
  "member_failed member =
     (case member of
        MemberExited x \<Rightarrow> (case rex_outcome x of ReactorFailed _ \<Rightarrow> True | _ \<Rightarrow> False)
      | MemberPanicked \<Rightarrow> False)"

definition member_terminated :: "('d, 'c, 'v, 'de, 'ce, 'we) member_exit \<Rightarrow> bool" where
  "member_terminated member =
     (case member of
        MemberExited x \<Rightarrow> (case rex_outcome x of ReactorTerminated \<Rightarrow> True | _ \<Rightarrow> False)
      | MemberPanicked \<Rightarrow> False)"

definition is_fatal :: "('d, 'c, 'v, 'de, 'ce, 'we) member_exit \<Rightarrow> bool" where
  "is_fatal member \<longleftrightarrow> member_failed member \<or> member_panicked member"

definition aggregate :: "('d, 'c, 'v, 'de, 'ce, 'we) member_exit list \<Rightarrow> group_outcome run" where
  "aggregate members =
     (case iter_position member_panicked members of
        Some position \<Rightarrow> and_then (ReactorId_from_position position) (\<lambda>r. Ret (GroupPanicked r))
      | None \<Rightarrow>
          (case iter_position member_failed members of
             Some position \<Rightarrow> and_then (ReactorId_from_position position) (\<lambda>r. Ret (GroupFailed r))
           | None \<Rightarrow> Ret (if list_ex member_terminated members then GroupTerminated else GroupStopped)))"

section \<open>Threads\<close>

text \<open>
  A termination request: closing the admission (the close it began), publishing to one reactor
  after the other, then the wakes, with the results so far; unwound by a backend that panics.
\<close>

datatype 'x term_pc =
  TermBegin
| TermClose nat
| TermPublish "published_termination list"
| TermWake "published_termination list" "'x reactor_termination list"
| TermDone "'x reactor_termination list"
| TermUnwound

datatype ('d, 'c, 'v, 'de, 'ce, 'we) worker_result =
  WorkerAborted
| WorkerFinished "('d, 'c, 'v, 'de, 'ce, 'we) member_exit"

text \<open>
  A worker: at the gate, running its reactor, with the exit caught, requesting the group's
  termination, publishing its completion, which is the drop of a local, and over. What joining it
  gives is \<open>None\<close> when the thread unwound.
\<close>

datatype ('d, 'c, 'v, 'de, 'ce, 'we, 'x) worker_pc =
  WorkerGate
| WorkerRunning
| WorkerCaught "('d, 'c, 'v, 'de, 'ce, 'we) member_exit"
| WorkerTerminating "('d, 'c, 'v, 'de, 'ce, 'we) member_exit" "'x term_pc"
| WorkerSending "('d, 'c, 'v, 'de, 'ce, 'we) member_exit option"
| WorkerSent "('d, 'c, 'v, 'de, 'ce, 'we) member_exit option"
| WorkerReturned "('d, 'c, 'v, 'de, 'ce, 'we) worker_result option"

text \<open>
  The supervisor: about to receive its \<open>k\<close>-th completion, joining a worker, about to close the
  admission, closing it, and returned.
\<close>

datatype ('d, 'c, 'v, 'de, 'ce, 'we) supervisor_pc =
  SupReceive nat
| SupJoin nat nat
| SupClose
| SupClosing nat
| SupDone group_outcome "('d, 'c, 'v, 'de, 'ce, 'we) member_exit list"

record ('d, 'c, 'v, 'de, 'ce, 'we, 'a, 'u, 'w, 'x) group =
  gr_ingress :: "('a, 'u, 'w) ingress"
  gr_reactors :: "('d, 'c, 'v, 'de, 'ce, 'we) reactor list"
  gr_gate :: "start_decision option"
  gr_workers :: "('d, 'c, 'v, 'de, 'ce, 'we, 'x) worker_pc list"
  gr_channel :: "reactor_id list"
  gr_supervisor :: "('d, 'c, 'v, 'de, 'ce, 'we) supervisor_pc"
  gr_handles :: "bool list"
  gr_exits :: "('d, 'c, 'v, 'de, 'ce, 'we) member_exit option list"
  gr_requests :: "'x term_pc list"

text \<open>The group when its threads exist and its gate has not decided.\<close>

definition group_created ::
  "('a, 'u, 'w) ingress \<Rightarrow> ('d, 'c, 'v, 'de, 'ce, 'we) reactor list \<Rightarrow>
   ('d, 'c, 'v, 'de, 'ce, 'we, 'a, 'u, 'w, 'x) group" where
  "group_created ingress reactors =
     \<lparr> gr_ingress = ingress, gr_reactors = reactors, gr_gate = StartGate_new,
       gr_workers = map (\<lambda>_. WorkerGate) reactors, gr_channel = [], gr_supervisor = SupReceive 0,
       gr_handles = map (\<lambda>_. True) reactors, gr_exits = map (\<lambda>_. None) reactors, gr_requests = [] \<rparr>"

section \<open>Termination\<close>

definition publish_at :: "('d, 'c, 'v, 'de, 'ce, 'we) reactor \<Rightarrow> ('d, 'c, 'v, 'de, 'ce, 'we) reactor \<times> published_termination" where
  "publish_at r =
     (let (control, published) = ReactorControl_publish_termination (rc_control r) in
      (r \<lparr> rc_control := control,
           rc_accepted := rc_accepted r + (if pt_status published = TerminationRequested then 1 else 0) \<rparr>, published))"

text \<open>
  One step of a request; \<open>None\<close> waits for the fence, or is over. The answer is the wake's, if there is
  one to make; without one the backend panics.
\<close>

fun GroupControl_request_termination ::
  "('d, 'c, 'v, 'de, 'ce, 'we, 'a, 'u, 'w, 'x) group \<Rightarrow> ('x + unit) option \<Rightarrow> 'x term_pc \<Rightarrow>
   (('d, 'c, 'v, 'de, 'ce, 'we, 'a, 'u, 'w, 'x) group \<times> 'x term_pc) option" where
  "GroupControl_request_termination g answer TermBegin =
     Some (g \<lparr> gr_ingress := (gr_ingress g) \<lparr> gi_closes := gi_closes (gr_ingress g) @ [CloseStore] \<rparr> \<rparr>,
           TermClose (length (gi_closes (gr_ingress g))))"
| "GroupControl_request_termination g answer (TermClose c) =
     (if gi_closes (gr_ingress g) ! c = CloseDone then Some (g, TermPublish []) else None)"
| "GroupControl_request_termination g answer (TermPublish published) =
     (let k = length published in
      if k < length (gr_reactors g)
      then let (r, p) = publish_at (gr_reactors g ! k) in
        Some (g \<lparr> gr_reactors := (gr_reactors g)[k := r] \<rparr>, TermPublish (published @ [p]))
      else Some (g, TermWake published []))"
| "GroupControl_request_termination g answer (TermWake [] reactors) = Some (g, TermDone reactors)"
| "GroupControl_request_termination g answer (TermWake (p # published) reactors) =
     Some (g, case answer of
       Some answer \<Rightarrow> TermWake published (reactors @ [PublishedTermination_complete p answer])
     | None \<Rightarrow> if pt_wake p then TermUnwound
         else TermWake published (reactors @ [PublishedTermination_complete p (Inr ())]))"
| "GroupControl_request_termination g answer (TermDone reactors) = None"
| "GroupControl_request_termination g answer TermUnwound = None"

section \<open>Steps\<close>

definition set_worker ::
  "nat \<Rightarrow> ('d, 'c, 'v, 'de, 'ce, 'we, 'x) worker_pc \<Rightarrow> ('d, 'c, 'v, 'de, 'ce, 'we, 'a, 'u, 'w, 'x) group \<Rightarrow>
   ('d, 'c, 'v, 'de, 'ce, 'we, 'a, 'u, 'w, 'x) group" where
  "set_worker i pc g = g \<lparr> gr_workers := (gr_workers g)[i := pc] \<rparr>"

definition worker_step ::
  "('d, 'de) duty_code \<Rightarrow> ('c, 'ce) clock_code \<Rightarrow> ('v, 'd, 'we) waiter_code \<Rightarrow>
   ('d, 'c, 'v, 'de, 'ce, 'we, 'a, 'u, 'w, 'x) group \<Rightarrow> nat \<Rightarrow> ('x + unit) option \<Rightarrow>
   ('d, 'c, 'v, 'de, 'ce, 'we, 'a, 'u, 'w, 'x) group option" where
  "worker_step dc cc wc g i answer =
     (case gr_workers g ! i of
        WorkerGate \<Rightarrow>
          (case StartGate_wait (gr_gate g) of
             None \<Rightarrow> None
           | Some DecideAbort \<Rightarrow> Some (set_worker i (WorkerReturned (Some WorkerAborted)) g)
           | Some DecideStart \<Rightarrow> Some (set_worker i WorkerRunning g))
      | WorkerRunning \<Rightarrow>
          (case rc_pc (gr_reactors g ! i) of
             RunExited x \<Rightarrow> Some (set_worker i (WorkerCaught (MemberExited x)) g)
           | RunUnwound \<Rightarrow> Some (set_worker i (WorkerCaught MemberPanicked) g)
           | _ \<Rightarrow> Some (g \<lparr> gr_reactors := (gr_reactors g)[i := owner_step dc cc wc (gr_reactors g ! i)] \<rparr>))
      | WorkerCaught x \<Rightarrow>
          Some (set_worker i (if is_fatal x then WorkerTerminating x TermBegin else WorkerSending (Some x)) g)
      | WorkerTerminating x pc \<Rightarrow>
          (case GroupControl_request_termination g answer pc of
             Some (g, pc) \<Rightarrow> Some (set_worker i (WorkerTerminating x pc) g)
           | None \<Rightarrow>
               (case pc of
                  TermDone _ \<Rightarrow> Some (set_worker i (WorkerSending (Some x)) g)
                | TermUnwound \<Rightarrow> Some (set_worker i (WorkerSending None) g)
                | _ \<Rightarrow> None))
      | WorkerSending y \<Rightarrow>
          if length (gr_channel g) < length (gr_reactors g)
          then Some (set_worker i (WorkerSent y) (g \<lparr> gr_channel := gr_channel g @ [of_nat i] \<rparr>))
          else None
      | WorkerSent y \<Rightarrow> Some (set_worker i (WorkerReturned (map_option WorkerFinished y)) g)
      | WorkerReturned _ \<Rightarrow> None)"

text \<open>A worker that published, or will never publish, holds no sender of the channel.\<close>

definition worker_disconnected :: "('d, 'c, 'v, 'de, 'ce, 'we, 'x) worker_pc \<Rightarrow> bool" where
  "worker_disconnected pc = (case pc of WorkerSent _ \<Rightarrow> True | WorkerReturned _ \<Rightarrow> True | _ \<Rightarrow> False)"

text \<open>Joining a thread that unwound is a member that panicked.\<close>

definition join_result :: "('d, 'c, 'v, 'de, 'ce, 'we) worker_result option \<Rightarrow> ('d, 'c, 'v, 'de, 'ce, 'we) worker_result" where
  "join_result result = (case result of Some result \<Rightarrow> result | None \<Rightarrow> WorkerFinished MemberPanicked)"

definition supervise_members ::
  "('d, 'c, 'v, 'de, 'ce, 'we) member_exit option list \<Rightarrow> ('d, 'c, 'v, 'de, 'ce, 'we) member_exit list run" where
  "supervise_members exits = (if None \<in> set exits then Panic else Ret (map the exits))"

definition supervise ::
  "('d, 'c, 'v, 'de, 'ce, 'we, 'a, 'u, 'w, 'x) group \<Rightarrow>
   ('d, 'c, 'v, 'de, 'ce, 'we, 'a, 'u, 'w, 'x) group run option" where
  "supervise g =
     (case gr_supervisor g of
        SupReceive k \<Rightarrow>
          if k = length (gr_handles g) then Some (Ret (g \<lparr> gr_supervisor := SupClose \<rparr>))
          else (case gr_channel g of
            [] \<Rightarrow> if list_all worker_disconnected (gr_workers g) then Some Panic else None
          | identity # rest \<Rightarrow>
              (case ReactorId_position identity of
                 None \<Rightarrow> Some Panic
               | Some p \<Rightarrow>
                   if p < length (gr_handles g) \<and> gr_handles g ! p
                   then Some (Ret (g \<lparr> gr_channel := rest, gr_supervisor := SupJoin k p,
                                       gr_handles := (gr_handles g)[p := False] \<rparr>))
                   else Some Panic))
      | SupJoin k p \<Rightarrow>
          (case gr_workers g ! p of
             WorkerReturned result \<Rightarrow>
               (case join_result result of
                  WorkerFinished x \<Rightarrow>
                    Some (Ret (g \<lparr> gr_supervisor := SupReceive (k + 1), gr_exits := (gr_exits g)[p := Some x] \<rparr>))
                | WorkerAborted \<Rightarrow> Some Panic)
           | _ \<Rightarrow> None)
      | SupClose \<Rightarrow>
          Some (Ret (g \<lparr> gr_ingress := (gr_ingress g) \<lparr> gi_closes := gi_closes (gr_ingress g) @ [CloseStore] \<rparr>,
                         gr_supervisor := SupClosing (length (gi_closes (gr_ingress g))) \<rparr>))
      | SupClosing c \<Rightarrow>
          if gi_closes (gr_ingress g) ! c \<noteq> CloseDone then None
          else Some (and_then (supervise_members (gr_exits g)) (\<lambda>members.
            and_then (aggregate members) (\<lambda>outcome. Ret (g \<lparr> gr_supervisor := SupDone outcome members \<rparr>))))
      | SupDone _ _ \<Rightarrow> None)"

text \<open>
  The spawner opens the gate, a worker or the supervisor moves, a caller asks for termination or
  its request moves, or somebody uses the ingress.
\<close>

datatype ('a, 'u, 'w, 'x) group_op =
  OpenGate
| WorkerMoves nat "('x + unit) option"
| SupervisorMoves
| RequestTermination
| RequestMoves nat "('x + unit) option"
| IngressMoves "('a, 'u, 'w) ingress_op"

definition group_step ::
  "('d, 'de) duty_code \<Rightarrow> ('c, 'ce) clock_code \<Rightarrow> ('v, 'd, 'we) waiter_code \<Rightarrow>
   ('d, 'c, 'v, 'de, 'ce, 'we, 'a, 'u, 'w, 'x) group \<Rightarrow> ('a, 'u, 'w, 'x) group_op \<Rightarrow>
   ('d, 'c, 'v, 'de, 'ce, 'we, 'a, 'u, 'w, 'x) group run option" where
  "group_step dc cc wc g op =
     (case op of
        OpenGate \<Rightarrow> Some (Ret (g \<lparr> gr_gate := StartGate_start (gr_gate g) \<rparr>))
      | WorkerMoves i answer \<Rightarrow>
          if length (gr_workers g) \<le> i then None else map_option Ret (worker_step dc cc wc g i answer)
      | SupervisorMoves \<Rightarrow> supervise g
      | RequestTermination \<Rightarrow> Some (Ret (g \<lparr> gr_requests := gr_requests g @ [TermBegin] \<rparr>))
      | RequestMoves j answer \<Rightarrow>
          if length (gr_requests g) \<le> j then None
          else map_option (\<lambda>(g, pc). Ret (g \<lparr> gr_requests := (gr_requests g)[j := pc] \<rparr>))
            (GroupControl_request_termination g answer (gr_requests g ! j))
      | IngressMoves op \<Rightarrow>
          map_option (\<lambda>r. and_then r (\<lambda>ingress. Ret (g \<lparr> gr_ingress := ingress \<rparr>))) (ingress_step (gr_ingress g) op))"

text \<open>From a group whose workers wait at the gate, over the ingress of its mailboxes.\<close>

inductive group_reachable ::
  "('d, 'de) duty_code \<Rightarrow> ('c, 'ce) clock_code \<Rightarrow> ('v, 'd, 'we) waiter_code \<Rightarrow> 'a mailbox list \<Rightarrow>
   ('d, 'c, 'v, 'de, 'ce, 'we) reactor list \<Rightarrow> ('d, 'c, 'v, 'de, 'ce, 'we, 'a, 'u, 'w, 'x) group \<Rightarrow> bool"
  for dc cc wc senders reactors where
  start: "bounded_ingress senders = Ret ingress \<Longrightarrow>
    group_reachable dc cc wc senders reactors (group_created ingress reactors)"
| step: "group_reachable dc cc wc senders reactors g \<Longrightarrow> group_step dc cc wc g op = Some (Ret g') \<Longrightarrow>
    group_reachable dc cc wc senders reactors g'"

section \<open>Invariant\<close>

definition exit_of :: "('d, 'c, 'v, 'de, 'ce, 'we) reactor \<Rightarrow> ('d, 'c, 'v, 'de, 'ce, 'we) member_exit option" where
  "exit_of r = (case rc_pc r of RunExited x \<Rightarrow> Some (MemberExited x) | RunUnwound \<Rightarrow> Some MemberPanicked | _ \<Rightarrow> None)"

definition reported :: "('d, 'c, 'v, 'de, 'ce, 'we) member_exit option \<Rightarrow> ('d, 'c, 'v, 'de, 'ce, 'we) member_exit" where
  "reported y = (case y of Some x \<Rightarrow> x | None \<Rightarrow> MemberPanicked)"

definition worker_exit :: "('d, 'c, 'v, 'de, 'ce, 'we, 'x) worker_pc \<Rightarrow> ('d, 'c, 'v, 'de, 'ce, 'we) member_exit option" where
  "worker_exit pc =
     (case pc of
        WorkerGate \<Rightarrow> None
      | WorkerRunning \<Rightarrow> None
      | WorkerCaught x \<Rightarrow> Some x
      | WorkerTerminating x _ \<Rightarrow> Some x
      | WorkerSending y \<Rightarrow> Some (reported y)
      | WorkerSent y \<Rightarrow> Some (reported y)
      | WorkerReturned result \<Rightarrow> (case join_result result of WorkerFinished x \<Rightarrow> Some x | WorkerAborted \<Rightarrow> None))"

text \<open>The thread is over, with this exit for the supervisor.\<close>

definition finished_with ::
  "('d, 'c, 'v, 'de, 'ce, 'we, 'x) worker_pc \<Rightarrow> ('d, 'c, 'v, 'de, 'ce, 'we) member_exit \<Rightarrow> bool" where
  "finished_with pc x \<longleftrightarrow> (case pc of WorkerReturned result \<Rightarrow> join_result result = WorkerFinished x | _ \<Rightarrow> False)"

text \<open>
  What a worker may report of its reactor: its exit; or a panic, when a backend panicked while the
  worker requested the termination of the group for a reactor that had failed or panicked.
\<close>

definition reports :: "('d, 'c, 'v, 'de, 'ce, 'we) reactor \<Rightarrow> ('d, 'c, 'v, 'de, 'ce, 'we) member_exit \<Rightarrow> bool" where
  "reports r x \<longleftrightarrow> exit_of r = Some x \<or> x = MemberPanicked \<and> (\<exists>y. exit_of r = Some y \<and> is_fatal y)"

text \<open>The completion is in the channel; the failure, if it was one, has been dealt with.\<close>

definition worker_sent :: "('d, 'c, 'v, 'de, 'ce, 'we, 'x) worker_pc \<Rightarrow> bool" where
  "worker_sent pc = (case pc of WorkerSent _ \<Rightarrow> True | WorkerReturned _ \<Rightarrow> True | _ \<Rightarrow> False)"

definition worker_past :: "('d, 'c, 'v, 'de, 'ce, 'we, 'x) worker_pc \<Rightarrow> bool" where
  "worker_past pc = (case pc of WorkerSending _ \<Rightarrow> True | WorkerSent _ \<Rightarrow> True | WorkerReturned _ \<Rightarrow> True | _ \<Rightarrow> False)"

lemma worker_pc_simps [simp]:
  "worker_exit WorkerGate = None" "worker_exit WorkerRunning = None" "worker_exit (WorkerCaught x) = Some x"
  "worker_exit (WorkerTerminating x t) = Some x" "worker_exit (WorkerSending y) = Some (reported y)"
  "worker_exit (WorkerSent y) = Some (reported y)" "reported (Some x) = x" "reported None = MemberPanicked"
  "worker_exit (WorkerReturned (map_option WorkerFinished y)) = Some (reported y)"
  "\<not> worker_sent WorkerGate" "\<not> worker_sent WorkerRunning" "\<not> worker_sent (WorkerCaught x)"
  "\<not> worker_sent (WorkerTerminating x t)" "\<not> worker_sent (WorkerSending y)" "worker_sent (WorkerSent y)"
  "worker_sent (WorkerReturned result)"
  "\<not> worker_past WorkerGate" "\<not> worker_past WorkerRunning" "\<not> worker_past (WorkerCaught x)"
  "\<not> worker_past (WorkerTerminating x t)" "worker_past (WorkerSending y)" "worker_past (WorkerSent y)"
  "worker_past (WorkerReturned result)"
  by (simp_all add: worker_exit_def worker_sent_def worker_past_def join_result_def reported_def split: option.splits)

lemma worker_disconnected_sent: "worker_disconnected pc = worker_sent pc"
  by (simp add: worker_disconnected_def worker_sent_def)

text \<open>The group is closed, and no reactor runs on without a request.\<close>

definition controlled :: "('d, 'c, 'v, 'de, 'ce, 'we) reactor list \<Rightarrow> nat \<Rightarrow> bool" where
  "controlled reactors k \<longleftrightarrow> (\<forall>j<k. rc_control (reactors ! j) \<noteq> ControlRunning)"

definition fence_done :: "('a, 'u, 'w) ingress \<Rightarrow> bool" where
  "fence_done ingress \<longleftrightarrow> CloseDone \<in> set (gi_closes ingress)"

definition contained :: "('d, 'c, 'v, 'de, 'ce, 'we, 'a, 'u, 'w, 'x) group \<Rightarrow> bool" where
  "contained g \<longleftrightarrow> fence_done (gr_ingress g) \<and> controlled (gr_reactors g) (length (gr_reactors g))"

fun term_ok :: "('d, 'c, 'v, 'de, 'ce, 'we, 'a, 'u, 'w, 'x) group \<Rightarrow> 'x term_pc \<Rightarrow> bool" where
  "term_ok g TermBegin = True"
| "term_ok g (TermClose c) = (c < length (gi_closes (gr_ingress g)))"
| "term_ok g (TermPublish published) =
     (fence_done (gr_ingress g) \<and> length published \<le> length (gr_reactors g) \<and>
      controlled (gr_reactors g) (length published))"
| "term_ok g (TermWake published reactors) =
     (contained g \<and> length published + length reactors = length (gr_reactors g))"
| "term_ok g (TermDone reactors) = (contained g \<and> length reactors = length (gr_reactors g))"
| "term_ok g TermUnwound = contained g"

definition worker_ok :: "('d, 'c, 'v, 'de, 'ce, 'we, 'a, 'u, 'w, 'x) group \<Rightarrow> nat \<Rightarrow>
  ('d, 'c, 'v, 'de, 'ce, 'we, 'x) worker_pc \<Rightarrow> bool" where
  "worker_ok g i pc \<longleftrightarrow>
     (\<forall>x. worker_exit pc = Some x \<longrightarrow> reports (gr_reactors g ! i) x) \<and>
     (\<forall>x t. pc = WorkerTerminating x t \<longrightarrow> is_fatal x \<and> term_ok g t) \<and>
     (\<forall>x. worker_past pc \<longrightarrow> worker_exit pc = Some x \<longrightarrow> is_fatal x \<longrightarrow> contained g) \<and>
     pc \<noteq> WorkerReturned (Some WorkerAborted)"

text \<open>The channel holds who has published and was not yet received.\<close>

definition channel_ok ::
  "nat \<Rightarrow> ('d, 'c, 'v, 'de, 'ce, 'we, 'x) worker_pc list \<Rightarrow> bool list \<Rightarrow> reactor_id list \<Rightarrow> bool" where
  "channel_ok n workers handles channel \<longleftrightarrow>
     distinct channel \<and> (\<forall>r\<in>set channel. unat r < n) \<and>
     (\<forall>i<n. of_nat i \<in> set channel \<longleftrightarrow> worker_sent (workers ! i) \<and> handles ! i) \<and>
     (\<forall>i<n. \<not> handles ! i \<longrightarrow> worker_sent (workers ! i))"

definition received :: "bool list \<Rightarrow> nat" where
  "received handles = length (filter Not handles)"

definition collected :: "bool list \<Rightarrow> 'e option list \<Rightarrow> bool" where
  "collected handles exits \<longleftrightarrow> (\<forall>i<length handles. \<not> handles ! i \<and> exits ! i \<noteq> None)"

definition supervisor_ok :: "('d, 'c, 'v, 'de, 'ce, 'we, 'a, 'u, 'w, 'x) group \<Rightarrow> bool" where
  "supervisor_ok g \<longleftrightarrow>
     (case gr_supervisor g of
        SupReceive k \<Rightarrow> k = received (gr_handles g) \<and>
          (\<forall>i<length (gr_handles g). gr_exits g ! i \<noteq> None \<longleftrightarrow> \<not> gr_handles g ! i)
      | SupJoin k p \<Rightarrow> Suc k = received (gr_handles g) \<and> p < length (gr_handles g) \<and> \<not> gr_handles g ! p \<and>
          (\<forall>i<length (gr_handles g). gr_exits g ! i \<noteq> None \<longleftrightarrow> \<not> gr_handles g ! i \<and> i \<noteq> p)
      | SupClose \<Rightarrow> collected (gr_handles g) (gr_exits g)
      | SupClosing c \<Rightarrow> c < length (gi_closes (gr_ingress g)) \<and> collected (gr_handles g) (gr_exits g)
      | SupDone outcome members \<Rightarrow> fence_done (gr_ingress g) \<and> collected (gr_handles g) (gr_exits g) \<and>
          members = map the (gr_exits g) \<and> aggregate members = Ret outcome)"

definition group_inv :: "'a mailbox list \<Rightarrow> ('d, 'c, 'v, 'de, 'ce, 'we, 'a, 'u, 'w, 'x) group \<Rightarrow> bool" where
  "group_inv senders g \<longleftrightarrow>
     (let n = length (gr_reactors g) in
      n < 2 ^ 64 \<and> length (gr_workers g) = n \<and> length (gr_handles g) = n \<and> length (gr_exits g) = n \<and>
      ingress_inv senders (gr_ingress g) \<and> (\<forall>r\<in>set (gr_reactors g). reactor_inv r) \<and>
      gr_gate g \<noteq> Some DecideAbort \<and>
      (\<forall>i<n. worker_ok g i (gr_workers g ! i)) \<and>
      (\<forall>pc\<in>set (gr_requests g). term_ok g pc) \<and>
      channel_ok n (gr_workers g) (gr_handles g) (gr_channel g) \<and> supervisor_ok g \<and>
      (\<forall>i<n. \<forall>x. gr_exits g ! i = Some x \<longrightarrow> finished_with (gr_workers g ! i) x))"

section \<open>What only grows\<close>

text \<open>Closes stay done, a control that left \<open>Running\<close> does not come back, an exit is final.\<close>

definition later ::
  "('d, 'c, 'v, 'de, 'ce, 'we, 'a, 'u, 'w, 'x) group \<Rightarrow> ('d, 'c, 'v, 'de, 'ce, 'we, 'a, 'u, 'w, 'x) group \<Rightarrow> bool" where
  "later g g' \<longleftrightarrow>
     length (gi_closes (gr_ingress g)) \<le> length (gi_closes (gr_ingress g')) \<and>
     (fence_done (gr_ingress g) \<longrightarrow> fence_done (gr_ingress g')) \<and>
     length (gr_reactors g') = length (gr_reactors g) \<and>
     (\<forall>j<length (gr_reactors g).
        (rc_control (gr_reactors g ! j) \<noteq> ControlRunning \<longrightarrow> rc_control (gr_reactors g' ! j) \<noteq> ControlRunning) \<and>
        (\<forall>x. exit_of (gr_reactors g ! j) = Some x \<longrightarrow> exit_of (gr_reactors g' ! j) = Some x))"

lemma contained_later: "contained g \<Longrightarrow> later g g' \<Longrightarrow> contained g'"
  by (auto simp: contained_def later_def controlled_def)

lemma term_ok_later: "term_ok g pc \<Longrightarrow> later g g' \<Longrightarrow> term_ok g' pc"
proof (cases pc)
  case (TermPublish published)
  assume "term_ok g pc" "later g g'"
  then show ?thesis
    using TermPublish by (auto simp: later_def controlled_def)
next
  case (TermWake published reactors)
  assume "term_ok g pc" "later g g'"
  then show ?thesis
    using TermWake contained_later [of g g'] by (auto simp: later_def)
next
  case (TermDone reactors)
  assume "term_ok g pc" "later g g'"
  then show ?thesis
    using TermDone contained_later [of g g'] by (auto simp: later_def)
next
  case TermUnwound
  assume "term_ok g pc" "later g g'"
  then show ?thesis
    using TermUnwound contained_later [of g g'] by simp
qed (auto simp: later_def)

lemma worker_ok_later:
  "worker_ok g i pc \<Longrightarrow> later g g' \<Longrightarrow> i < length (gr_reactors g) \<Longrightarrow> worker_ok g' i pc"
  using contained_later [of g g'] term_ok_later [of g _ g'] by (auto simp: worker_ok_def later_def reports_def)

lemma owner_step_control:
  "rc_control r \<noteq> ControlRunning \<Longrightarrow> rc_control (owner_step dc cc wc r) \<noteq> ControlRunning"
  by (cases "rc_pc r")
    (auto simp: owner_step_def run_turn_def run_wait_def unwind_def exit_with_def begun_def control_ops Let_def
      split: run.splits prod.splits sum.splits host_action.splits)

lemma owner_step_exit: "exit_of r = Some x \<Longrightarrow> owner_step dc cc wc r = r"
  by (cases "rc_pc r") (simp_all add: exit_of_def owner_step_def)

lemma publish_at_keeps:
  assumes "publish_at r = (r', p)"
  shows "exit_of r' = exit_of r" "rc_control r' \<noteq> ControlRunning" "reactor_inv r \<Longrightarrow> reactor_inv r'"
proof -
  have "r' = fst (request_step r (Inr () :: nat + unit))"
    using assms
    by (auto simp: publish_at_def request_step_def ReactorControl_request_termination_def
      PublishedTermination_complete_def split: prod.splits)
  then show "reactor_inv r \<Longrightarrow> reactor_inv r'"
    using request_inv by blast
  show "exit_of r' = exit_of r" "rc_control r' \<noteq> ControlRunning"
    using assms by (auto simp: publish_at_def exit_of_def control_ops split: prod.splits control_phase.splits)
qed

text \<open>Reactors and ingress move on; the invariant follows.\<close>

lemma group_inv_later:
  assumes inv: "group_inv senders g" and later: "later g (g \<lparr> gr_ingress := ingress, gr_reactors := reactors \<rparr>)"
    and kept: "ingress_inv senders ingress" "\<forall>r\<in>set reactors. reactor_inv r"
  shows "group_inv senders (g \<lparr> gr_ingress := ingress, gr_reactors := reactors \<rparr>)"
proof -
  let ?g = "g \<lparr> gr_ingress := ingress, gr_reactors := reactors \<rparr>"
  have n: "length reactors = length (gr_reactors g)"
    using later by (simp add: later_def)
  have "worker_ok ?g i (gr_workers g ! i)" if "i < length (gr_reactors g)" for i
    using inv that worker_ok_later [OF _ later that] by (auto simp: group_inv_def Let_def)
  moreover have "term_ok ?g pc" if "pc \<in> set (gr_requests g)" for pc
    using inv that term_ok_later [OF _ later] by (auto simp: group_inv_def Let_def)
  moreover have "supervisor_ok ?g"
    using inv later by (cases "gr_supervisor g") (auto simp: group_inv_def Let_def supervisor_ok_def later_def)
  ultimately show ?thesis
    using inv kept n by (simp add: group_inv_def Let_def)
qed
section \<open>Every step keeps the invariant\<close>

lemma later_refl [simp]: "later g g"
  by (simp add: later_def)

lemma later_same: "gr_ingress g' = gr_ingress g \<Longrightarrow> gr_reactors g' = gr_reactors g \<Longrightarrow> later g g'"
  by (simp add: later_def)

lemma closes_grow:
  assumes "ingress_step g op = Some (Ret g')"
  shows "length (gi_closes g) \<le> length (gi_closes g')"
  using assms
  by (cases op)
    (auto simp: ingress_step_def send_step_def close_step_def Let_def and_then_Ret_iff
      split: if_splits prod.splits send_pc.splits close_pc.splits)

lemma ingress_moves_ok:
  assumes inv: "group_inv senders g" and step: "ingress_step (gr_ingress g) op = Some r"
  shows "\<exists>ingress. r = Ret ingress \<and> group_inv senders (g \<lparr> gr_ingress := ingress \<rparr>)"
proof -
  have "ingress_inv senders (gr_ingress g)"
    using inv by (simp add: group_inv_def Let_def)
  from ingress_step_ok [OF this step]
  obtain ingress where r: "r = Ret ingress" and kept: "ingress_inv senders ingress"
    by blast
  have "later g (g \<lparr> gr_ingress := ingress, gr_reactors := gr_reactors g \<rparr>)"
    using closes_grow [of "gr_ingress g" op ingress] closed_stays [of "gr_ingress g" op ingress] step r
    by (simp add: later_def fence_done_def)
  from group_inv_later [OF inv this kept] show ?thesis
    using r inv by (simp add: group_inv_def Let_def)
qed

text \<open>A new close, by a request or by the supervisor.\<close>

lemma new_close_ok:
  assumes inv: "group_inv senders g"
  defines "ingress \<equiv> (gr_ingress g) \<lparr> gi_closes := gi_closes (gr_ingress g) @ [CloseStore] \<rparr>"
  shows "group_inv senders (g \<lparr> gr_ingress := ingress \<rparr>)" "later g (g \<lparr> gr_ingress := ingress \<rparr>)"
proof -
  show later: "later g (g \<lparr> gr_ingress := ingress \<rparr>)"
    by (simp add: later_def ingress_def fence_done_def)
  have "ingress_inv senders ingress"
    unfolding ingress_def by (rule begin_close_ok) (use inv in \<open>simp add: group_inv_def Let_def\<close>)
  then show "group_inv senders (g \<lparr> gr_ingress := ingress \<rparr>)"
    using group_inv_later [OF inv, where ingress = ingress and reactors = "gr_reactors g"] later inv by (simp add: group_inv_def Let_def)
qed

text \<open>One reactor moves on.\<close>

lemma reactor_moves_ok:
  assumes inv: "group_inv senders g" and k: "k < length (gr_reactors g)"
    and moved: "reactor_inv r" "\<And>x. exit_of (gr_reactors g ! k) = Some x \<Longrightarrow> exit_of r = Some x"
      "rc_control (gr_reactors g ! k) \<noteq> ControlRunning \<Longrightarrow> rc_control r \<noteq> ControlRunning"
  shows "group_inv senders (g \<lparr> gr_reactors := (gr_reactors g)[k := r] \<rparr>)"
    "later g (g \<lparr> gr_reactors := (gr_reactors g)[k := r] \<rparr>)"
proof -
  show later: "later g (g \<lparr> gr_reactors := (gr_reactors g)[k := r] \<rparr>)"
    using moved(2,3) k by (auto simp: later_def nth_list_update)
  have "\<forall>s\<in>set ((gr_reactors g)[k := r]). reactor_inv s"
    using inv moved(1) set_update_subset_insert [of "gr_reactors g" k r] by (auto simp: group_inv_def Let_def)
  then show "group_inv senders (g \<lparr> gr_reactors := (gr_reactors g)[k := r] \<rparr>)"
    using group_inv_later [OF inv, where ingress = "gr_ingress g" and reactors = "(gr_reactors g)[k := r]"] later inv
    by (simp add: group_inv_def Let_def)
qed

lemma unmoved [simp]: "\<exists>ingress reactors. g = g \<lparr> gr_ingress := ingress, gr_reactors := reactors \<rparr>"
  by (intro exI [of _ "gr_ingress g"] exI [of _ "gr_reactors g"]) simp

lemma request_moves_ok:
  assumes inv: "group_inv senders g" and pc: "term_ok g pc"
    and step: "GroupControl_request_termination g answer pc = Some (g', pc')"
  shows "group_inv senders g' \<and> later g g' \<and> term_ok g' pc' \<and>
    (\<exists>ingress reactors. g' = g \<lparr> gr_ingress := ingress, gr_reactors := reactors \<rparr>)"
proof (cases pc)
  case TermBegin
  have g': "g' = g \<lparr> gr_ingress := (gr_ingress g) \<lparr> gi_closes := gi_closes (gr_ingress g) @ [CloseStore] \<rparr>,
      gr_reactors := gr_reactors g \<rparr>"
    and "pc' = TermClose (length (gi_closes (gr_ingress g)))"
    using step TermBegin by auto
  then have "term_ok g' pc'" "group_inv senders g'" "later g g'"
    using new_close_ok [OF inv] by simp_all
  then show ?thesis
    using g' by blast
next
  case (TermClose c)
  have "g' = g" "pc' = TermPublish []" "gi_closes (gr_ingress g) ! c = CloseDone"
    using step TermClose by (auto split: if_splits)
  moreover have "fence_done (gr_ingress g)"
    using pc TermClose calculation(3) by (auto simp: fence_done_def in_set_conv_nth)
  ultimately show ?thesis
    using inv later_refl by (simp add: controlled_def)
next
  case (TermPublish published)
  let ?k = "length published"
  show ?thesis
  proof (cases "?k < length (gr_reactors g)")
    case True
    obtain r p where r: "publish_at (gr_reactors g ! ?k) = (r, p)"
      by fastforce
    have g': "g' = g \<lparr> gr_ingress := gr_ingress g, gr_reactors := (gr_reactors g)[?k := r] \<rparr>"
      "pc' = TermPublish (published @ [p])"
      using step TermPublish True r by (auto simp: Let_def)
    have "reactor_inv (gr_reactors g ! ?k)"
      using inv True by (simp add: group_inv_def Let_def)
    then have kept: "group_inv senders g'" "later g g'"
      using reactor_moves_ok [OF inv True, of r] publish_at_keeps [OF r] g'(1) by simp_all
    moreover have "term_ok g' pc'"
      using pc TermPublish True g' publish_at_keeps(2) [OF r]
      by (auto simp: controlled_def nth_list_update less_Suc_eq)
    ultimately show ?thesis
      using g'(1) by blast
  next
    case False
    then have "g' = g" "pc' = TermWake published []"
      using step TermPublish by (auto simp: Let_def)
    then show ?thesis
      using inv later_refl pc TermPublish False
      by (auto simp: contained_def)
  qed
next
  case (TermWake published reactors)
  have "g' = g" "term_ok g pc'"
    using step pc TermWake by (cases published; cases answer; auto)+
  then show ?thesis
    using inv later_refl by simp
qed (use step in simp_all)

text \<open>A worker's place changes, not its completion.\<close>

lemma set_worker_ok:
  assumes inv: "group_inv senders g" and i: "i < length (gr_reactors g)"
    and pc: "worker_ok g i pc" "worker_sent pc = worker_sent (gr_workers g ! i)"
    and running: "\<And>result. gr_workers g ! i \<noteq> WorkerReturned result"
  shows "group_inv senders (set_worker i pc g)"
proof -
  let ?g = "set_worker i pc g"
  have same: "gr_ingress ?g = gr_ingress g" "gr_reactors ?g = gr_reactors g"
    by (simp_all add: set_worker_def)
  have later: "later g ?g"
    by (rule later_same [OF same])
  have n: "length (gr_workers g) = length (gr_reactors g)" "length (gr_handles g) = length (gr_reactors g)"
    using inv by (simp_all add: group_inv_def Let_def)
  have "worker_ok ?g j (gr_workers ?g ! j)" if "j < length (gr_reactors g)" for j
    using inv that pc(1) n worker_ok_later [OF _ later that]
    by (cases "j = i") (auto simp: group_inv_def Let_def set_worker_def)
  moreover have "term_ok ?g t" if "t \<in> set (gr_requests g)" for t
    using inv that term_ok_later [OF _ later] by (auto simp: group_inv_def Let_def)
  moreover have "channel_ok (length (gr_reactors g)) (gr_workers ?g) (gr_handles g) (gr_channel g)"
  proof -
    have "worker_sent (gr_workers ?g ! j) = worker_sent (gr_workers g ! j)" if "j < length (gr_reactors g)" for j
      using that pc(2) n by (cases "j = i") (simp_all add: set_worker_def)
    then show ?thesis
      using inv by (auto simp: group_inv_def Let_def channel_ok_def)
  qed
  moreover have "supervisor_ok ?g"
    using inv by (cases "gr_supervisor g") (simp_all add: group_inv_def Let_def supervisor_ok_def set_worker_def)
  moreover have "finished_with (gr_workers ?g ! j) x"
    if "j < length (gr_reactors g)" "gr_exits g ! j = Some x" for j x
  proof -
    have over: "finished_with (gr_workers g ! j) x"
      using inv that by (simp add: group_inv_def Let_def)
    then have "j \<noteq> i"
      using running by (auto simp: finished_with_def split: worker_pc.splits)
    then show ?thesis
      using over by (simp add: set_worker_def)
  qed
  ultimately show ?thesis
    using inv by (simp add: group_inv_def Let_def set_worker_def)
qed
text \<open>A worker publishes its completion.\<close>

lemma of_nat_eq_unat: "i < 2 ^ 64 \<Longrightarrow> (of_nat i :: u64) = r \<longleftrightarrow> i = unat r"
  by (auto simp: unat_of_nat take_bit_nat_eq_self_iff take_bit_nat_eq_self)

lemma publish_completion_ok:
  assumes inv: "group_inv senders g" and i: "i < length (gr_reactors g)" and pc: "gr_workers g ! i = WorkerSending y"
  shows "group_inv senders (set_worker i (WorkerSent y) (g \<lparr> gr_channel := gr_channel g @ [of_nat i] \<rparr>))"
proof -
  let ?g = "set_worker i (WorkerSent y) (g \<lparr> gr_channel := gr_channel g @ [of_nat i] \<rparr>)"
  let ?n = "length (gr_reactors g)"
  have n: "length (gr_workers g) = ?n" "length (gr_handles g) = ?n" "?n < 2 ^ 64"
    and channel: "channel_ok ?n (gr_workers g) (gr_handles g) (gr_channel g)"
    using inv by (simp_all add: group_inv_def Let_def)
  have later: "later g ?g"
    by (rule later_same) (simp_all add: set_worker_def)
  have old: "worker_ok g i (WorkerSending y)"
    using inv i pc by (auto simp: group_inv_def Let_def)
  have "worker_ok ?g j (gr_workers ?g ! j)" if j: "j < ?n" for j
  proof (cases "j = i")
    case True
    then show ?thesis
      using worker_ok_later [OF old later i] n i by (simp add: worker_ok_def set_worker_def)
  next
    case False
    have "worker_ok ?g j (gr_workers g ! j)"
      using inv j worker_ok_later [OF _ later j] by (simp add: group_inv_def Let_def)
    then show ?thesis
      using False by (simp add: set_worker_def)
  qed
  moreover have "term_ok ?g t" if "t \<in> set (gr_requests g)" for t
    using inv that term_ok_later [OF _ later] by (auto simp: group_inv_def Let_def)
  moreover have "channel_ok ?n (gr_workers ?g) (gr_handles g) (gr_channel g @ [of_nat i])"
  proof -
    have i': "(of_nat i :: u64) \<notin> set (gr_channel g)" "gr_handles g ! i"
      using channel i pc by (auto simp: channel_ok_def)
    have unat: "unat (of_nat i :: u64) = i"
      using i n(3) by (simp add: unat_of_nat take_bit_nat_eq_self)
    have "(of_nat j :: u64) = of_nat i \<longleftrightarrow> j = i" if "j < ?n" for j
      using that n(3) unat of_nat_eq_unat [of j "of_nat i"] by simp
    then show ?thesis
      using channel i i' unat n(1) by (auto simp: channel_ok_def set_worker_def nth_list_update)
  qed
  moreover have "supervisor_ok ?g"
    using inv by (cases "gr_supervisor g") (simp_all add: group_inv_def Let_def supervisor_ok_def set_worker_def)
  moreover have "finished_with (gr_workers ?g ! j) x" if "j < ?n" "gr_exits g ! j = Some x" for j x
    using inv that pc by (cases "j = i") (auto simp: group_inv_def Let_def set_worker_def finished_with_def)
  ultimately show ?thesis
    using inv by (simp add: group_inv_def Let_def set_worker_def)
qed

lemma worker_moves_ok:
  assumes inv: "group_inv senders g" and i: "i < length (gr_reactors g)"
    and step: "worker_step dc cc wc g i answer = Some g'"
  shows "group_inv senders g'"
proof -
  have old: "worker_ok g i (gr_workers g ! i)" and reactor: "reactor_inv (gr_reactors g ! i)"
    and gate: "gr_gate g \<noteq> Some DecideAbort"
    using inv i by (simp_all add: group_inv_def Let_def)
  note move = set_worker_ok [OF inv i]
  show ?thesis
  proof (cases "gr_workers g ! i")
    case WorkerGate
    then show ?thesis
      using step gate move [of WorkerRunning]
      by (auto simp: worker_step_def StartGate_wait_def worker_ok_def split: option.splits start_decision.splits)
  next
    case WorkerRunning
    show ?thesis
    proof (cases "exit_of (gr_reactors g ! i)")
      case None
      then have g': "g' = g \<lparr> gr_reactors := (gr_reactors g)[i := owner_step dc cc wc (gr_reactors g ! i)] \<rparr>"
        using step WorkerRunning by (auto simp: worker_step_def exit_of_def split: run_pc.splits)
      show ?thesis
        unfolding g' using reactor None
        by (intro reactor_moves_ok(1) [OF inv i]) (simp_all add: owner_step_inv owner_step_control)
    next
      case (Some x)
      then have "g' = set_worker i (WorkerCaught x) g"
        using step WorkerRunning by (auto simp: worker_step_def exit_of_def split: run_pc.splits)
      then show ?thesis
        using WorkerRunning Some move [of "WorkerCaught x"] by (simp add: worker_ok_def reports_def)
    qed
  next
    case (WorkerCaught x)
    then show ?thesis
      using step old move [of "WorkerTerminating x TermBegin"] move [of "WorkerSending (Some x)"]
      by (auto simp: worker_step_def worker_ok_def split: if_splits)
  next
    case (WorkerTerminating x t)
    show ?thesis
    proof (cases "GroupControl_request_termination g answer t")
      case None
      then consider results where "t = TermDone results" "g' = set_worker i (WorkerSending (Some x)) g"
        | "t = TermUnwound" "g' = set_worker i (WorkerSending None) g"
        using step WorkerTerminating by (auto simp: worker_step_def split: term_pc.splits)
      then show ?thesis
      proof cases
        case 1
        then show ?thesis
          using old WorkerTerminating move [of "WorkerSending (Some x)"] by (simp add: worker_ok_def)
      next
        case 2
        then show ?thesis
          using old WorkerTerminating move [of "WorkerSending None"] by (auto simp: worker_ok_def reports_def)
      qed
    next
      case (Some y)
      then obtain h t' where y: "GroupControl_request_termination g answer t = Some (h, t')"
        and g': "g' = set_worker i (WorkerTerminating x t') h"
        using step WorkerTerminating by (cases y) (auto simp: worker_step_def)
      have "term_ok g t"
        using old WorkerTerminating by (simp add: worker_ok_def)
      from request_moves_ok [OF inv this y] obtain ingress reactors where h: "group_inv senders h" "later g h" "term_ok h t'"
        "h = g \<lparr> gr_ingress := ingress, gr_reactors := reactors \<rparr>"
        by blast
      have "length (gr_reactors h) = length (gr_reactors g)"
        using h(2) by (simp add: later_def)
      moreover have "worker_ok h i (WorkerTerminating x t')"
        using worker_ok_later [OF old h(2) i] WorkerTerminating h(3) by (simp add: worker_ok_def)
      moreover have "gr_workers h ! i = WorkerTerminating x t"
        using h(4) WorkerTerminating by simp
      ultimately show ?thesis
        unfolding g' using i by (intro set_worker_ok [OF h(1)]) simp_all
    qed
  next
    case (WorkerSending y)
    then show ?thesis
      using step publish_completion_ok [OF inv i] by (simp add: worker_step_def split: if_splits)
  next
    case (WorkerSent y)
    then show ?thesis
      using step old move [of "WorkerReturned (map_option WorkerFinished y)"] by (auto simp: worker_step_def worker_ok_def)
  qed (use step in \<open>simp add: worker_step_def\<close>)
qed
text \<open>The supervisor.\<close>

lemma received_all: "received handles = length handles \<longleftrightarrow> (\<forall>i<length handles. \<not> handles ! i)"
proof -
  have "received handles = length handles \<longleftrightarrow> (\<forall>h\<in>set handles. \<not> h)"
  proof (induction handles)
    case (Cons h handles)
    have "length (filter Not handles) \<noteq> Suc (length handles)"
      using length_filter_le [of Not handles] by linarith
    then show ?case
      using Cons by (auto simp: received_def)
  qed (simp add: received_def)
  then show ?thesis
    by (simp add: all_set_conv_all_nth)
qed

lemma received_one: "p < length handles \<Longrightarrow> handles ! p \<Longrightarrow> received (handles[p := False]) = Suc (received handles)"
proof (induction handles arbitrary: p)
  case (Cons h handles)
  then show ?case
    by (cases p) (simp_all add: received_def)
qed simp

lemma group_inv_supervisor:
  assumes inv: "group_inv senders g"
    and lens: "length handles = length (gr_reactors g)" "length exits = length (gr_reactors g)"
    and kept: "channel_ok (length (gr_reactors g)) (gr_workers g) handles channel"
      "supervisor_ok (g \<lparr> gr_channel := channel, gr_supervisor := s, gr_handles := handles, gr_exits := exits \<rparr>)"
      "\<And>i x. i < length (gr_reactors g) \<Longrightarrow> exits ! i = Some x \<Longrightarrow> finished_with (gr_workers g ! i) x"
  shows "group_inv senders (g \<lparr> gr_channel := channel, gr_supervisor := s, gr_handles := handles, gr_exits := exits \<rparr>)"
proof -
  let ?g = "g \<lparr> gr_channel := channel, gr_supervisor := s, gr_handles := handles, gr_exits := exits \<rparr>"
  have later: "later g ?g"
    by (rule later_same) simp_all
  have "worker_ok ?g j (gr_workers g ! j)" if "j < length (gr_reactors g)" for j
    using inv that worker_ok_later [OF _ later that] by (simp add: group_inv_def Let_def)
  moreover have "term_ok ?g t" if "t \<in> set (gr_requests g)" for t
    using inv that term_ok_later [OF _ later] by (simp add: group_inv_def Let_def)
  ultimately show ?thesis
    using inv lens kept by (simp add: group_inv_def Let_def)
qed

lemma aggregate_Ret: "length members < 2 ^ 64 \<Longrightarrow> \<exists>outcome. aggregate members = Ret outcome"
  using iter_position_SomeD [of member_panicked members] iter_position_SomeD [of member_failed members]
  by (fastforce simp: aggregate_def ReactorId_from_position_def split: option.splits)

lemma supervise_ok:
  assumes inv: "group_inv senders g" and step: "supervise g = Some r"
  shows "\<exists>g'. r = Ret g' \<and> group_inv senders g'"
proof -
  let ?n = "length (gr_reactors g)"
  have n: "length (gr_workers g) = ?n" "length (gr_handles g) = ?n" "length (gr_exits g) = ?n" "?n < 2 ^ 64"
    and channel: "channel_ok ?n (gr_workers g) (gr_handles g) (gr_channel g)" and sup: "supervisor_ok g"
    and exits: "\<And>i x. i < ?n \<Longrightarrow> gr_exits g ! i = Some x \<Longrightarrow> finished_with (gr_workers g ! i) x"
    and workers: "\<And>i. i < ?n \<Longrightarrow> worker_ok g i (gr_workers g ! i)"
    using inv by (simp_all add: group_inv_def Let_def)
  note moved = group_inv_supervisor [OF inv n(2,3) channel _ exits, simplified]
  show ?thesis
  proof (cases "gr_supervisor g")
    case (SupReceive k)
    have k: "k = received (gr_handles g)" "\<And>i. i < ?n \<Longrightarrow> gr_exits g ! i \<noteq> None \<longleftrightarrow> \<not> gr_handles g ! i"
      using sup SupReceive n by (auto simp: supervisor_ok_def)
    show ?thesis
    proof (cases "k = length (gr_handles g)")
      case True
      then have "collected (gr_handles g) (gr_exits g)"
        using k received_all [of "gr_handles g"] n by (auto simp: collected_def)
      then have "group_inv senders (g \<lparr> gr_supervisor := SupClose \<rparr>)"
        by (intro moved) (simp add: supervisor_ok_def)
      then show ?thesis
        using step SupReceive True by (auto simp: supervise_def)
    next
      case False
      then obtain i where i: "i < ?n" "gr_handles g ! i"
        using k received_all [of "gr_handles g"] n by auto
      show ?thesis
      proof (cases "gr_channel g")
        case Nil
        then have "\<not> worker_sent (gr_workers g ! i)"
          using channel i by (auto simp: channel_ok_def)
        then have "\<not> list_all worker_disconnected (gr_workers g)"
          using i n by (auto simp: list_all_length worker_disconnected_sent)
        then show ?thesis
          using step SupReceive False Nil by (simp add: supervise_def)
      next
        case (Cons identity rest)
        let ?p = "unat identity"
        have p: "?p < ?n" "identity \<notin> set rest" "distinct rest"
          using channel Cons by (auto simp: channel_ok_def)
        have "of_nat ?p \<in> set (gr_channel g)"
          using Cons by simp
        then have sent: "gr_handles g ! ?p" "worker_sent (gr_workers g ! ?p)"
          using channel p(1) by (auto simp: channel_ok_def)
        have "(of_nat i :: u64) = identity \<longleftrightarrow> i = ?p" if "i < ?n" for i
          using that n(4) of_nat_eq_unat by simp
        then have "channel_ok ?n (gr_workers g) ((gr_handles g)[?p := False]) rest"
          using channel Cons p sent n(2) by (auto simp: channel_ok_def nth_list_update)
        moreover have "Suc k = received ((gr_handles g)[?p := False])"
          using k(1) received_one [of ?p "gr_handles g"] p(1) sent(1) n by simp
        ultimately have "group_inv senders (g \<lparr> gr_channel := rest, gr_supervisor := SupJoin k ?p,
            gr_handles := (gr_handles g)[?p := False], gr_exits := gr_exits g \<rparr>)"
          using k(2) p(1) n sent by (intro group_inv_supervisor [OF inv]) (auto simp: supervisor_ok_def nth_list_update exits)
        then show ?thesis
          using step SupReceive False Cons p(1) sent(1) n by (auto simp: supervise_def ReactorId_position_def)
      qed
    qed
  next
    case (SupJoin k p)
    have p: "p < ?n" "\<not> gr_handles g ! p" "Suc k = received (gr_handles g)"
      "\<And>i. i < ?n \<Longrightarrow> gr_exits g ! i \<noteq> None \<longleftrightarrow> \<not> gr_handles g ! i \<and> i \<noteq> p"
      using sup SupJoin n by (auto simp: supervisor_ok_def)
    obtain result x where x: "gr_workers g ! p = WorkerReturned result" "join_result result = WorkerFinished x"
      using step SupJoin workers [OF p(1)]
      by (auto simp: supervise_def worker_ok_def join_result_def split: worker_pc.splits worker_result.splits option.splits)
    then have "finished_with (gr_workers g ! p) x"
      by (simp add: finished_with_def)
    with p n channel exits have "group_inv senders (g \<lparr> gr_channel := gr_channel g, gr_supervisor := SupReceive (Suc k),
        gr_handles := gr_handles g, gr_exits := (gr_exits g)[p := Some x] \<rparr>)"
      by (intro group_inv_supervisor [OF inv]) (auto simp: supervisor_ok_def nth_list_update split: if_splits)
    then show ?thesis
      using step SupJoin x by (auto simp: supervise_def)
  next
    case SupClose
    let ?ingress = "(gr_ingress g) \<lparr> gi_closes := gi_closes (gr_ingress g) @ [CloseStore] \<rparr>"
    let ?h = "g \<lparr> gr_ingress := ?ingress \<rparr>"
    have "collected (gr_handles g) (gr_exits g)"
      using sup SupClose by (simp add: supervisor_ok_def)
    then have "group_inv senders (?h \<lparr> gr_channel := gr_channel ?h,
        gr_supervisor := SupClosing (length (gi_closes (gr_ingress g))), gr_handles := gr_handles ?h, gr_exits := gr_exits ?h \<rparr>)"
      using n channel exits by (intro group_inv_supervisor [OF new_close_ok(1) [OF inv]]) (simp_all add: supervisor_ok_def)
    then show ?thesis
      using step SupClose by (auto simp: supervise_def)
  next
    case (SupClosing c)
    then have c: "gi_closes (gr_ingress g) ! c = CloseDone" "c < length (gi_closes (gr_ingress g))"
      "collected (gr_handles g) (gr_exits g)"
      using step sup by (auto simp: supervise_def supervisor_ok_def split: if_splits)
    then have fence: "fence_done (gr_ingress g)"
      by (auto simp: fence_done_def in_set_conv_nth)
    have "None \<notin> set (gr_exits g)"
      using c(3) n by (auto simp: collected_def in_set_conv_nth)
    moreover obtain outcome where outcome: "aggregate (map the (gr_exits g)) = Ret outcome"
      using aggregate_Ret [of "map the (gr_exits g)"] n by auto
    ultimately have "supervise g = Some (Ret (g \<lparr> gr_supervisor := SupDone outcome (map the (gr_exits g)) \<rparr>))"
      using SupClosing c(1) by (simp add: supervise_def supervise_members_def)
    moreover have "group_inv senders (g \<lparr> gr_supervisor := SupDone outcome (map the (gr_exits g)) \<rparr>)"
      using fence c(3) outcome by (intro moved) (simp add: supervisor_ok_def)
    ultimately show ?thesis
      using step by simp
  qed (use step in \<open>simp add: supervise_def\<close>)
qed

lemma group_inv_requests:
  assumes inv: "group_inv senders g" and kept: "\<And>pc. pc \<in> set requests \<Longrightarrow> pc \<in> set (gr_requests g) \<or> term_ok g pc"
  shows "group_inv senders (g \<lparr> gr_requests := requests \<rparr>)"
proof -
  let ?g = "g \<lparr> gr_requests := requests \<rparr>"
  have later: "later g ?g"
    by (rule later_same) simp_all
  have "worker_ok ?g i (gr_workers g ! i)" if "i < length (gr_reactors g)" for i
    using inv that worker_ok_later [OF _ later that] by (simp add: group_inv_def Let_def)
  moreover have "term_ok ?g pc" if "pc \<in> set requests" for pc
    using inv kept [OF that] term_ok_later [OF _ later] by (auto simp: group_inv_def Let_def)
  moreover have "supervisor_ok ?g = supervisor_ok g"
    by (cases "gr_supervisor g") (simp_all add: supervisor_ok_def)
  ultimately show ?thesis
    using inv by (simp add: group_inv_def Let_def)
qed

lemma group_step_ok:
  assumes inv: "group_inv senders g" and step: "group_step dc cc wc g op = Some r"
  shows "\<exists>g'. r = Ret g' \<and> group_inv senders g'"
proof (cases op)
  case OpenGate
  have later: "later g (g \<lparr> gr_gate := StartGate_start (gr_gate g) \<rparr>)"
    by (rule later_same) simp_all
  have "worker_ok (g \<lparr> gr_gate := StartGate_start (gr_gate g) \<rparr>) i (gr_workers g ! i)" if "i < length (gr_reactors g)" for i
    using inv that worker_ok_later [OF _ later that] by (simp add: group_inv_def Let_def)
  moreover have "term_ok (g \<lparr> gr_gate := StartGate_start (gr_gate g) \<rparr>) t" if "t \<in> set (gr_requests g)" for t
    using inv that term_ok_later [OF _ later] by (simp add: group_inv_def Let_def)
  moreover have "supervisor_ok (g \<lparr> gr_gate := StartGate_start (gr_gate g) \<rparr>) = supervisor_ok g"
    by (cases "gr_supervisor g") (simp_all add: supervisor_ok_def)
  ultimately have "group_inv senders (g \<lparr> gr_gate := StartGate_start (gr_gate g) \<rparr>)"
    using inv by (auto simp: group_inv_def Let_def StartGate_start_def StartGate_decide_def split: option.splits)
  then show ?thesis
    using step OpenGate by (auto simp: group_step_def)
next
  case (WorkerMoves i answer)
  have "length (gr_workers g) = length (gr_reactors g)"
    using inv by (simp add: group_inv_def Let_def)
  then show ?thesis
    using step WorkerMoves worker_moves_ok [OF inv, of i] by (auto simp: group_step_def split: if_splits)
next
  case SupervisorMoves
  then show ?thesis
    using step supervise_ok [OF inv] by (simp add: group_step_def)
next
  case RequestTermination
  have "group_inv senders (g \<lparr> gr_requests := gr_requests g @ [TermBegin] \<rparr>)"
    by (rule group_inv_requests [OF inv]) auto
  then show ?thesis
    using step RequestTermination by (auto simp: group_step_def)
next
  case (RequestMoves j answer)
  then obtain h pc where j: "j < length (gr_requests g)"
    and h: "GroupControl_request_termination g answer (gr_requests g ! j) = Some (h, pc)"
    and r: "r = Ret (h \<lparr> gr_requests := (gr_requests h)[j := pc] \<rparr>)"
    using step by (auto simp: group_step_def split: if_splits)
  have "term_ok g (gr_requests g ! j)"
    using inv j by (simp add: group_inv_def Let_def)
  from request_moves_ok [OF inv this h] have "group_inv senders h" "term_ok h pc"
    by blast+
  then have "group_inv senders (h \<lparr> gr_requests := (gr_requests h)[j := pc] \<rparr>)"
    using set_update_subset_insert [of "gr_requests h" j pc] by (intro group_inv_requests) auto
  then show ?thesis
    using r by blast
next
  case (IngressMoves iop)
  then obtain s where "ingress_step (gr_ingress g) iop = Some s"
      "r = and_then s (\<lambda>ingress. Ret (g \<lparr> gr_ingress := ingress \<rparr>))"
    using step by (auto simp: group_step_def)
  then show ?thesis
    using ingress_moves_ok [OF inv, of iop s] by auto
qed

section \<open>The lifecycle\<close>

text \<open>The group has been told to end: nothing is admitted, and no reactor runs on unasked.\<close>

definition halted :: "('d, 'c, 'v, 'de, 'ce, 'we, 'a, 'u, 'w, 'x) group \<Rightarrow> bool" where
  "halted g \<longleftrightarrow> \<not> gi_open (gr_ingress g) \<and> (\<forall>r\<in>set (gr_reactors g). rc_control r \<noteq> ControlRunning)"

text \<open>Panics before failures, the lowest identity in each class; termination before a stop.\<close>

definition outcome_truthful :: "group_outcome \<Rightarrow> ('d, 'c, 'v, 'de, 'ce, 'we) member_exit list \<Rightarrow> bool" where
  "outcome_truthful outcome members \<longleftrightarrow>
     (case outcome of
        GroupPanicked r \<Rightarrow> unat r < length members \<and> member_panicked (members ! unat r) \<and>
          (\<forall>j<unat r. \<not> member_panicked (members ! j))
      | GroupFailed r \<Rightarrow> (\<forall>x\<in>set members. \<not> member_panicked x) \<and>
          unat r < length members \<and> member_failed (members ! unat r) \<and> (\<forall>j<unat r. \<not> member_failed (members ! j))
      | GroupTerminated \<Rightarrow> (\<forall>x\<in>set members. \<not> is_fatal x) \<and> (\<exists>x\<in>set members. member_terminated x)
      | GroupStopped \<Rightarrow> (\<forall>x\<in>set members. \<not> is_fatal x \<and> \<not> member_terminated x))"

lemma from_position_unat:
  "ReactorId_from_position n = Ret r \<Longrightarrow> unat r = n"
  by (auto simp: ReactorId_from_position_def unat_of_nat take_bit_nat_eq_self_iff split: if_splits)

lemma aggregate_truthful:
  assumes "aggregate members = Ret outcome"
  shows "outcome_truthful outcome members"
proof (cases "iter_position member_panicked members")
  case (Some n)
  then obtain r where "ReactorId_from_position n = Ret r" "outcome = GroupPanicked r"
    using assms by (auto simp: aggregate_def and_then_Ret_iff)
  then show ?thesis
    using iter_position_SomeD [OF Some] iter_position_first [OF Some] from_position_unat [of n r]
    by (simp add: outcome_truthful_def)
next
  case None
  note calm = None [unfolded iter_position_None_iff]
  show ?thesis
  proof (cases "iter_position member_failed members")
    case (Some n)
    then obtain r where "ReactorId_from_position n = Ret r" "outcome = GroupFailed r"
      using assms None by (auto simp: aggregate_def and_then_Ret_iff)
    then show ?thesis
      using iter_position_SomeD [OF Some] iter_position_first [OF Some] from_position_unat [of n r] calm
      by (simp add: outcome_truthful_def)
  next
    case None': None
    have "outcome = (if list_ex member_terminated members then GroupTerminated else GroupStopped)"
      using assms None None' by (simp add: aggregate_def)
    then show ?thesis
      using calm None' [unfolded iter_position_None_iff]
      by (auto simp: outcome_truthful_def is_fatal_def list_ex_iff)
  qed
qed

lemma request_length:
  "GroupControl_request_termination g answer pc = Some (g', pc') \<Longrightarrow> length (gr_reactors g') = length (gr_reactors g)"
  by (cases "(g, answer, pc)" rule: GroupControl_request_termination.cases)
    (auto simp: Let_def split: if_splits prod.splits)

lemma group_step_length:
  assumes "group_step dc cc wc g op = Some (Ret g')"
  shows "length (gr_reactors g') = length (gr_reactors g)"
proof (cases op)
  case (WorkerMoves i answer)
  then have "worker_step dc cc wc g i answer = Some g'"
    using assms by (auto simp: group_step_def split: if_splits)
  then show ?thesis
    using request_length [of g answer]
    by (auto simp: worker_step_def set_worker_def split: worker_pc.splits option.splits start_decision.splits run_pc.splits
      if_splits term_pc.splits)
next
  case SupervisorMoves
  then show ?thesis
    using assms
    by (auto simp: group_step_def supervise_def and_then_Ret_iff split: supervisor_pc.splits if_splits list.splits
      option.splits worker_pc.splits worker_result.splits)
next
  case (RequestMoves j answer)
  then show ?thesis
    using assms request_length [of g answer] by (auto simp: group_step_def split: if_splits)
qed (use assms in \<open>auto simp: group_step_def and_then_Ret_iff\<close>)

lemma group_inv_start:
  assumes "bounded_ingress senders = Ret ingress" "\<forall>m\<in>set senders. mailbox_inv m"
    "\<forall>r\<in>set reactors. reactor_inv r" "length reactors < 2 ^ 64"
  shows "group_inv senders (group_created ingress reactors)"
proof -
  have "received (map (\<lambda>_. True) reactors) = 0"
    by (simp add: received_def)
  then show ?thesis
    using assms ingress_inv_new [OF assms(1,2)]
    by (simp add: group_inv_def group_created_def worker_ok_def channel_ok_def supervisor_ok_def StartGate_new_def)
qed

lemma group_reachable_inv:
  assumes "group_reachable dc cc wc senders reactors g" "\<forall>m\<in>set senders. mailbox_inv m"
    "\<forall>r\<in>set reactors. reactor_inv r" "length reactors < 2 ^ 64"
  shows "group_inv senders g \<and> length (gr_reactors g) = length reactors"
  using assms
proof (induction rule: group_reachable.induct)
  case (start ingress)
  then show ?case
    using group_inv_start [of senders ingress reactors] by (simp add: group_created_def)
next
  case (step g op g')
  then show ?case
    using group_step_ok [of senders g dc cc wc op "Ret g'"] group_step_length [of dc cc wc g op g'] by auto
qed

lemma contained_halted: "ingress_inv senders (gr_ingress g) \<Longrightarrow> contained g \<Longrightarrow> halted g"
  by (force simp: contained_def halted_def fence_done_def controlled_def in_set_conv_nth ingress_inv_def
    close_ok_def fenced_def)

lemma fence_closed: "ingress_inv senders ingress \<Longrightarrow> fence_done ingress \<Longrightarrow> \<not> gi_open ingress"
  by (force simp: fence_done_def in_set_conv_nth ingress_inv_def close_ok_def fenced_def)

section \<open>What the callers get\<close>

text \<open>\<open>slice::get\<close>, and the elements of a slice with their reactors' identities.\<close>

definition slice_get :: "'m list \<Rightarrow> nat \<Rightarrow> 'm option" where
  "slice_get xs i = (if i < length xs then Some (xs ! i) else None)"

fun identified :: "nat \<Rightarrow> 'm list \<Rightarrow> (reactor_id \<times> 'm) list run" where
  "identified n [] = Ret []"
| "identified n (x # xs) =
     and_then (ReactorId_from_position n) (\<lambda>r. and_then (identified (n + 1) xs) (\<lambda>rest. Ret ((r, x) # rest)))"

record ('d, 'c, 'v, 'de, 'ce, 'we) group_exit =
  gx_outcome :: group_outcome
  gx_members :: "('d, 'c, 'v, 'de, 'ce, 'we) member_exit list"

definition ReactorGroupExit_new ::
  "group_outcome \<times> ('d, 'c, 'v, 'de, 'ce, 'we) member_exit list \<Rightarrow> ('d, 'c, 'v, 'de, 'ce, 'we) group_exit" where
  "ReactorGroupExit_new supervised = \<lparr> gx_outcome = fst supervised, gx_members = snd supervised \<rparr>"

definition ReactorGroupExit_member ::
  "('d, 'c, 'v, 'de, 'ce, 'we) group_exit \<Rightarrow> reactor_id \<Rightarrow> ('d, 'c, 'v, 'de, 'ce, 'we) member_exit option" where
  "ReactorGroupExit_member self reactor = Option.bind (ReactorId_position reactor) (slice_get (gx_members self))"

definition ReactorGroupExit_members ::
  "('d, 'c, 'v, 'de, 'ce, 'we) group_exit \<Rightarrow> (reactor_id \<times> ('d, 'c, 'v, 'de, 'ce, 'we) member_exit) list run" where
  "ReactorGroupExit_members self = identified 0 (gx_members self)"

definition MemberExit_into_result ::
  "('d, 'c, 'v, 'de, 'ce, 'we) member_exit \<Rightarrow> unit + ('d, 'c, 'v, 'de, 'ce, 'we) reactor_exit" where
  "MemberExit_into_result self = (case self of MemberExited x \<Rightarrow> Inr x | MemberPanicked \<Rightarrow> Inl ())"

definition ReactorGroupTermination_get :: "'x reactor_termination list \<Rightarrow> reactor_id \<Rightarrow> 'x reactor_termination option" where
  "ReactorGroupTermination_get reactors reactor = Option.bind (ReactorId_position reactor) (slice_get reactors)"

definition ReactorGroupTermination_iter ::
  "'x reactor_termination list \<Rightarrow> (reactor_id \<times> 'x reactor_termination) list run" where
  "ReactorGroupTermination_iter reactors = identified 0 reactors"

text \<open>The group is join_result once its supervisor has returned.\<close>

definition ReactorGroup_join ::
  "('d, 'c, 'v, 'de, 'ce, 'we, 'a, 'u, 'w, 'x) group \<Rightarrow> ('d, 'c, 'v, 'de, 'ce, 'we) group_exit option" where
  "ReactorGroup_join g =
     (case gr_supervisor g of SupDone outcome members \<Rightarrow> Some (ReactorGroupExit_new (outcome, members)) | _ \<Rightarrow> None)"

text \<open>Iteration and lookup agree: each element under its own identity, in order.\<close>

lemma identified_exact:
  "n + length xs \<le> 2 ^ 64 \<Longrightarrow> identified n xs = Ret (zip (map of_nat [n ..< n + length xs]) xs)"
proof (induction xs arbitrary: n)
  case (Cons x xs)
  then have "identified (Suc n) xs = Ret (zip (map of_nat [Suc n ..< Suc n + length xs]) xs)"
    by simp
  moreover have "ReactorId_from_position n = Ret (of_nat n)"
    using Cons.prems by (simp add: ReactorId_from_position_def)
  ultimately show ?case
    by (simp add: upt_conv_Cons del: upt_Suc)
qed simp

lemma identified_lookup:
  assumes "length xs \<le> 2 ^ 64" "identified 0 xs = Ret ys"
  shows "(r, x) \<in> set ys \<longleftrightarrow> Option.bind (ReactorId_position r) (slice_get xs) = Some x"
proof -
  have "ys = zip (map of_nat [0 ..< length xs]) xs"
    using assms identified_exact [of 0 xs] by simp
  then have "(r, x) \<in> set ys \<longleftrightarrow> (\<exists>i<length xs. (of_nat i :: u64) = r \<and> xs ! i = x)"
    by (force simp: in_set_zip)
  also have "\<dots> \<longleftrightarrow> (\<exists>i<length xs. i = unat r \<and> xs ! i = x)"
    using assms(1) of_nat_eq_unat [of _ r] by (intro ex_cong1 conj_cong refl) simp
  finally show ?thesis
    by (auto simp: ReactorId_position_def slice_get_def)
qed

lemma members_lookup:
  "length (gx_members e) \<le> 2 ^ 64 \<Longrightarrow> ReactorGroupExit_members e = Ret ys \<Longrightarrow>
   (r, x) \<in> set ys \<longleftrightarrow> ReactorGroupExit_member e r = Some x"
  unfolding ReactorGroupExit_members_def ReactorGroupExit_member_def by (rule identified_lookup)

lemma termination_lookup:
  "length reactors \<le> 2 ^ 64 \<Longrightarrow> ReactorGroupTermination_iter reactors = Ret ys \<Longrightarrow>
   (r, x) \<in> set ys \<longleftrightarrow> ReactorGroupTermination_get reactors r = Some x"
  unfolding ReactorGroupTermination_iter_def ReactorGroupTermination_get_def by (rule identified_lookup)

end
