(* ===== verification/Group_Progress.thy ===== *)
theory Group_Progress
  imports Group
begin

text \<open>
  What a reactor group promises over its life: nobody is stuck while work is left (a lock of the
  ingress has an owner that moves, a termination request waits for a close that moves), and what its
  exit, its termination results and its members say is so.
\<close>

section \<open>Locks have owners\<close>

definition owned :: "('a, 'u, 'w) ingress \<Rightarrow> bool" where
  "owned g \<longleftrightarrow>
     (\<forall>i<length (gi_shards g).
        (\<forall>t. gs_lock (gi_shards g ! i) = Some (BySend t) \<longrightarrow>
           t < length (gi_sends g) \<and> send_inside (snd (gi_sends g ! t)) = Some i) \<and>
        (\<forall>c. gs_lock (gi_shards g ! i) = Some (ByClose c) \<longrightarrow>
           c < length (gi_closes g) \<and> gi_closes g ! c = CloseUnlock i))"

lemma nth_set: "j < length xs \<Longrightarrow> xs[i := v] ! j = (if i = j then v else xs ! j)"
  by (cases "i = j") auto

lemma owned_send_step:
  assumes "owned g" "t < length (gi_sends g)" "send_step g t backend = Some g'"
  shows "owned g'"
proof -
  obtain r pc where x: "gi_sends g ! t = (r, pc)"
    by (cases "gi_sends g ! t")
  have held: "send_inside pc = Some i" if "i < length (gi_shards g)" "gs_lock (gi_shards g ! i) = Some (BySend t)" for i
    using assms(1) that x by (force simp: owned_def)
  show ?thesis
  proof (cases pc)
    case SendRoute
    then show ?thesis
      using assms x held
      by (fastforce simp: send_step_def owned_def set_send_def nth_list_update)
  next
    case (SendLock i)
    then show ?thesis
      using assms x held
      by (fastforce simp: send_step_def owned_def set_send_def set_shard_def nth_set split: if_splits)
  next
    case (SendRecheck i)
    then show ?thesis
      using assms x held by (fastforce simp: send_step_def owned_def set_send_def nth_list_update)
  next
    case (SendPublish i)
    show ?thesis
      using assms x SendPublish
      by (auto dest!: held simp: send_step_def owned_def set_send_def set_shard_def nth_set split: prod.splits if_splits)
  next
    case (SendUnlock i result)
    show ?thesis
      using assms x SendUnlock
      by (auto dest!: held simp: send_step_def owned_def set_send_def set_shard_def nth_set split: if_splits)
  qed (use assms x in \<open>simp add: send_step_def\<close>)
qed

lemma owned_close_step:
  assumes "owned g" "c < length (gi_closes g)" "close_step g c = Some g'"
  shows "owned g'"
proof (cases "gi_closes g ! c")
  case CloseStore
  then show ?thesis
    using assms by (auto simp: close_step_def owned_def set_close_def nth_list_update)
next
  case (CloseLock i)
  then show ?thesis
    using assms
    by (auto simp: close_step_def owned_def set_close_def set_shard_def nth_set split: if_splits)
next
  case (CloseUnlock i)
  then show ?thesis
    using assms by (auto simp: close_step_def owned_def set_close_def set_shard_def nth_set split: if_splits)
qed (use assms in \<open>simp add: close_step_def\<close>)

lemma owned_begin_close: "owned g \<Longrightarrow> owned (g \<lparr> gi_closes := gi_closes g @ [CloseStore] \<rparr>)"
  by (auto simp: owned_def nth_append)

lemma owned_ingress_step:
  assumes "owned g" "ingress_step g op = Some (Ret g')"
  shows "owned g'"
proof (cases op)
  case (BeginSend r)
  then show ?thesis
    using assms by (auto simp: ingress_step_def owned_def nth_append)
next
  case BeginClose
  then show ?thesis
    using assms owned_begin_close [of g] by (auto simp: ingress_step_def)
next
  case (SendStep t backend)
  then show ?thesis
    using assms owned_send_step [of g t backend] by (auto simp: ingress_step_def split: if_splits)
next
  case (CloseStep c)
  then show ?thesis
    using assms owned_close_step [of g c] by (auto simp: ingress_step_def split: if_splits)
next
  case (Receive i mop)
  then show ?thesis
    using assms
    by (auto simp: ingress_step_def owned_def set_shard_def nth_list_update and_then_Ret_iff split: if_splits)
qed

text \<open>A close that has not returned moves, or the owner of the lock it waits for does.\<close>

definition ingress_moves :: "('a, 'u, 'w) ingress \<Rightarrow> bool" where
  "ingress_moves g \<longleftrightarrow>
     (\<exists>t backend. ingress_step g (SendStep t backend) \<noteq> None) \<or> (\<exists>c. ingress_step g (CloseStep c) \<noteq> None)"

lemma close_moves:
  assumes "owned g" "c < length (gi_closes g)" "gi_closes g ! c \<noteq> CloseDone"
  shows "ingress_moves g"
proof (cases "close_step g c")
  case (Some g')
  then have "ingress_step g (CloseStep c) \<noteq> None"
    using assms(2) by (simp add: ingress_step_def)
  then show ?thesis
    unfolding ingress_moves_def by blast
next
  case None
  then have "\<exists>i holder. i < length (gi_shards g) \<and> gs_lock (gi_shards g ! i) = Some holder"
    using assms(3) by (cases "gi_closes g ! c") (auto simp: close_step_def not_le split: if_splits)
  then obtain i holder where i: "i < length (gi_shards g)" and holder: "gs_lock (gi_shards g ! i) = Some holder"
    by blast
  show ?thesis
  proof (cases holder)
    case (BySend t)
    then have t: "t < length (gi_sends g)" "send_inside (snd (gi_sends g ! t)) = Some i"
      using assms(1) i holder by (auto simp: owned_def)
    then have "ingress_step g (SendStep t (Inr ())) \<noteq> None"
      by (cases "gi_sends g ! t"; cases "snd (gi_sends g ! t)")
        (auto simp: ingress_step_def send_step_def send_inside_def split: prod.splits)
    then show ?thesis
      unfolding ingress_moves_def by blast
  next
    case (ByClose d)
    then have "d < length (gi_closes g)" "gi_closes g ! d = CloseUnlock i"
      using assms(1) i holder by (auto simp: owned_def)
    then have "ingress_step g (CloseStep d) \<noteq> None"
      by (simp add: ingress_step_def close_step_def)
    then show ?thesis
      unfolding ingress_moves_def by blast
  qed
qed

section \<open>Nobody is stuck\<close>

lemma request_owned:
  "GroupControl_request_termination g answer pc = Some (g', pc') \<Longrightarrow> owned (gr_ingress g) \<Longrightarrow> owned (gr_ingress g')"
  using owned_begin_close [of "gr_ingress g"]
  by (cases "(g, answer, pc)" rule: GroupControl_request_termination.cases)
    (auto simp: Let_def split: if_splits prod.splits)

lemma group_step_owned:
  assumes "group_step dc cc wc g op = Some (Ret g')" "owned (gr_ingress g)"
  shows "owned (gr_ingress g')"
proof (cases op)
  case (WorkerMoves i answer)
  then have "worker_step dc cc wc g i answer = Some g'"
    using assms by (auto simp: group_step_def split: if_splits)
  then show ?thesis
    using assms(2) request_owned [of g answer]
    by (auto simp: worker_step_def set_worker_def split: worker_pc.splits option.splits start_decision.splits run_pc.splits
      if_splits term_pc.splits)
next
  case SupervisorMoves
  then show ?thesis
    using assms owned_begin_close [of "gr_ingress g"]
    by (auto simp: group_step_def supervise_def and_then_Ret_iff split: supervisor_pc.splits if_splits list.splits
      option.splits worker_pc.splits worker_result.splits)
next
  case (RequestMoves j answer)
  then show ?thesis
    using assms request_owned [of g answer] by (auto simp: group_step_def split: if_splits)
next
  case (IngressMoves iop)
  then show ?thesis
    using assms owned_ingress_step [of "gr_ingress g" iop] by (auto simp: group_step_def and_then_Ret_iff)
qed (use assms in \<open>auto simp: group_step_def\<close>)

lemma group_reachable_owned: "group_reachable dc cc wc senders reactors g \<Longrightarrow> owned (gr_ingress g)"
proof (induction rule: group_reachable.induct)
  case (start ingress)
  then show ?case
    by (auto simp: bounded_ingress_def group_created_def owned_def Shard_new_def split: if_splits)
next
  case (step g op g')
  then show ?case
    using group_step_owned by blast
qed

lemma request_moves:
  assumes "owned (gr_ingress g)" "term_ok g pc" "\<And>results. pc \<noteq> TermDone results" "pc \<noteq> TermUnwound"
  shows "ingress_moves (gr_ingress g) \<or> GroupControl_request_termination g answer pc \<noteq> None"
proof (cases pc)
  case (TermClose c)
  then show ?thesis
    using assms close_moves [of "gr_ingress g" c] by auto
next
  case (TermWake published results)
  then show ?thesis
    by (cases published) simp_all
qed (use assms in \<open>auto simp: Let_def split: prod.splits\<close>)

text \<open>A thread of the group, or one that is inside its ingress.\<close>

definition thread_moves ::
  "('d, 'de) duty_code \<Rightarrow> ('c, 'ce) clock_code \<Rightarrow> ('v, 'd, 'we) waiter_code \<Rightarrow>
   ('d, 'c, 'v, 'de, 'ce, 'we, 'a, 'u, 'w, 'x) group \<Rightarrow> bool" where
  "thread_moves dc cc wc g \<longleftrightarrow>
     ingress_moves (gr_ingress g) \<or> supervise g \<noteq> None \<or>
     (\<exists>i<length (gr_workers g). \<forall>answer. worker_step dc cc wc g i answer \<noteq> None)"

lemma channel_has_room:
  assumes "channel_ok n workers handles channel" "i < n" "\<not> worker_sent (workers ! i)" "n < 2 ^ 64"
  shows "length channel < n"
proof -
  have "unat ` set channel \<subseteq> {..<n} - {i}"
    using assms by (auto simp: channel_ok_def)
  then have "card (unat ` set channel) \<le> card ({..<n} - {i})"
    by (intro card_mono) simp_all
  moreover have "inj_on unat (set channel)"
    by (auto intro!: inj_onI simp: word_unat_eq_iff)
  then have "card (unat ` set channel) = length channel"
    using assms(1) by (simp only: card_image distinct_card channel_ok_def)
  ultimately show ?thesis
    using assms(2) by simp
qed

lemma worker_moves:
  assumes inv: "group_inv senders g" "owned (gr_ingress g)" and gate: "gr_gate g \<noteq> None"
    and i: "i < length (gr_reactors g)" and left: "\<And>result. gr_workers g ! i \<noteq> WorkerReturned result"
  shows "ingress_moves (gr_ingress g) \<or> worker_step dc cc wc g i answer \<noteq> None"
proof -
  have ok: "worker_ok g i (gr_workers g ! i)"
    and channel: "channel_ok (length (gr_reactors g)) (gr_workers g) (gr_handles g) (gr_channel g)"
    and n: "length (gr_reactors g) < 2 ^ 64"
    using inv(1) i by (simp_all add: group_inv_def Let_def)
  show ?thesis
  proof (cases "gr_workers g ! i")
    case WorkerGate
    then show ?thesis
      using gate by (auto simp: worker_step_def StartGate_wait_def split: start_decision.splits)
  next
    case WorkerRunning
    then show ?thesis
      by (auto simp: worker_step_def split: run_pc.splits)
  next
    case (WorkerTerminating x pc)
    then have "term_ok g pc"
      using ok by (simp add: worker_ok_def)
    then show ?thesis
      using request_moves [OF inv(2), of pc answer] WorkerTerminating
      by (cases pc) (auto simp: worker_step_def)
  next
    case (WorkerSending y)
    then have "length (gr_channel g) < length (gr_reactors g)"
      using channel_has_room [OF channel i _ n] by simp
    then show ?thesis
      using WorkerSending by (simp add: worker_step_def)
  qed (use left in \<open>auto simp: worker_step_def\<close>)
qed

lemma supervisor_moves:
  assumes inv: "group_inv senders g" "owned (gr_ingress g)"
    and over: "\<And>i. i < length (gr_reactors g) \<Longrightarrow> \<exists>result. gr_workers g ! i = WorkerReturned result"
    and left: "\<And>outcome members. gr_supervisor g \<noteq> SupDone outcome members"
  shows "ingress_moves (gr_ingress g) \<or> supervise g \<noteq> None"
proof -
  have n: "length (gr_workers g) = length (gr_reactors g)" "length (gr_handles g) = length (gr_reactors g)"
    and sup: "supervisor_ok g"
    using inv(1) by (simp_all add: group_inv_def Let_def)
  show ?thesis
  proof (cases "gr_supervisor g")
    case (SupReceive k)
    have "list_all worker_disconnected (gr_workers g)"
      using over n by (fastforce simp: list_all_length worker_disconnected_sent)
    then show ?thesis
      using SupReceive by (simp add: supervise_def ReactorId_position_def split: list.splits)
  next
    case (SupJoin k p)
    then have "p < length (gr_reactors g)"
      using sup n by (simp add: supervisor_ok_def)
    then obtain result where "gr_workers g ! p = WorkerReturned result"
      using over by blast
    then show ?thesis
      using SupJoin by (simp add: supervise_def split: worker_result.splits)
  next
    case (SupClosing c)
    then have "c < length (gi_closes (gr_ingress g))"
      using sup by (simp add: supervisor_ok_def)
    then show ?thesis
      using close_moves [OF inv(2), of c] SupClosing by (auto simp: supervise_def)
  qed (use left in \<open>auto simp: supervise_def\<close>)
qed

lemma nobody_stuck:
  assumes inv: "group_inv senders g" "owned (gr_ingress g)" and gate: "gr_gate g \<noteq> None"
    and left: "\<And>outcome members. gr_supervisor g \<noteq> SupDone outcome members"
  shows "thread_moves dc cc wc g"
proof (cases "\<exists>i<length (gr_reactors g). \<forall>result. gr_workers g ! i \<noteq> WorkerReturned result")
  case True
  then obtain i where i: "i < length (gr_reactors g)" "\<And>result. gr_workers g ! i \<noteq> WorkerReturned result"
    by blast
  have "length (gr_workers g) = length (gr_reactors g)"
    using inv(1) by (simp add: group_inv_def Let_def)
  then show ?thesis
    using worker_moves [OF inv gate i, of dc cc wc] i(1) unfolding thread_moves_def by metis
next
  case False
  then show ?thesis
    using supervisor_moves [OF inv _ left] unfolding thread_moves_def by blast
qed

section \<open>The lifecycle of a group\<close>

text \<open>
  C8. The lifecycle of a reactor group, for any reactors (with their duties, clocks and waiters) and
  any interleaving of their threads, the supervisor, sends, closes and termination requests. No step
  panics: every completion is received once, from a worker that ran. Once the gate is open, some
  thread can move until the supervisor has returned, so the group never deadlocks. A worker reports
  its own reactor's exit (or a panic, if a backend panicked while it requested termination for a
  reactor that had failed), and when that is a failure or a panic, the admission is closed and no
  reactor runs on without a termination request before the worker publishes. The same holds when a
  request of the group's termination has returned, with one result for each reactor, or was unwound
  by a backend. When the supervisor has returned the admission is closed, and its members are what
  the workers report, in the order of the identities, whatever order they completed in; the outcome
  is the panic of the lowest identity, or else the failure of the lowest, or else a termination, or
  a stop.
\<close>

theorem group_lifecycle:
  assumes "group_reachable dc cc wc senders reactors g" "\<forall>m\<in>set senders. mailbox_inv m"
    "\<forall>r\<in>set reactors. reactor_reachable dc cc wc r" "length reactors < 2 ^ 64"
  shows "group_step dc cc wc g op \<noteq> Some Panic \<and>
         (gr_gate g \<noteq> None \<longrightarrow> (\<forall>outcome members. gr_supervisor g \<noteq> SupDone outcome members) \<longrightarrow>
            thread_moves dc cc wc g) \<and>
         (\<forall>i<length reactors. \<forall>x. worker_past (gr_workers g ! i) \<longrightarrow> worker_exit (gr_workers g ! i) = Some x \<longrightarrow>
            reports (gr_reactors g ! i) x \<and> (is_fatal x \<longrightarrow> halted g)) \<and>
         (\<forall>results. TermDone results \<in> set (gr_requests g) \<longrightarrow> length results = length reactors \<and> halted g) \<and>
         (TermUnwound \<in> set (gr_requests g) \<longrightarrow> halted g) \<and>
         (\<forall>outcome members. gr_supervisor g = SupDone outcome members \<longrightarrow>
            \<not> gi_open (gr_ingress g) \<and> length members = length reactors \<and>
            (\<forall>i<length reactors. finished_with (gr_workers g ! i) (members ! i) \<and>
               reports (gr_reactors g ! i) (members ! i)) \<and>
            outcome_truthful outcome members)"
proof -
  have "\<forall>r\<in>set reactors. reactor_inv r"
    using assms(3) reactor_reachable_inv by blast
  from group_reachable_inv [OF assms(1,2) this assms(4)]
  have inv: "group_inv senders g" and n: "length (gr_reactors g) = length reactors"
    by blast+
  have ingress: "ingress_inv senders (gr_ingress g)"
    and lens: "length (gr_exits g) = length reactors" "length (gr_handles g) = length reactors"
    and workers: "\<And>i. i < length reactors \<Longrightarrow> worker_ok g i (gr_workers g ! i)"
    and requests: "\<And>pc. pc \<in> set (gr_requests g) \<Longrightarrow> term_ok g pc"
    and exits: "\<And>i x. i < length reactors \<Longrightarrow> gr_exits g ! i = Some x \<Longrightarrow>
      finished_with (gr_workers g ! i) x"
    and sup: "supervisor_ok g"
    using inv n by (simp_all add: group_inv_def Let_def)
  note halted = contained_halted [OF ingress]
  have "group_step dc cc wc g op \<noteq> Some Panic"
    using group_step_ok [OF inv, of dc cc wc op Panic] by auto
  moreover have "thread_moves dc cc wc g"
    if "gr_gate g \<noteq> None" "\<forall>outcome members. gr_supervisor g \<noteq> SupDone outcome members"
    using nobody_stuck [OF inv group_reachable_owned [OF assms(1)] that(1)] that(2) by blast
  moreover have "reports (gr_reactors g ! i) x \<and> (is_fatal x \<longrightarrow> halted g)"
    if "i < length reactors" "worker_past (gr_workers g ! i)" "worker_exit (gr_workers g ! i) = Some x" for i x
    using workers [OF that(1)] that(2,3) halted by (simp add: worker_ok_def)
  moreover have "length results = length reactors \<and> halted g" if "TermDone results \<in> set (gr_requests g)" for results
    using requests [OF that] n halted by simp
  moreover have "halted g" if "TermUnwound \<in> set (gr_requests g)"
    using requests [OF that] halted by simp
  moreover have "\<not> gi_open (gr_ingress g) \<and> length members = length reactors \<and>
      (\<forall>i<length reactors. finished_with (gr_workers g ! i) (members ! i) \<and>
         reports (gr_reactors g ! i) (members ! i)) \<and> outcome_truthful outcome members"
    if collected: "gr_supervisor g = SupDone outcome members" for outcome members
  proof -
    have s: "fence_done (gr_ingress g)" "collected (gr_handles g) (gr_exits g)"
      "members = map the (gr_exits g)" "aggregate members = Ret outcome"
      using sup collected by (auto simp: supervisor_ok_def)
    have "finished_with (gr_workers g ! i) (members ! i) \<and>
        reports (gr_reactors g ! i) (members ! i)" if i: "i < length reactors" for i
    proof -
      have "gr_exits g ! i = Some (members ! i)"
        using s(2,3) i lens by (auto simp: collected_def)
      then have "finished_with (gr_workers g ! i) (members ! i)"
        by (rule exits [OF i])
      then show ?thesis
        using workers [OF i] by (auto simp: worker_ok_def finished_with_def worker_exit_def split: worker_pc.splits)
    qed
    then show ?thesis
      using s fence_closed [OF ingress] aggregate_truthful lens by auto
  qed
  ultimately show ?thesis
    by blast
qed

text \<open>
  Two reactors. The second panics in its first turn; its worker closes the group, publishes the
  requests and its completion. The first then ends terminated, and the supervisor collects both.
\<close>

definition run_group ::
  "('d, 'de) duty_code \<Rightarrow> ('c, 'ce) clock_code \<Rightarrow> ('v, 'd, 'we) waiter_code \<Rightarrow>
   ('d, 'c, 'v, 'de, 'ce, 'we, 'a, 'u, 'w, 'x) group \<Rightarrow> ('a, 'u, 'w, 'x) group_op list \<Rightarrow>
   ('d, 'c, 'v, 'de, 'ce, 'we, 'a, 'u, 'w, 'x) group option" where
  "run_group dc cc wc g ops =
     fold (\<lambda>op g. case g of None \<Rightarrow> None
       | Some g \<Rightarrow> (case group_step dc cc wc g op of Some (Ret g') \<Rightarrow> Some g' | _ \<Rightarrow> None)) ops (Some g)"

lemma run_group_reachable:
  "group_reachable dc cc wc senders reactors g \<Longrightarrow> run_group dc cc wc g ops = Some g' \<Longrightarrow>
   group_reachable dc cc wc senders reactors g'"
proof (induction ops arbitrary: g)
  case (Cons op ops)
  have none: "fold (\<lambda>op g. case g of None \<Rightarrow> None
       | Some g \<Rightarrow> (case group_step dc cc wc g op of Some (Ret g') \<Rightarrow> Some g' | _ \<Rightarrow> None)) ops None = None"
    by (induction ops) simp_all
  obtain h where "group_step dc cc wc g op = Some (Ret h)" "run_group dc cc wc h ops = Some g'"
    using Cons.prems(2) none by (auto simp: run_group_def split: option.splits run.splits)
  then show ?case
    using Cons.IH [OF group_reachable.step [OF Cons.prems(1)]] by blast
qed (simp add: run_group_def)

definition group_duty :: "(bool, unit) duty_code" where
  "group_duty = \<lparr> dc_turn = (\<lambda>d now. if d then Panic else Ret (d, Inr Turn_waiting)) \<rparr>"

definition group_waiter :: "(unit, bool, unit) waiter_code" where
  "group_waiter = \<lparr> wc_wait = (\<lambda>v d maximum. Ret (v, d, Inr IdleReturn)) \<rparr>"

definition group_demo_reactors :: "(bool, moment, unit, unit, unit, unit) reactor list" where
  "group_demo_reactors = [Reactor_new False 0 (), Reactor_new True 0 ()]"

definition group_demo_start :: "(bool, moment, unit, unit, unit, unit, nat, nat, unit, nat) group" where
  "group_demo_start = group_created ingress_demo_start group_demo_reactors"

definition group_demo :: "(nat, nat, unit, nat) group_op list" where
  "group_demo =
     OpenGate # replicate 6 (WorkerMoves 1 (Some (Inr ()))) @ replicate 6 (IngressMoves (CloseStep 0)) @
     replicate 10 (WorkerMoves 1 (Some (Inr ()))) @ replicate 7 (WorkerMoves 0 (Some (Inr ()))) @ replicate 6 SupervisorMoves @
     replicate 6 (IngressMoves (CloseStep 1)) @ [SupervisorMoves]"

lemma group_demo_run:
  "case run_group group_duty clock_demo group_waiter group_demo_start group_demo of None \<Rightarrow> False
   | Some g \<Rightarrow> (case gr_supervisor g of SupDone outcome members \<Rightarrow> outcome = GroupPanicked 1 | _ \<Rightarrow> False)"
  by code_simp

lemma group_demo_reachable:
  "run_group group_duty clock_demo group_waiter group_demo_start group_demo = Some g \<Longrightarrow>
   group_reachable group_duty clock_demo group_waiter demo_senders group_demo_reactors g"
proof (rule run_group_reachable)
  have "bounded_ingress demo_senders = Ret ingress_demo_start"
    by (simp add: bounded_ingress_def ingress_demo_start_def demo_senders_def)
  then show "group_reachable group_duty clock_demo group_waiter demo_senders group_demo_reactors group_demo_start"
    unfolding group_demo_start_def by (rule group_reachable.start)
qed

theorem group_lifecycle_witness:
  "\<exists>g members. run_group group_duty clock_demo group_waiter group_demo_start group_demo = Some g \<and>
     gr_supervisor g = SupDone (GroupPanicked 1) members \<and> \<not> gi_open (gr_ingress g) \<and>
     reports (gr_reactors g ! 0) (members ! 0) \<and> outcome_truthful (GroupPanicked 1) members \<and>
     group_step group_duty clock_demo group_waiter g SupervisorMoves \<noteq> Some Panic"
proof -
  obtain g members where g: "run_group group_duty clock_demo group_waiter group_demo_start group_demo = Some g"
    "gr_supervisor g = SupDone (GroupPanicked 1) members"
    using group_demo_run by (auto split: option.splits supervisor_pc.splits)
  have "\<forall>m\<in>set demo_senders. mailbox_inv m"
    by (simp add: demo_senders_def mailbox_inv_new)
  moreover have "\<forall>r\<in>set group_demo_reactors. reactor_reachable group_duty clock_demo group_waiter r"
    unfolding group_demo_reactors_def Reactor_new_def Reactor_with_config_def by (auto intro: reactor_reachable.start)
  moreover have n: "length group_demo_reactors = 2"
    by (simp add: group_demo_reactors_def)
  ultimately have promise: "group_step group_duty clock_demo group_waiter g SupervisorMoves \<noteq> Some Panic"
    "\<not> gi_open (gr_ingress g)" "reports (gr_reactors g ! 0) (members ! 0)"
    "outcome_truthful (GroupPanicked 1) members"
    using group_lifecycle [OF group_demo_reachable [OF g(1)], of SupervisorMoves] g(2) by simp_all
  then show ?thesis
    using g by blast
qed

end
