(* ===== verification/Io_Events.thy ===== *)
theory Io_Events
  imports Resource
begin

text \<open>
  The readiness contract (\<open>io/\<close>): interests and readiness as flags of a 16-bit word, the events a
  poller delivers, the bounded destination it delivers them to and the report it gives. Flags are a
  set of bit positions; the operations are shown to be those of sets.
\<close>

unbundle bit_operations_syntax

section \<open>Interests\<close>

type_synonym interest = u16

definition INTEREST_READABLE :: u16 where "INTEREST_READABLE = 1"
definition INTEREST_WRITABLE :: u16 where "INTEREST_WRITABLE = push_bit 1 1"
definition INTEREST_PRIORITY :: u16 where "INTEREST_PRIORITY = push_bit 2 1"
definition INTEREST_AIO :: u16 where "INTEREST_AIO = push_bit 3 1"
definition INTEREST_LIO :: u16 where "INTEREST_LIO = push_bit 4 1"

text \<open>The word is nonzero; making one of zero bits panics.\<close>

definition Interest_from_bits :: "u16 \<Rightarrow> interest run" where
  "Interest_from_bits bits = (if bits \<noteq> 0 then Ret bits else Panic)"

definition Interest_READ_WRITE :: "interest run" where
  "Interest_READ_WRITE = Interest_from_bits (INTEREST_READABLE OR INTEREST_WRITABLE)"

definition Interest_union :: "interest \<Rightarrow> interest \<Rightarrow> interest run" where
  "Interest_union self other = Interest_from_bits (self OR other)"

definition Interest_remove :: "interest \<Rightarrow> interest \<Rightarrow> interest option" where
  "Interest_remove self other = (let bits = self AND NOT other in if bits \<noteq> 0 then Some bits else None)"

definition Interest_contains :: "interest \<Rightarrow> interest \<Rightarrow> bool" where
  "Interest_contains self other \<longleftrightarrow> self AND other = other"

definition Interest_intersects :: "interest \<Rightarrow> interest \<Rightarrow> bool" where
  "Interest_intersects self other \<longleftrightarrow> self AND other \<noteq> 0"

definition Interest_is_readable :: "interest \<Rightarrow> bool" where
  "Interest_is_readable self \<longleftrightarrow> self AND INTEREST_READABLE \<noteq> 0"

definition Interest_is_writable :: "interest \<Rightarrow> bool" where
  "Interest_is_writable self \<longleftrightarrow> self AND INTEREST_WRITABLE \<noteq> 0"

definition Interest_is_priority :: "interest \<Rightarrow> bool" where
  "Interest_is_priority self \<longleftrightarrow> self AND INTEREST_PRIORITY \<noteq> 0"

definition Interest_is_aio :: "interest \<Rightarrow> bool" where
  "Interest_is_aio self \<longleftrightarrow> self AND INTEREST_AIO \<noteq> 0"

definition Interest_is_lio :: "interest \<Rightarrow> bool" where
  "Interest_is_lio self \<longleftrightarrow> self AND INTEREST_LIO \<noteq> 0"

section \<open>Readiness\<close>

type_synonym readiness = u16

definition READY_READABLE :: u16 where "READY_READABLE = 1"
definition READY_WRITABLE :: u16 where "READY_WRITABLE = push_bit 1 1"
definition READY_READ_CLOSED :: u16 where "READY_READ_CLOSED = push_bit 2 1"
definition READY_WRITE_CLOSED :: u16 where "READY_WRITE_CLOSED = push_bit 3 1"
definition READY_ERROR :: u16 where "READY_ERROR = push_bit 4 1"
definition READY_PRIORITY :: u16 where "READY_PRIORITY = push_bit 5 1"
definition READY_AIO :: u16 where "READY_AIO = push_bit 6 1"
definition READY_LIO :: u16 where "READY_LIO = push_bit 7 1"

definition Readiness_EMPTY :: readiness where
  "Readiness_EMPTY = 0"

definition Readiness_union :: "readiness \<Rightarrow> readiness \<Rightarrow> readiness" where
  "Readiness_union self other = self OR other"

definition Readiness_remove :: "readiness \<Rightarrow> readiness \<Rightarrow> readiness" where
  "Readiness_remove self other = self AND NOT other"

definition Readiness_contains :: "readiness \<Rightarrow> readiness \<Rightarrow> bool" where
  "Readiness_contains self other \<longleftrightarrow> self AND other = other"

definition Readiness_intersects :: "readiness \<Rightarrow> readiness \<Rightarrow> bool" where
  "Readiness_intersects self other \<longleftrightarrow> self AND other \<noteq> 0"

definition Readiness_is_empty :: "readiness \<Rightarrow> bool" where
  "Readiness_is_empty self \<longleftrightarrow> self = 0"

definition Readiness_is_readable :: "readiness \<Rightarrow> bool" where
  "Readiness_is_readable self \<longleftrightarrow> self AND READY_READABLE \<noteq> 0"

definition Readiness_is_writable :: "readiness \<Rightarrow> bool" where
  "Readiness_is_writable self \<longleftrightarrow> self AND READY_WRITABLE \<noteq> 0"

definition Readiness_is_read_closed :: "readiness \<Rightarrow> bool" where
  "Readiness_is_read_closed self \<longleftrightarrow> self AND READY_READ_CLOSED \<noteq> 0"

definition Readiness_is_write_closed :: "readiness \<Rightarrow> bool" where
  "Readiness_is_write_closed self \<longleftrightarrow> self AND READY_WRITE_CLOSED \<noteq> 0"

definition Readiness_is_closed :: "readiness \<Rightarrow> bool" where
  "Readiness_is_closed self \<longleftrightarrow> Readiness_intersects self (Readiness_union READY_READ_CLOSED READY_WRITE_CLOSED)"

definition Readiness_is_error :: "readiness \<Rightarrow> bool" where
  "Readiness_is_error self \<longleftrightarrow> self AND READY_ERROR \<noteq> 0"

definition Readiness_is_priority :: "readiness \<Rightarrow> bool" where
  "Readiness_is_priority self \<longleftrightarrow> self AND READY_PRIORITY \<noteq> 0"

definition Readiness_is_aio :: "readiness \<Rightarrow> bool" where
  "Readiness_is_aio self \<longleftrightarrow> self AND READY_AIO \<noteq> 0"

definition Readiness_is_lio :: "readiness \<Rightarrow> bool" where
  "Readiness_is_lio self \<longleftrightarrow> self AND READY_LIO \<noteq> 0"

lemmas interest_flags = INTEREST_READABLE_def INTEREST_WRITABLE_def INTEREST_PRIORITY_def INTEREST_AIO_def
  INTEREST_LIO_def

lemmas readiness_flags = READY_READABLE_def READY_WRITABLE_def READY_READ_CLOSED_def READY_WRITE_CLOSED_def
  READY_ERROR_def READY_PRIORITY_def READY_AIO_def READY_LIO_def

section \<open>Events\<close>

datatype poll_event = PollWake | PollResource resource_token readiness

definition PollEvent_resource :: "poll_event \<Rightarrow> resource_token option" where
  "PollEvent_resource self = (case self of PollWake \<Rightarrow> None | PollResource token _ \<Rightarrow> Some token)"

definition PollEvent_readiness :: "poll_event \<Rightarrow> readiness option" where
  "PollEvent_readiness self = (case self of PollWake \<Rightarrow> None | PollResource _ readiness \<Rightarrow> Some readiness)"

record poll_events =
  pe_capacity :: usize
  pe_events :: "poll_event list"

definition PollEvents_new :: "usize \<Rightarrow> poll_events" where
  "PollEvents_new capacity = \<lparr> pe_capacity = capacity, pe_events = [] \<rparr>"

definition PollEvents_len :: "poll_events \<Rightarrow> nat" where
  "PollEvents_len self = length (pe_events self)"

definition PollEvents_is_empty :: "poll_events \<Rightarrow> bool" where
  "PollEvents_is_empty self \<longleftrightarrow> pe_events self = []"

definition PollEvents_get :: "poll_events \<Rightarrow> nat \<Rightarrow> poll_event option" where
  "PollEvents_get self index = (if index < length (pe_events self) then Some (pe_events self ! index) else None)"

definition PollEvents_clear :: "poll_events \<Rightarrow> poll_events" where
  "PollEvents_clear self = self \<lparr> pe_events := [] \<rparr>"

record poll_events_error =
  pee_event :: poll_event
  pee_capacity :: usize

definition PollEvents_try_push :: "poll_events \<Rightarrow> poll_event \<Rightarrow> poll_events \<times> (poll_events_error + unit)" where
  "PollEvents_try_push self event =
     (if unat (pe_capacity self) \<le> length (pe_events self)
      then (self, Inl \<lparr> pee_event = event, pee_capacity = pe_capacity self \<rparr>)
      else (self \<lparr> pe_events := pe_events self @ [event] \<rparr>, Inr ()))"

definition PollEvents_drain :: "poll_events \<Rightarrow> poll_events \<times> poll_event list" where
  "PollEvents_drain self = (self \<lparr> pe_events := [] \<rparr>, pe_events self)"

record poll_report =
  prp_observed :: usize
  prp_delivered :: usize
  prp_wakes :: usize
  prp_stale :: usize
  prp_saturated :: bool

definition PollReport_new :: "usize \<Rightarrow> usize \<Rightarrow> usize \<Rightarrow> bool \<Rightarrow> poll_report run" where
  "PollReport_new delivered wakes stale saturated =
     (if \<not> wakes \<le> delivered then Panic
      else case checked_add delivered stale of
        None \<Rightarrow> Panic
      | Some observed \<Rightarrow> Ret \<lparr> prp_observed = observed, prp_delivered = delivered, prp_wakes = wakes,
          prp_stale = stale, prp_saturated = saturated \<rparr>)"

definition PollReport_resources :: "poll_report \<Rightarrow> usize" where
  "PollReport_resources self = prp_delivered self - prp_wakes self"

section \<open>Flags are sets\<close>

definition flags :: "'a::len word \<Rightarrow> nat set" where
  "flags w = {n. bit w n}"

lemma flags_simps [simp]:
  "flags 0 = {}" "flags (v OR w) = flags v \<union> flags w" "flags (v AND w) = flags v \<inter> flags w"
  "flags v \<inter> flags (NOT w) = flags v - flags w"
  by (auto simp: flags_def bit_simps dest: bit_imp_le_length)

lemma flags_inject: "flags v = flags w \<longleftrightarrow> v = w"
  by (auto simp: flags_def set_eq_iff intro: bit_word_eqI)

lemma flags_empty_iff: "flags w = {} \<longleftrightarrow> w = 0"
  using flags_inject [of w 0] by simp

lemma flags_single: "n < LENGTH('a) \<Longrightarrow> flags (push_bit n 1 :: 'a::len word) = {n}"
  by (auto simp: flags_def bit_simps)

lemma flag_test: "w AND v \<noteq> 0 \<longleftrightarrow> flags w \<inter> flags v \<noteq> {}"
  by (simp flip: flags_empty_iff)

lemma flag_contains: "w AND v = v \<longleftrightarrow> flags v \<subseteq> flags w"
  by (simp flip: flags_inject) blast

lemma flags_one: "flags (1 :: u16) = {0}"
  using flags_single [of 0, where ?'a = 16] by simp

lemma interest_flag_sets [simp]:
  "flags INTEREST_READABLE = {0}" "flags INTEREST_WRITABLE = {1}" "flags INTEREST_PRIORITY = {2}"
  "flags INTEREST_AIO = {3}" "flags INTEREST_LIO = {4}"
  by (simp_all only: interest_flags flags_one) (rule flags_single; simp)+

lemma readiness_flag_sets [simp]:
  "flags READY_READABLE = {0}" "flags READY_WRITABLE = {1}" "flags READY_READ_CLOSED = {2}"
  "flags READY_WRITE_CLOSED = {3}" "flags READY_ERROR = {4}" "flags READY_PRIORITY = {5}"
  "flags READY_AIO = {6}" "flags READY_LIO = {7}"
  by (simp_all only: readiness_flags flags_one) (rule flags_single; simp)+

lemma interest_tests:
  "Interest_is_readable i \<longleftrightarrow> 0 \<in> flags i" "Interest_is_writable i \<longleftrightarrow> 1 \<in> flags i"
  "Interest_is_priority i \<longleftrightarrow> 2 \<in> flags i" "Interest_is_aio i \<longleftrightarrow> 3 \<in> flags i" "Interest_is_lio i \<longleftrightarrow> 4 \<in> flags i"
  by (simp_all add: Interest_is_readable_def Interest_is_writable_def Interest_is_priority_def
      Interest_is_aio_def Interest_is_lio_def flag_test)

lemma readiness_tests:
  "Readiness_is_readable i \<longleftrightarrow> 0 \<in> flags i" "Readiness_is_writable i \<longleftrightarrow> 1 \<in> flags i"
  "Readiness_is_read_closed i \<longleftrightarrow> 2 \<in> flags i" "Readiness_is_write_closed i \<longleftrightarrow> 3 \<in> flags i"
  "Readiness_is_error i \<longleftrightarrow> 4 \<in> flags i" "Readiness_is_priority i \<longleftrightarrow> 5 \<in> flags i"
  "Readiness_is_aio i \<longleftrightarrow> 6 \<in> flags i" "Readiness_is_lio i \<longleftrightarrow> 7 \<in> flags i"
  by (simp_all add: Readiness_is_readable_def Readiness_is_writable_def Readiness_is_read_closed_def
      Readiness_is_write_closed_def Readiness_is_error_def Readiness_is_priority_def Readiness_is_aio_def
      Readiness_is_lio_def flag_test)

section \<open>Theorem\<close>

text \<open>
  Interests and readiness are sets of flags. Union, removal, containment and intersection are
  those of the sets; a union of interests never panics, and removing gives nothing exactly when
  everything is removed; a resource is closed when either half is.
\<close>

theorem flags_are_sets:
  assumes "i \<noteq> 0"
  shows "(\<exists>u. Interest_union i j = Ret u \<and> u \<noteq> 0 \<and> flags u = flags i \<union> flags j) \<and>
    (case Interest_remove i j of None \<Rightarrow> flags i \<subseteq> flags j | Some k \<Rightarrow> k \<noteq> 0 \<and> flags k = flags i - flags j) \<and>
    (Interest_contains i j \<longleftrightarrow> flags j \<subseteq> flags i) \<and> (Interest_intersects i j \<longleftrightarrow> flags i \<inter> flags j \<noteq> {}) \<and>
    flags (Readiness_union r s) = flags r \<union> flags s \<and> flags (Readiness_remove r s) = flags r - flags s \<and>
    (Readiness_contains r s \<longleftrightarrow> flags s \<subseteq> flags r) \<and> (Readiness_intersects r s \<longleftrightarrow> flags r \<inter> flags s \<noteq> {}) \<and>
    (Readiness_is_closed r \<longleftrightarrow> Readiness_is_read_closed r \<or> Readiness_is_write_closed r)"
proof -
  have "i OR j \<noteq> 0"
    using assms by (simp flip: flags_empty_iff)
  then have "\<exists>u. Interest_union i j = Ret u \<and> u \<noteq> 0 \<and> flags u = flags i \<union> flags j"
    by (simp add: Interest_union_def Interest_from_bits_def)
  moreover have "case Interest_remove i j of None \<Rightarrow> flags i \<subseteq> flags j | Some k \<Rightarrow> k \<noteq> 0 \<and> flags k = flags i - flags j"
    by (simp add: Interest_remove_def Let_def Diff_eq_empty_iff flip: flags_empty_iff)
  moreover have "Readiness_is_closed r \<longleftrightarrow> Readiness_is_read_closed r \<or> Readiness_is_write_closed r"
    by (auto simp: Readiness_is_closed_def Readiness_intersects_def Readiness_union_def flag_test readiness_tests)
  ultimately show ?thesis
    by (simp add: Interest_contains_def Interest_intersects_def Readiness_union_def Readiness_remove_def
        Readiness_contains_def Readiness_intersects_def flag_test flag_contains)
qed

theorem flags_are_sets_witness:
  "Interest_union INTEREST_READABLE INTEREST_WRITABLE = Interest_READ_WRITE \<and>
   Interest_contains (INTEREST_READABLE OR INTEREST_WRITABLE) INTEREST_WRITABLE"
proof -
  have "INTEREST_READABLE OR INTEREST_WRITABLE \<noteq> 0"
    by (simp flip: flags_empty_iff)
  from flags_are_sets [OF this, of INTEREST_WRITABLE 0 0] show ?thesis
    by (simp add: Interest_READ_WRITE_def Interest_union_def)
qed

end
