(* ===== verification/Mio.thy ===== *)
theory Mio
  imports Io_Events Search
begin

text \<open>
  The adapter to the operating system's selector (\<open>calandria-mio\<close>): bounded registrations that
  translate wide resource tokens to backend tokens and back, interests to backend interests, and
  backend events to readiness.

  The \<open>mio\<close> crate is not part of the repository: its interests are a parameter (the five constants
  and \<open>add\<close>), an event is what its accessors answer, and what registering, reregistering,
  deregistering or polling answers is an argument of the operation. The platform is a parameter too.
\<close>

section \<open>Errors and limits\<close>

record mio_poller_limits =
  mpl_events :: usize
  mpl_registrations :: usize

datatype 'io mio_error =
  MioIo 'io
| MioRegistrationCapacity usize
| MioAlreadyRegistered resource_token
| MioNotRegistered resource_token
| MioUnsupportedInterest interest
| MioTokenSpaceExhausted
| MioDestinationTooSmall usize usize

section \<open>Interests and readiness\<close>

record 'mi mio_interests =
  mi_readable :: 'mi
  mi_writable :: 'mi
  mi_priority :: 'mi
  mi_aio :: 'mi
  mi_lio :: 'mi
  mi_add :: "'mi \<Rightarrow> 'mi \<Rightarrow> 'mi"

record target =
  tg_priority :: bool
  tg_aio :: bool
  tg_lio :: bool

definition include_interest ::
  "'mi mio_interests \<Rightarrow> 'mi option \<times> interest option \<Rightarrow> interest \<Rightarrow> 'mi \<Rightarrow> ('mi option \<times> interest option) run" where
  "include_interest mi acc core backend =
     (let (mapped, accepted) = acc;
          mapped = (case mapped of Some current \<Rightarrow> mi_add mi current backend | None \<Rightarrow> backend) in
      and_then (case accepted of Some current \<Rightarrow> Interest_union current core | None \<Rightarrow> Ret core)
        (\<lambda>accepted. Ret (Some mapped, Some accepted)))"

text \<open>One flag's stanza: on a target with the flag it is included; without it, it is an error.\<close>

definition flag_stanza ::
  "'mi mio_interests \<Rightarrow> interest \<Rightarrow> bool \<Rightarrow> bool \<Rightarrow> interest \<Rightarrow> 'mi \<Rightarrow> 'mi option \<times> interest option \<Rightarrow>
   ('io mio_error + 'mi option \<times> interest option) run" where
  "flag_stanza mi interest supported wanted core backend acc =
     (if supported
      then (if wanted then and_then (include_interest mi acc core backend) (\<lambda>acc. Ret (Inr acc)) else Ret (Inr acc))
      else (if wanted then Ret (Inl (MioUnsupportedInterest interest)) else Ret (Inr acc)))"

definition try_then :: "('e + 'a) run \<Rightarrow> ('a \<Rightarrow> ('e + 'b) run) \<Rightarrow> ('e + 'b) run" where
  "try_then r f = and_then r (\<lambda>result. case result of Inl e \<Rightarrow> Ret (Inl e) | Inr v \<Rightarrow> f v)"

lemma try_then_simps [simp]: "try_then (Ret (Inl e)) f = Ret (Inl e)" "try_then (Ret (Inr v)) f = f v"
  by (simp_all add: try_then_def)

definition into_mio_interest ::
  "target \<Rightarrow> 'mi mio_interests \<Rightarrow> interest \<Rightarrow> ('io mio_error + 'mi) run" where
  "into_mio_interest tg mi interest =
     try_then (flag_stanza mi interest True (Interest_is_readable interest) INTEREST_READABLE (mi_readable mi) (None, None)) (\<lambda>acc.
     try_then (flag_stanza mi interest True (Interest_is_writable interest) INTEREST_WRITABLE (mi_writable mi) acc) (\<lambda>acc.
     try_then (flag_stanza mi interest (tg_priority tg) (Interest_is_priority interest) INTEREST_PRIORITY (mi_priority mi) acc) (\<lambda>acc.
     try_then (flag_stanza mi interest (tg_aio tg) (Interest_is_aio interest) INTEREST_AIO (mi_aio mi) acc) (\<lambda>acc.
     try_then (flag_stanza mi interest (tg_lio tg) (Interest_is_lio interest) INTEREST_LIO (mi_lio mi) acc) (\<lambda>acc.
       case acc of
         (Some mapped, Some accepted) \<Rightarrow>
           if Interest_remove interest accepted \<noteq> None then Ret (Inl (MioUnsupportedInterest interest))
           else Ret (Inr mapped)
       | _ \<Rightarrow> Ret (Inl (MioUnsupportedInterest interest)))))))"

record mio_event =
  ev_token :: usize
  ev_readable :: bool
  ev_writable :: bool
  ev_read_closed :: bool
  ev_write_closed :: bool
  ev_error :: bool
  ev_priority :: bool
  ev_aio :: bool
  ev_lio :: bool

definition event_readiness :: "mio_event \<Rightarrow> readiness" where
  "event_readiness event =
     (let readiness = Readiness_EMPTY;
          readiness = (if ev_readable event then Readiness_union readiness READY_READABLE else readiness);
          readiness = (if ev_writable event then Readiness_union readiness READY_WRITABLE else readiness);
          readiness = (if ev_read_closed event then Readiness_union readiness READY_READ_CLOSED else readiness);
          readiness = (if ev_write_closed event then Readiness_union readiness READY_WRITE_CLOSED else readiness);
          readiness = (if ev_error event then Readiness_union readiness READY_ERROR else readiness);
          readiness = (if ev_priority event then Readiness_union readiness READY_PRIORITY else readiness);
          readiness = (if ev_aio event then Readiness_union readiness READY_AIO else readiness);
          readiness = (if ev_lio event then Readiness_union readiness READY_LIO else readiness) in
      readiness)"

section \<open>Registrations\<close>

definition WAKE_TOKEN :: usize where
  "WAKE_TOKEN = 0"

record registration =
  rg_resource :: resource_token
  rg_backend :: usize

record registrations =
  rgs_limits :: mio_poller_limits
  rgs_entries :: "registration list"
  rgs_next_backend :: "usize option"

definition Registrations_new :: "mio_poller_limits \<Rightarrow> registrations" where
  "Registrations_new limits = \<lparr> rgs_limits = limits, rgs_entries = [], rgs_next_backend = Some 1 \<rparr>"

definition Registrations_contains :: "registrations \<Rightarrow> resource_token \<Rightarrow> bool" where
  "Registrations_contains self resource \<longleftrightarrow> (\<exists>entry\<in>set (rgs_entries self). rg_resource entry = resource)"

definition Registrations_resource :: "registrations \<Rightarrow> usize \<Rightarrow> resource_token option" where
  "Registrations_resource self backend =
     map_option (\<lambda>index. rg_resource (rgs_entries self ! index))
       (binary_search backend (map rg_backend (rgs_entries self)) 0 (length (rgs_entries self)))"

definition Registrations_backend :: "registrations \<Rightarrow> resource_token \<Rightarrow> 'io mio_error + usize" where
  "Registrations_backend self resource =
     (case List.find (\<lambda>entry. rg_resource entry = resource) (rgs_entries self) of
        Some entry \<Rightarrow> Inr (rg_backend entry)
      | None \<Rightarrow> Inl (MioNotRegistered resource))"

definition Registrations_reserve ::
  "registrations \<Rightarrow> resource_token \<Rightarrow> registrations \<times> ('io mio_error + usize)" where
  "Registrations_reserve self resource =
     (if Registrations_contains self resource then (self, Inl (MioAlreadyRegistered resource))
      else if unat (mpl_registrations (rgs_limits self)) \<le> length (rgs_entries self)
      then (self, Inl (MioRegistrationCapacity (mpl_registrations (rgs_limits self))))
      else case rgs_next_backend self of
        None \<Rightarrow> (self, Inl MioTokenSpaceExhausted)
      | Some raw \<Rightarrow> (self \<lparr> rgs_next_backend := checked_add raw 1 \<rparr>, Inr raw))"

definition Registrations_commit :: "registrations \<Rightarrow> resource_token \<Rightarrow> usize \<Rightarrow> registrations run" where
  "Registrations_commit self resource backend =
     (if Registrations_contains self resource \<or> Registrations_resource self backend \<noteq> None then Panic
      else if \<not> length (rgs_entries self) < unat (mpl_registrations (rgs_limits self)) then Panic
      else if rgs_entries self \<noteq> [] \<and> backend \<le> rg_backend (last (rgs_entries self)) then Panic
      else Ret (self \<lparr> rgs_entries := rgs_entries self @ [\<lparr> rg_resource = resource, rg_backend = backend \<rparr>] \<rparr>))"

definition Registrations_remove :: "registrations \<Rightarrow> resource_token \<Rightarrow> registrations \<times> ('io mio_error + unit)" where
  "Registrations_remove self resource =
     (case iter_position (\<lambda>entry. rg_resource entry = resource) (rgs_entries self) of
        None \<Rightarrow> (self, Inl (MioNotRegistered resource))
      | Some index \<Rightarrow>
          (self \<lparr> rgs_entries := take index (rgs_entries self) @ drop (Suc index) (rgs_entries self) \<rparr>, Inr ()))"

record mio_poller_snapshot =
  mps_limits :: mio_poller_limits
  mps_registrations :: nat
  mps_backend_tokens_issued :: usize
  mps_token_space_exhausted :: bool

definition MioPollerSnapshot_new :: "mio_poller_limits \<Rightarrow> nat \<Rightarrow> usize option \<Rightarrow> mio_poller_snapshot" where
  "MioPollerSnapshot_new limits regs next_backend_token =
     (let (issued, exhausted) =
        (case next_backend_token of Some n \<Rightarrow> (saturating_sub n 1, False) | None \<Rightarrow> (- 1, True)) in
      \<lparr> mps_limits = limits, mps_registrations = regs, mps_backend_tokens_issued = issued,
        mps_token_space_exhausted = exhausted \<rparr>)"

definition Registrations_snapshot :: "registrations \<Rightarrow> mio_poller_snapshot" where
  "Registrations_snapshot self =
     MioPollerSnapshot_new (rgs_limits self) (length (rgs_entries self)) (rgs_next_backend self)"

section \<open>The poller\<close>

text \<open>The selector itself answers through arguments, so a poller is its registrations.\<close>

definition MioPoller_new :: "mio_poller_limits \<Rightarrow> 'io + unit \<Rightarrow> 'io + unit \<Rightarrow> 'io mio_error + registrations" where
  "MioPoller_new limits poll waker =
     (case poll of Inl e \<Rightarrow> Inl (MioIo e) | Inr _ \<Rightarrow>
      (case waker of Inl e \<Rightarrow> Inl (MioIo e) | Inr _ \<Rightarrow> Inr (Registrations_new limits)))"

definition MioPoller_event_batch :: "registrations \<Rightarrow> poll_events" where
  "MioPoller_event_batch self = PollEvents_new (mpl_events (rgs_limits self))"

text \<open>
  A call to the selector's registry is its two arguments, the backend token and the backend interest;
  its answer may depend on both. An operation returns the call it made, if it made one.
\<close>

definition MioPoller_register ::
  "target \<Rightarrow> 'mi mio_interests \<Rightarrow> registrations \<Rightarrow> resource_token \<Rightarrow> interest \<Rightarrow> (usize \<Rightarrow> 'mi \<Rightarrow> 'io + unit) \<Rightarrow>
   (registrations \<times> (usize \<times> 'mi) option \<times> ('io mio_error + unit)) run" where
  "MioPoller_register tg mi self token interest answer =
     and_then (into_mio_interest tg mi interest) (\<lambda>backend_interest.
       case backend_interest of Inl e \<Rightarrow> Ret (self, None, Inl e) | Inr backend_interest \<Rightarrow>
       (case Registrations_reserve self token of
          (self, Inl e) \<Rightarrow> Ret (self, None, Inl e)
        | (self, Inr backend) \<Rightarrow>
            (let call = Some (backend, backend_interest) in
             case answer backend backend_interest of
               Inl e \<Rightarrow> Ret (self, call, Inl (MioIo e))
             | Inr _ \<Rightarrow> and_then (Registrations_commit self token backend) (\<lambda>self. Ret (self, call, Inr ())))))"

definition MioPoller_reregister ::
  "target \<Rightarrow> 'mi mio_interests \<Rightarrow> registrations \<Rightarrow> resource_token \<Rightarrow> interest \<Rightarrow> (usize \<Rightarrow> 'mi \<Rightarrow> 'io + unit) \<Rightarrow>
   ((usize \<times> 'mi) option \<times> ('io mio_error + unit)) run" where
  "MioPoller_reregister tg mi self token interest answer =
     (case Registrations_backend self token of Inl e \<Rightarrow> Ret (None, Inl e) | Inr backend \<Rightarrow>
      and_then (into_mio_interest tg mi interest) (\<lambda>backend_interest.
        case backend_interest of Inl e \<Rightarrow> Ret (None, Inl e) | Inr backend_interest \<Rightarrow>
        (let call = Some (backend, backend_interest) in
         case answer backend backend_interest of Inl e \<Rightarrow> Ret (call, Inl (MioIo e)) | Inr _ \<Rightarrow> Ret (call, Inr ()))))"

definition MioPoller_deregister ::
  "registrations \<Rightarrow> resource_token \<Rightarrow> 'io + unit \<Rightarrow> registrations \<times> ('io mio_error + unit)" where
  "MioPoller_deregister self token answer =
     (case Registrations_backend self token of Inl e \<Rightarrow> (self, Inl e) | Inr _ \<Rightarrow>
      (case answer of Inl e \<Rightarrow> (self, Inl (MioIo e)) | Inr _ \<Rightarrow> Registrations_remove self token))"

definition translate :: "registrations \<Rightarrow> mio_event \<Rightarrow> poll_event option" where
  "translate self event =
     (if ev_token event = WAKE_TOKEN then Some PollWake
      else case Registrations_resource self (ev_token event) of
        Some token \<Rightarrow> Some (PollResource token (event_readiness event))
      | None \<Rightarrow> None)"

text \<open>The body of the loop over the backend's events; the counts are checked additions.\<close>

fun poll_loop ::
  "registrations \<Rightarrow> mio_event list \<Rightarrow> poll_events \<Rightarrow> usize \<Rightarrow> usize \<Rightarrow> usize \<Rightarrow>
   (poll_events \<times> usize \<times> usize \<times> usize) run" where
  "poll_loop self [] destination observed wakes stale = Ret (destination, observed, wakes, stale)"
| "poll_loop self (event # events) destination observed wakes stale =
     and_then (expect (checked_add observed 1)) (\<lambda>observed.
     and_then (if ev_token event = WAKE_TOKEN then expect (checked_add wakes 1) else Ret wakes) (\<lambda>wakes.
     and_then (if translate self event = None then expect (checked_add stale 1) else Ret stale) (\<lambda>stale.
       case translate self event of
         Some translated \<Rightarrow>
           (case PollEvents_try_push destination translated of
              (destination, Inl _) \<Rightarrow> Panic
            | (destination, Inr _) \<Rightarrow> poll_loop self events destination observed wakes stale)
       | None \<Rightarrow> poll_loop self events destination observed wakes stale)))"

definition MioPoller_poll_once ::
  "registrations \<Rightarrow> poll_events \<Rightarrow> 'io + mio_event list \<Rightarrow> (poll_events \<times> ('io mio_error + poll_report)) run" where
  "MioPoller_poll_once self destination answer =
     (let destination = PollEvents_clear destination;
          required = mpl_events (rgs_limits self) in
      if pe_capacity destination < required
      then Ret (destination, Inl (MioDestinationTooSmall required (pe_capacity destination)))
      else case answer of
        Inl e \<Rightarrow> Ret (destination, Inl (MioIo e))
      | Inr events \<Rightarrow>
          and_then (poll_loop self events destination 0 0 0) (\<lambda>(destination, observed, wakes, stale).
          and_then (PollReport_new (of_nat (PollEvents_len destination)) wakes stale (required \<le> observed))
            (\<lambda>report. Ret (destination, Inr report))))"

section \<open>Translation is exact\<close>

definition supported_flags :: "target \<Rightarrow> nat set" where
  "supported_flags tg =
     {0, 1} \<union> (if tg_priority tg then {2} else {}) \<union> (if tg_aio tg then {3} else {}) \<union> (if tg_lio tg then {4} else {})"

definition backend_interests :: "'mi mio_interests \<Rightarrow> interest \<Rightarrow> 'mi list" where
  "backend_interests mi i =
     map snd (filter (\<lambda>(n, _). n \<in> flags i)
       [(0, mi_readable mi), (1, mi_writable mi), (2, mi_priority mi), (3, mi_aio mi), (4, mi_lio mi)])"

definition joined :: "'mi mio_interests \<Rightarrow> 'mi list \<Rightarrow> 'mi" where
  "joined mi xs = foldl (mi_add mi) (hd xs) (tl xs)"

lemma joined_snoc: "joined mi (xs @ [x]) = (if xs = [] then x else mi_add mi (joined mi xs) x)"
  by (simp add: joined_def)

text \<open>The accumulators hold the flags taken so far and what they translate to.\<close>

definition taken :: "'mi mio_interests \<Rightarrow> nat set \<Rightarrow> 'mi list \<Rightarrow> 'mi option \<times> interest option \<Rightarrow> bool" where
  "taken mi S xs acc \<longleftrightarrow>
     (if xs = [] then S = {} \<and> acc = (None, None)
      else \<exists>a. a \<noteq> 0 \<and> flags a = S \<and> acc = (Some (joined mi xs), Some a))"

lemma flag_stanza_taken:
  fixes mi :: "'mi mio_interests" and io :: "'io itself"
  assumes "taken mi S xs acc" "core \<noteq> 0"
  obtains (unsupported) "wanted" "\<not> supported"
      "flag_stanza mi i supported wanted core backend acc = Ret (Inl (MioUnsupportedInterest i :: 'io mio_error))"
    | (taken) acc' where "wanted \<longrightarrow> supported"
      "flag_stanza mi i supported wanted core backend acc = (Ret (Inr acc') :: ('io mio_error + _) run)"
      "taken mi (S \<union> (if wanted then flags core else {})) (xs @ (if wanted then [backend] else [])) acc'"
proof (cases "wanted")
  case True
  show thesis
  proof (cases supported)
    case sup: True
    obtain acc' where "include_interest mi acc core backend = Ret acc'" "taken mi (S \<union> flags core) (xs @ [backend]) acc'"
    proof (cases "xs = []")
      case True
      show thesis
        by (rule that) (use assms True in \<open>auto simp: taken_def include_interest_def joined_def\<close>)
    next
      case False
      then obtain a where a: "a \<noteq> 0" "flags a = S" "acc = (Some (joined mi xs), Some a)"
        using assms(1) by (auto simp: taken_def)
      have "a OR core \<noteq> 0"
        using a(1) by (simp flip: flags_empty_iff)
      then show thesis
        by (intro that) (use a False in \<open>auto simp: taken_def include_interest_def joined_snoc
          Interest_union_def Interest_from_bits_def\<close>)
    qed
    then show thesis
      using taken [of acc'] True sup by (simp add: flag_stanza_def)
  qed (use True unsupported in \<open>simp add: flag_stanza_def\<close>)
next
  case False
  show thesis
    by (rule taken [of acc]) (use False assms(1) in \<open>simp_all add: flag_stanza_def\<close>)
qed

lemma flag_nonzero [simp]:
  "INTEREST_READABLE \<noteq> 0" "INTEREST_WRITABLE \<noteq> 0" "INTEREST_PRIORITY \<noteq> 0" "INTEREST_AIO \<noteq> 0" "INTEREST_LIO \<noteq> 0"
  by (simp_all flip: flags_empty_iff)

lemma into_mio_interest_exact:
  fixes mi :: "'mi mio_interests"
  shows "(into_mio_interest tg mi i :: ('io mio_error + 'mi) run) =
     Ret (if i \<noteq> 0 \<and> flags i \<subseteq> supported_flags tg then Inr (joined mi (backend_interests mi i))
          else Inl (MioUnsupportedInterest i))"
proof -
  note stanza = flag_stanza_taken [where ?'io = 'io and mi = mi and i = i]
  have start: "taken mi {} [] (None, None)"
    by (simp add: taken_def)
  note unfold = into_mio_interest_def interest_tests
  obtain a1 where a1: "flag_stanza mi i True (0 \<in> flags i) INTEREST_READABLE (mi_readable mi) (None, None) =
      (Ret (Inr a1) :: ('io mio_error + _) run)"
      "taken mi (if 0 \<in> flags i then flags INTEREST_READABLE else {}) (if 0 \<in> flags i then [mi_readable mi] else []) a1"
    by (rule stanza [OF start, of INTEREST_READABLE "0 \<in> flags i" True "mi_readable mi"]) auto
  obtain a2 where a2: "flag_stanza mi i True (1 \<in> flags i) INTEREST_WRITABLE (mi_writable mi) a1 =
      (Ret (Inr a2) :: ('io mio_error + _) run)"
      "taken mi ((if 0 \<in> flags i then flags INTEREST_READABLE else {}) \<union> (if 1 \<in> flags i then flags INTEREST_WRITABLE else {}))
        ((if 0 \<in> flags i then [mi_readable mi] else []) @ (if 1 \<in> flags i then [mi_writable mi] else [])) a2"
    by (rule stanza [OF a1(2), of INTEREST_WRITABLE "1 \<in> flags i" True "mi_writable mi"]) auto
  show ?thesis
  proof (rule stanza [OF a2(2), of INTEREST_PRIORITY "2 \<in> flags i" "tg_priority tg" "mi_priority mi"], goal_cases)
    case 2
    then show ?case
      using a1(1) a2(1) by (auto simp: unfold supported_flags_def)
  next
    case (3 a3)
    show ?case
    proof (rule stanza [OF 3(3), of INTEREST_AIO "3 \<in> flags i" "tg_aio tg" "mi_aio mi"], goal_cases)
      case 2
      then show ?case
        using a1(1) a2(1) 3(2) by (auto simp: unfold supported_flags_def)
    next
      case a4: (3 a4)
      show ?case
      proof (rule stanza [OF a4(3), of INTEREST_LIO "4 \<in> flags i" "tg_lio tg" "mi_lio mi"], goal_cases)
        case 2
        then show ?case
          using a1(1) a2(1) 3(2) a4(2) by (auto simp: unfold supported_flags_def)
      next
        case a5: (3 a5)
        let ?S = "flags i \<inter> {0, 1, 2, 3, 4}"
        have t5: "taken mi ?S (backend_interests mi i) a5"
        proof -
          have "((if 0 \<in> flags i then flags INTEREST_READABLE else {}) \<union>
              (if 1 \<in> flags i then flags INTEREST_WRITABLE else {}) \<union>
              (if 2 \<in> flags i then flags INTEREST_PRIORITY else {}) \<union>
              (if 3 \<in> flags i then flags INTEREST_AIO else {}) \<union>
              (if 4 \<in> flags i then flags INTEREST_LIO else {})) = ?S"
            by auto
          moreover have "(if 0 \<in> flags i then [mi_readable mi] else []) @
              (if 1 \<in> flags i then [mi_writable mi] else []) @ (if 2 \<in> flags i then [mi_priority mi] else []) @
              (if 3 \<in> flags i then [mi_aio mi] else []) @ (if 4 \<in> flags i then [mi_lio mi] else []) =
              backend_interests mi i"
            by (simp add: backend_interests_def)
          ultimately show ?thesis
            using a5(3) by (simp only: append_assoc)
        qed
        have eq: "into_mio_interest tg mi i = (case a5 of
            (Some mapped, Some accepted) \<Rightarrow>
              if Interest_remove i accepted \<noteq> None then Ret (Inl (MioUnsupportedInterest i)) else Ret (Inr mapped)
          | _ \<Rightarrow> Ret (Inl (MioUnsupportedInterest i :: 'io mio_error)))"
          using a1(1) a2(1) 3(2) a4(2) a5(2) by (simp add: unfold)
        have sup: "flags i \<subseteq> {0, 1, 2, 3, 4} \<longleftrightarrow> flags i \<subseteq> supported_flags tg"
          using 3(1) a4(1) a5(1) by (auto simp: supported_flags_def)
        show ?case
        proof (cases "backend_interests mi i = []")
          case True
          then have "?S = {}" "a5 = (None, None)"
            using t5 by (simp_all add: taken_def)
          moreover have "\<not> (i \<noteq> 0 \<and> flags i \<subseteq> supported_flags tg)"
            using \<open>?S = {}\<close> unfolding sup [symmetric] flags_empty_iff [symmetric] by blast
          ultimately show ?thesis
            using eq by auto
        next
          case False
          then obtain a where a: "a \<noteq> 0" "flags a = ?S" "a5 = (Some (joined mi (backend_interests mi i)), Some a)"
            using t5 by (auto simp: taken_def)
          have "Interest_remove i a = None \<longleftrightarrow> flags i \<subseteq> {0, 1, 2, 3, 4}"
            by (auto simp: Interest_remove_def Let_def a(2) simp flip: flags_empty_iff)
          moreover have "i \<noteq> 0"
            using a(1,2) by (auto simp flip: flags_empty_iff)
          ultimately show ?thesis
            using eq a(3) sup by auto
        qed
      qed simp
    qed simp
  qed simp
qed

lemma event_readiness_flags:
  "Readiness_is_readable (event_readiness e) = ev_readable e"
  "Readiness_is_writable (event_readiness e) = ev_writable e"
  "Readiness_is_read_closed (event_readiness e) = ev_read_closed e"
  "Readiness_is_write_closed (event_readiness e) = ev_write_closed e"
  "Readiness_is_error (event_readiness e) = ev_error e"
  "Readiness_is_priority (event_readiness e) = ev_priority e"
  "Readiness_is_aio (event_readiness e) = ev_aio e"
  "Readiness_is_lio (event_readiness e) = ev_lio e"
  by (simp_all add: readiness_tests event_readiness_def Let_def Readiness_union_def Readiness_EMPTY_def)

section \<open>Registrations\<close>

text \<open>Backend tokens ascend and lie between the wake token and the next one; resources are distinct.\<close>

definition regs_inv :: "registrations \<Rightarrow> bool" where
  "regs_inv r \<longleftrightarrow>
     sorted_wrt (<) (map rg_backend (rgs_entries r)) \<and> distinct (map rg_resource (rgs_entries r)) \<and>
     length (rgs_entries r) \<le> unat (mpl_registrations (rgs_limits r)) \<and>
     (\<forall>entry\<in>set (rgs_entries r). 0 < rg_backend entry \<and> (\<forall>n. rgs_next_backend r = Some n \<longrightarrow> rg_backend entry < n)) \<and>
     (\<forall>n. rgs_next_backend r = Some n \<longrightarrow> 0 < n)"

definition live :: "registrations \<Rightarrow> (usize \<times> resource_token) set" where
  "live r = (\<lambda>entry. (rg_backend entry, rg_resource entry)) ` set (rgs_entries r)"

lemma regs_inv_new: "regs_inv (Registrations_new limits)"
  by (simp add: regs_inv_def Registrations_new_def)

lemma live_new [simp]: "live (Registrations_new limits) = {}"
  by (simp add: live_def Registrations_new_def)

lemma live_unique:
  assumes "regs_inv r" "(b, t) \<in> live r" "(b', t') \<in> live r"
  shows "b = b' \<longleftrightarrow> t = t'"
proof -
  have "distinct (map rg_backend (rgs_entries r))" "distinct (map rg_resource (rgs_entries r))"
    using assms(1) by (auto simp: regs_inv_def strict_sorted_iff)
  then show ?thesis
    using assms(2,3) by (auto simp: live_def distinct_map dest: inj_onD)
qed

lemma Registrations_resource_iff:
  assumes "regs_inv r"
  shows "Registrations_resource r b = Some t \<longleftrightarrow> (b, t) \<in> live r"
proof -
  let ?xs = "map rg_backend (rgs_entries r)"
  have sorted: "sorted ?xs"
    using assms by (simp add: regs_inv_def strict_sorted_iff)
  show ?thesis
  proof
    assume "Registrations_resource r b = Some t"
    then obtain i where "binary_search b ?xs 0 (length (rgs_entries r)) = Some i" "t = rg_resource (rgs_entries r ! i)"
      by (auto simp: Registrations_resource_def)
    then show "(b, t) \<in> live r"
      using binary_search_sound [of b ?xs 0 "length (rgs_entries r)" i] by (auto simp: live_def)
  next
    assume l: "(b, t) \<in> live r"
    then obtain j where "j < length (rgs_entries r)" "?xs ! j = b"
      by (auto simp: live_def in_set_conv_nth)
    then obtain i where i: "binary_search b ?xs 0 (length (rgs_entries r)) = Some i"
      using binary_search_complete [OF sorted, of "length (rgs_entries r)" 0 j b] by auto
    then have "(b, rg_resource (rgs_entries r ! i)) \<in> live r"
      using binary_search_sound [OF i] by (auto simp: live_def)
    then have "rg_resource (rgs_entries r ! i) = t"
      using live_unique [OF assms l] by blast
    then show "Registrations_resource r b = Some t"
      using i by (simp add: Registrations_resource_def)
  qed
qed

lemma Registrations_resource_None_iff:
  "regs_inv r \<Longrightarrow> Registrations_resource r b = None \<longleftrightarrow> (\<forall>t. (b, t) \<notin> live r)"
  using Registrations_resource_iff [of r b] by (cases "Registrations_resource r b") auto

lemma Registrations_contains_iff: "Registrations_contains r t \<longleftrightarrow> (\<exists>b. (b, t) \<in> live r)"
  by (auto simp: Registrations_contains_def live_def)

lemma Registrations_backend_cases:
  "(case Registrations_backend r t of
      Inr b \<Rightarrow> (b, t) \<in> live r
    | Inl e \<Rightarrow> e = MioNotRegistered t \<and> (\<forall>b. (b, t) \<notin> live r))"
proof (cases "List.find (\<lambda>entry. rg_resource entry = t) (rgs_entries r)")
  case None
  moreover have "\<forall>entry\<in>set (rgs_entries r). rg_resource entry \<noteq> t"
    using None by (simp add: find_None_iff)
  ultimately show ?thesis
    by (auto simp: Registrations_backend_def live_def)
next
  case (Some entry)
  then have "entry \<in> set (rgs_entries r)" "rg_resource entry = t"
    by (auto simp: find_Some_iff)
  then show ?thesis
    using Some by (auto simp: Registrations_backend_def live_def)
qed

text \<open>Removing takes out the one entry of the resource.\<close>

lemma Registrations_remove_ok:
  assumes inv: "regs_inv r" and b: "(b, t) \<in> live r"
  obtains r' where "Registrations_remove r t = (r', Inr ())" "regs_inv r'" "live r' = live r - {(b, t)}"
    "rgs_next_backend r' = rgs_next_backend r" "rgs_limits r' = rgs_limits r"
proof -
  let ?es = "rgs_entries r"
  obtain i where i: "iter_position (\<lambda>entry. rg_resource entry = t) ?es = Some i"
    using b iter_position_None_iff [of "\<lambda>entry. rg_resource entry = t" ?es]
    by (cases "iter_position (\<lambda>entry. rg_resource entry = t) ?es") (auto simp: live_def)
  have split: "?es = take i ?es @ ?es ! i # drop (Suc i) ?es" and ti: "rg_resource (?es ! i) = t"
    using iter_position_SomeD [OF i] by (auto simp: id_take_nth_drop)
  let ?r = "r \<lparr> rgs_entries := take i ?es @ drop (Suc i) ?es \<rparr>"
  have parts: "regs_inv (r \<lparr> rgs_entries := xs @ e # ys \<rparr>) \<Longrightarrow> regs_inv (r \<lparr> rgs_entries := xs @ ys \<rparr>)" for xs e ys
    by (auto simp: regs_inv_def sorted_wrt_append)
  have "regs_inv ?r"
    by (rule parts [of _ "?es ! i"]) (use inv split in simp)
  moreover have "live ?r = live r - {(b, t)}"
  proof -
    have "live r = insert (rg_backend (?es ! i), t) (live ?r)"
      unfolding live_def by (subst split) (simp add: ti image_Un)
    moreover have "(b', t) \<notin> live ?r" for b'
    proof -
      have "distinct (map rg_resource (take i ?es @ ?es ! i # drop (Suc i) ?es))"
        using inv split by (simp add: regs_inv_def)
      then show ?thesis
        using ti by (auto simp: live_def)
    qed
    ultimately show ?thesis
      using b by auto
  qed
  ultimately show thesis
    using i by (intro that [of ?r]) (simp_all add: Registrations_remove_def)
qed

text \<open>What reserving answers, and that committing what was reserved never panics.\<close>

lemma reserve_commit:
  assumes inv: "regs_inv r" and res: "Registrations_reserve r t = (r1, Inr b)"
  obtains "regs_inv r1" "live r1 = live r" "rgs_next_backend r = Some b" "\<forall>b'. (b', t) \<notin> live r"
    "Registrations_commit r1 t b = Ret (r1 \<lparr> rgs_entries := rgs_entries r @ [\<lparr> rg_resource = t, rg_backend = b \<rparr>] \<rparr>)"
    "regs_inv (r1 \<lparr> rgs_entries := rgs_entries r @ [\<lparr> rg_resource = t, rg_backend = b \<rparr>] \<rparr>)"
    "\<forall>n. rgs_next_backend r1 = Some n \<longrightarrow> b < n" "rgs_limits r1 = rgs_limits r"
proof -
  have new: "\<not> Registrations_contains r t" and room: "length (rgs_entries r) < unat (mpl_registrations (rgs_limits r))"
    and b: "rgs_next_backend r = Some b" and r1: "r1 = r \<lparr> rgs_next_backend := checked_add b 1 \<rparr>"
    using res by (auto simp: Registrations_reserve_def not_le split: if_splits option.splits)
  have above: "b < n" if "checked_add b 1 = Some n" for n
    using checked_add_SomeD [OF that] by (simp add: word_less_nat_alt)
  have below: "rg_backend entry < b" "0 < rg_backend entry" if "entry \<in> set (rgs_entries r)" for entry
    using inv b that by (auto simp: regs_inv_def)
  have bpos: "0 < b"
    using inv b by (simp add: regs_inv_def)
  have inv1: "regs_inv r1"
    using inv below above bpos unfolding r1 by (auto simp: regs_inv_def intro: less_trans)
  have live1: "live r1 = live r"
    by (simp add: r1 live_def)
  have unheld: "\<forall>t'. (b, t') \<notin> live r"
    using below by (auto simp: live_def)
  have "Registrations_resource r1 b = None"
    using unheld live1 Registrations_resource_None_iff [OF inv1] by simp
  moreover have "\<not> b \<le> rg_backend (last (rgs_entries r))" if "rgs_entries r \<noteq> []"
    using below(1) [of "last (rgs_entries r)"] that by (simp add: not_le)
  moreover have "\<not> Registrations_contains r1 t"
    using new live1 by (simp add: Registrations_contains_iff)
  ultimately have commit: "Registrations_commit r1 t b =
      Ret (r1 \<lparr> rgs_entries := rgs_entries r @ [\<lparr> rg_resource = t, rg_backend = b \<rparr>] \<rparr>)"
    using room by (auto simp: Registrations_commit_def r1)
  have "regs_inv (r1 \<lparr> rgs_entries := rgs_entries r @ [\<lparr> rg_resource = t, rg_backend = b \<rparr>] \<rparr>)"
    using inv1 below above bpos room new
    by (auto simp: regs_inv_def r1 sorted_wrt_append Registrations_contains_def)
  then show thesis
    using that inv1 live1 b new commit above by (auto simp: Registrations_contains_iff r1)
qed

section \<open>Backend tokens are never used twice\<close>

text \<open>
  A poller with its history: the registrations the selector accepted, in order, with the backend token
  they were made under; the backend tokens that were given up; every backend token that was ever passed
  to the registry for a new registration, accepted or not; and the calls that changed one. An operation
  carries what the selector answers.
\<close>

record mio_history =
  mh_regs :: registrations
  mh_log :: "(usize \<times> resource_token) list"
  mh_removed :: "usize list"
  mh_offered :: "usize list"
  mh_reoffered :: "(usize \<times> resource_token) list"

datatype ('mi, 'io) mio_op =
  MioRegister resource_token interest "usize \<Rightarrow> 'mi \<Rightarrow> 'io + unit"
| MioReregister resource_token interest "usize \<Rightarrow> 'mi \<Rightarrow> 'io + unit"
| MioDeregister resource_token "'io + unit"

definition mio_step ::
  "target \<Rightarrow> 'mi mio_interests \<Rightarrow> ('mi, 'io) mio_op \<Rightarrow> mio_history \<Rightarrow> mio_history run" where
  "mio_step tg mi op h =
     (case op of
        MioRegister token interest answer \<Rightarrow>
          and_then (MioPoller_register tg mi (mh_regs h) token interest answer) (\<lambda>(regs, call, result).
            Ret (case (call, result) of
                   (None, _) \<Rightarrow> h \<lparr> mh_regs := regs \<rparr>
                 | (Some (backend, _), Inl _) \<Rightarrow> h \<lparr> mh_regs := regs, mh_offered := mh_offered h @ [backend] \<rparr>
                 | (Some (backend, _), Inr _) \<Rightarrow>
                     h \<lparr> mh_regs := regs, mh_log := mh_log h @ [(backend, token)],
                         mh_offered := mh_offered h @ [backend] \<rparr>))
      | MioReregister token interest answer \<Rightarrow>
          and_then (MioPoller_reregister tg mi (mh_regs h) token interest answer) (\<lambda>(call, result).
            Ret (case call of
                   None \<Rightarrow> h
                 | Some (backend, _) \<Rightarrow> h \<lparr> mh_reoffered := mh_reoffered h @ [(backend, token)] \<rparr>))
      | MioDeregister token answer \<Rightarrow>
          (let (regs, result) = MioPoller_deregister (mh_regs h) token answer in
           Ret (h \<lparr> mh_regs := regs,
                    mh_removed := (case (result, Registrations_backend (mh_regs h) token :: 'io mio_error + usize) of
                      (Inr _, Inr backend) \<Rightarrow> mh_removed h @ [backend]
                    | _ \<Rightarrow> mh_removed h) \<rparr>)))"

fun mio_run ::
  "target \<Rightarrow> 'mi mio_interests \<Rightarrow> ('mi, 'io) mio_op list \<Rightarrow> mio_history \<Rightarrow> mio_history run" where
  "mio_run tg mi [] h = Ret h"
| "mio_run tg mi (op # ops) h = and_then (mio_step tg mi op h) (mio_run tg mi ops)"

definition mio_history_new :: "mio_poller_limits \<Rightarrow> mio_history" where
  "mio_history_new limits = \<lparr> mh_regs = Registrations_new limits, mh_log = [], mh_removed = [],
     mh_offered = [], mh_reoffered = [] \<rparr>"

definition history_inv :: "mio_history \<Rightarrow> bool" where
  "history_inv h \<longleftrightarrow>
     regs_inv (mh_regs h) \<and> distinct (map fst (mh_log h)) \<and>
     distinct (mh_offered h) \<and> fst ` set (mh_log h) \<subseteq> set (mh_offered h) \<and>
     set (mh_reoffered h) \<subseteq> set (mh_log h) \<and>
     (\<forall>b\<in>set (mh_offered h). 0 < b \<and> (\<forall>n. rgs_next_backend (mh_regs h) = Some n \<longrightarrow> b < n)) \<and>
     live (mh_regs h) = {(b, t) \<in> set (mh_log h). b \<notin> set (mh_removed h)} \<and>
     set (mh_removed h) \<subseteq> fst ` set (mh_log h)"

lemma history_inv_new: "history_inv (mio_history_new limits)"
  by (simp add: history_inv_def mio_history_new_def regs_inv_new)

lemma history_inv_fresh: "history_inv h \<Longrightarrow> rgs_next_backend (mh_regs h) = Some n \<Longrightarrow> n \<notin> set (mh_offered h)"
  by (auto simp: history_inv_def)

lemma history_inv_below:
  "history_inv h \<Longrightarrow> rgs_next_backend (mh_regs h) = Some b \<Longrightarrow> b' \<in> set (mh_offered h) \<Longrightarrow> b < n \<Longrightarrow> b' < n"
  by (auto simp: history_inv_def intro: less_trans)

text \<open>A registration, by what it answers.\<close>

lemma register_cases:
  fixes mi :: "'mi mio_interests" and answer :: "usize \<Rightarrow> 'mi \<Rightarrow> 'io + unit"
  assumes inv: "regs_inv r"
  obtains (refused) e where "MioPoller_register tg mi r t i answer = Ret (r, None, Inl e)"
    | (rejected) r' b bi e where "MioPoller_register tg mi r t i answer = Ret (r', Some (b, bi), Inl e)" "regs_inv r'"
      "rgs_next_backend r = Some b" "live r' = live r" "0 < b"
      "\<forall>n. rgs_next_backend r' = Some n \<longrightarrow> b < n" "rgs_limits r' = rgs_limits r"
    | (registered) r' b bi where "MioPoller_register tg mi r t i answer = Ret (r', Some (b, bi), Inr ())" "regs_inv r'"
      "rgs_next_backend r = Some b" "live r' = insert (b, t) (live r)" "0 < b"
      "\<forall>n. rgs_next_backend r' = Some n \<longrightarrow> b < n" "rgs_limits r' = rgs_limits r"
proof -
  obtain conv where conv: "(into_mio_interest tg mi i :: ('io mio_error + 'mi) run) = Ret conv"
    by (simp add: into_mio_interest_exact)
  show thesis
  proof (cases conv)
    case (Inl e)
    show thesis
      by (rule refused [of e]) (use conv Inl in \<open>simp add: MioPoller_register_def\<close>)
  next
    case c: (Inr bi)
    obtain r1 res where res: "(Registrations_reserve r t :: _ \<times> ('io mio_error + usize)) = (r1, res)"
      by fastforce
    show thesis
    proof (cases res)
      case (Inl e)
      then have "r1 = r"
        using res by (auto simp: Registrations_reserve_def split: if_splits option.splits)
      then show thesis
        by (intro refused [of e]) (use conv c res Inl in \<open>simp add: MioPoller_register_def\<close>)
    next
      case (Inr b)
      show thesis
      proof (rule reserve_commit [OF inv res [unfolded Inr]], goal_cases)
        case rc: 1
        have pos: "0 < b"
          using inv rc(3) by (simp add: regs_inv_def)
        show thesis
        proof (cases "answer b bi")
          case (Inl e)
          show thesis
            by (rule rejected [of r1 b bi "MioIo e"])
              (use conv c res Inr Inl rc pos in \<open>simp_all add: MioPoller_register_def\<close>)
        next
          case a: (Inr u)
          have "live (r1 \<lparr> rgs_entries := rgs_entries r @ [\<lparr> rg_resource = t, rg_backend = b \<rparr>] \<rparr>) =
              insert (b, t) (live r)"
            by (auto simp: live_def)
          then show thesis
            by (intro registered [of "r1 \<lparr> rgs_entries := rgs_entries r @ [\<lparr> rg_resource = t, rg_backend = b \<rparr>] \<rparr>" b bi])
              (use conv c res Inr a rc pos in \<open>simp_all add: MioPoller_register_def\<close>)
        qed
      qed
    qed
  qed
qed

lemma reregister_cases:
  fixes mi :: "'mi mio_interests" and answer :: "usize \<Rightarrow> 'mi \<Rightarrow> 'io + unit"
  obtains call res where "MioPoller_reregister tg mi r t i answer = Ret (call, res)"
    "\<forall>b bi. call = Some (b, bi) \<longrightarrow> (b, t) \<in> live r"
proof -
  obtain conv where conv: "(into_mio_interest tg mi i :: ('io mio_error + 'mi) run) = Ret conv"
    by (simp add: into_mio_interest_exact)
  have backend: "case (Registrations_backend r t :: 'io mio_error + usize) of
      Inr b \<Rightarrow> (b, t) \<in> live r | Inl e \<Rightarrow> e = MioNotRegistered t \<and> (\<forall>b. (b, t) \<notin> live r)"
    by (rule Registrations_backend_cases)
  show thesis
  proof (cases "Registrations_backend r t :: 'io mio_error + usize")
    case (Inl e)
    then show thesis
      by (intro that [of None "Inl e"]) (simp_all add: MioPoller_reregister_def)
  next
    case b: (Inr b)
    show thesis
    proof (cases conv)
      case (Inl e)
      then show thesis
        using b conv by (intro that [of None "Inl e"]) (simp_all add: MioPoller_reregister_def)
    next
      case (Inr bi)
      then show thesis
        using b conv backend
        by (cases "answer b bi") (auto intro!: that simp: MioPoller_reregister_def)
    qed
  qed
qed

lemma history_inv_rejected:
  assumes inv: "history_inv h" and regs: "regs_inv r'" "rgs_next_backend (mh_regs h) = Some b"
    "live r' = live (mh_regs h)" "0 < b" "\<forall>n. rgs_next_backend r' = Some n \<longrightarrow> b < n"
  shows "history_inv (h \<lparr> mh_regs := r', mh_offered := mh_offered h @ [b] \<rparr>)"
  using inv regs history_inv_fresh [OF inv regs(2)] history_inv_below [OF inv regs(2)]
  by (auto simp: history_inv_def)

lemma history_inv_registered:
  assumes inv: "history_inv h" and regs: "regs_inv r'" "rgs_next_backend (mh_regs h) = Some b"
    "live r' = insert (b, t) (live (mh_regs h))" "0 < b" "\<forall>n. rgs_next_backend r' = Some n \<longrightarrow> b < n"
  shows "history_inv (h \<lparr> mh_regs := r', mh_log := mh_log h @ [(b, t)], mh_offered := mh_offered h @ [b] \<rparr>)"
proof -
  have fresh: "b \<notin> set (mh_offered h)"
    by (rule history_inv_fresh [OF inv regs(2)])
  have logged: "fst ` set (mh_log h) \<subseteq> set (mh_offered h)" "set (mh_removed h) \<subseteq> fst ` set (mh_log h)"
    using inv by (simp_all add: history_inv_def)
  then have unremoved: "b \<notin> set (mh_removed h)" and unlogged: "b \<notin> fst ` set (mh_log h)"
    using fresh by blast+
  have "\<forall>b'\<in>set (mh_offered h @ [b]). 0 < b' \<and> (\<forall>n. rgs_next_backend r' = Some n \<longrightarrow> b' < n)"
    using inv regs(4,5) history_inv_below [OF inv regs(2)] by (auto simp: history_inv_def)
  moreover have "live r' = {(b', t') \<in> set (mh_log h @ [(b, t)]). b' \<notin> set (mh_removed h)}"
    using inv regs(3) unremoved by (auto simp: history_inv_def)
  ultimately show ?thesis
    using inv regs(1) fresh unlogged logged by (auto simp: history_inv_def)
qed

lemma history_inv_reregistered:
  assumes inv: "history_inv h" and l: "(b, t) \<in> live (mh_regs h)"
  shows "history_inv (h \<lparr> mh_reoffered := mh_reoffered h @ [(b, t)] \<rparr>)"
  using assms by (auto simp: history_inv_def)

lemma history_live:
  "history_inv h \<Longrightarrow> (b, t) \<in> live (mh_regs h) \<longleftrightarrow> (b, t) \<in> set (mh_log h) \<and> b \<notin> set (mh_removed h)"
  by (simp add: history_inv_def)

lemma history_inv_removed:
  assumes inv: "history_inv h" and l: "(b, t) \<in> live (mh_regs h)"
    and regs: "regs_inv r'" "live r' = live (mh_regs h) - {(b, t)}" "rgs_next_backend r' = rgs_next_backend (mh_regs h)"
  shows "history_inv (h \<lparr> mh_regs := r', mh_removed := mh_removed h @ [b] \<rparr>)"
proof -
  have regs0: "regs_inv (mh_regs h)"
    using inv by (simp add: history_inv_def)
  have "live r' = {(b', t') \<in> set (mh_log h). b' \<notin> set (mh_removed h @ [b])}"
    using inv l live_unique [OF regs0 l] unfolding regs(2) by (auto simp: history_inv_def)
  moreover have "b \<in> fst ` set (mh_log h)"
    using l unfolding history_live [OF inv] by force
  ultimately show ?thesis
    using inv regs(1,3) by (simp add: history_inv_def)
qed

lemma mio_step_inv:
  assumes inv: "history_inv h"
  obtains h' where "mio_step tg mi op h = Ret h'" "history_inv h'"
    "rgs_limits (mh_regs h') = rgs_limits (mh_regs h)"
proof (cases op)
  case (MioRegister t i answer)
  have regs: "regs_inv (mh_regs h)"
    using inv by (simp add: history_inv_def)
  from regs show thesis
  proof (cases rule: register_cases [where tg = tg and mi = mi and t = t and i = i and answer = answer])
    case (refused e)
    from inv show thesis
      by (rule that [rotated]) (simp_all add: mio_step_def MioRegister refused)
  next
    case (rejected r' b bi e)
    have "history_inv (h \<lparr> mh_regs := r', mh_offered := mh_offered h @ [b] \<rparr>)"
      by (rule history_inv_rejected [OF inv rejected(2-6)])
    then show thesis
      by (rule that [rotated]) (simp_all add: mio_step_def MioRegister rejected(1,7))
  next
    case (registered r' b bi)
    have "history_inv (h \<lparr> mh_regs := r', mh_log := mh_log h @ [(b, t)], mh_offered := mh_offered h @ [b] \<rparr>)"
      by (rule history_inv_registered [OF inv registered(2-6)])
    then show thesis
      by (rule that [rotated]) (simp_all add: mio_step_def MioRegister registered(1,7))
  qed
next
  case (MioReregister t i answer)
  obtain call res where r: "MioPoller_reregister tg mi (mh_regs h) t i answer = Ret (call, res)"
    and c: "\<forall>b bi. call = Some (b, bi) \<longrightarrow> (b, t) \<in> live (mh_regs h)"
    by (rule reregister_cases)
  show thesis
  proof (cases call)
    case None
    then show thesis
      using inv r by (intro that [of h]) (simp_all add: mio_step_def MioReregister)
  next
    case (Some backend)
    then have "history_inv (h \<lparr> mh_reoffered := mh_reoffered h @ [(fst backend, t)] \<rparr>)"
      using history_inv_reregistered [OF inv, of "fst backend" t] c by (cases backend) simp
    then show thesis
      using r Some by (cases backend) (auto intro!: that simp: mio_step_def MioReregister)
  qed
next
  case (MioDeregister t answer)
  have cases: "case (Registrations_backend (mh_regs h) t :: 'b mio_error + usize) of
      Inr b \<Rightarrow> (b, t) \<in> live (mh_regs h) | Inl e \<Rightarrow> e = MioNotRegistered t \<and> (\<forall>b. (b, t) \<notin> live (mh_regs h))"
    by (rule Registrations_backend_cases)
  show thesis
  proof (cases "\<exists>b. (Registrations_backend (mh_regs h) t :: 'b mio_error + usize) = Inr b \<and> answer = Inr ()")
    case True
    then obtain b where b: "(Registrations_backend (mh_regs h) t :: 'b mio_error + usize) = Inr b" "answer = Inr ()"
      by blast
    have regs: "regs_inv (mh_regs h)" and l: "(b, t) \<in> live (mh_regs h)"
      using inv cases b by (simp_all add: history_inv_def)
    obtain r' where r': "Registrations_remove (mh_regs h) t = (r', Inr () :: 'b mio_error + unit)" "regs_inv r'"
        "live r' = live (mh_regs h) - {(b, t)}" "rgs_next_backend r' = rgs_next_backend (mh_regs h)"
        "rgs_limits r' = rgs_limits (mh_regs h)"
      by (rule Registrations_remove_ok [OF regs l])
    have "history_inv (h \<lparr> mh_regs := r', mh_removed := mh_removed h @ [b] \<rparr>)"
      by (rule history_inv_removed [OF inv l r'(2-4)])
    then show thesis
      by (rule that [rotated]) (simp_all add: mio_step_def MioDeregister MioPoller_deregister_def b r'(1,5))
  next
    case False
    then have "mio_step tg mi op h = Ret h"
      by (auto simp: mio_step_def MioDeregister MioPoller_deregister_def split: sum.splits)
    then show thesis
      using inv by (rule that) simp
  qed
qed

lemma mio_run_inv:
  assumes "history_inv h"
  obtains h' where "mio_run tg mi ops h = Ret h'" "history_inv h'"
    "rgs_limits (mh_regs h') = rgs_limits (mh_regs h)"
proof -
  have "\<exists>h'. mio_run tg mi ops h = Ret h' \<and> history_inv h' \<and> rgs_limits (mh_regs h') = rgs_limits (mh_regs h)"
    using assms
  proof (induction ops arbitrary: h)
    case (Cons op ops)
    then show ?case
      by (elim mio_step_inv [of h tg mi op]) fastforce
  qed simp
  then show thesis
    using that by blast
qed

lemma history_run:
  obtains h where "mio_run tg mi ops (mio_history_new limits) = Ret h" "history_inv h"
    "rgs_limits (mh_regs h) = limits"
proof (rule mio_run_inv [OF history_inv_new, of tg mi ops limits], goal_cases)
  case (1 h)
  then show thesis
    by (intro that [of h]) (simp_all add: mio_history_new_def Registrations_new_def)
qed

section \<open>Polling\<close>

definition wakes_in :: "mio_event list \<Rightarrow> nat" where
  "wakes_in events = length (filter (\<lambda>e. ev_token e = WAKE_TOKEN) events)"

definition stale_in :: "registrations \<Rightarrow> mio_event list \<Rightarrow> nat" where
  "stale_in r events = length (filter (\<lambda>e. translate r e = None) events)"

lemma checked_add_one: "unat x + 1 < 2 ^ 64 \<Longrightarrow> checked_add x 1 = Some (x + 1) \<and> unat (x + 1) = unat x + 1" for x :: usize
  by (simp add: checked_add_def unat_word_ariths)

lemma counted:
  assumes "unat x + 1 < 2 ^ 64"
  obtains y where "(if c then expect (checked_add x 1) else Ret x) = Ret (y :: usize)"
    "unat y = unat x + (if c then 1 else 0)"
  using that checked_add_one [OF assms] by (cases c) auto

lemma wake_translates: "ev_token e = WAKE_TOKEN \<Longrightarrow> translate r e = Some PollWake"
  by (simp add: translate_def)

lemma poll_loop_exact:
  assumes "length (pe_events dest) + length events \<le> unat (pe_capacity dest)"
    and "unat observed + length events < 2 ^ 64" "unat wakes + length events < 2 ^ 64" "unat stale + length events < 2 ^ 64"
  obtains observed' wakes' stale' where
    "poll_loop r events dest observed wakes stale =
       Ret (dest \<lparr> pe_events := pe_events dest @ List.map_filter (translate r) events \<rparr>, observed', wakes', stale')"
    "unat observed' = unat observed + length events" "unat wakes' = unat wakes + wakes_in events"
    "unat stale' = unat stale + stale_in r events"
  using assms
proof (induction events arbitrary: dest observed wakes stale thesis)
  case Nil
  show ?case
    by (rule Nil.prems(1) [of observed wakes stale]) (simp_all add: wakes_in_def stale_in_def List.map_filter_def)
next
  case (Cons e events)
  have bounds: "unat observed + 1 < 2 ^ 64" "unat wakes + 1 < 2 ^ 64" "unat stale + 1 < 2 ^ 64"
    using Cons.prems(3-5) by auto
  note o1 = checked_add_one [OF bounds(1)]
  obtain w1 where w1: "(if ev_token e = WAKE_TOKEN then expect (checked_add wakes 1) else Ret wakes) = Ret w1"
      "unat w1 = unat wakes + (if ev_token e = WAKE_TOKEN then 1 else 0)"
    by (rule counted [OF bounds(2)])
  obtain s1 where s1: "(if translate r e = None then expect (checked_add stale 1) else Ret stale) = Ret s1"
      "unat s1 = unat stale + (if translate r e = None then 1 else 0)"
    by (rule counted [OF bounds(3)])
  let ?dest = "dest \<lparr> pe_events := pe_events dest @ (case translate r e of None \<Rightarrow> [] | Some t \<Rightarrow> [t]) \<rparr>"
  have step: "poll_loop r (e # events) dest observed wakes stale = poll_loop r events ?dest (observed + 1) w1 s1"
    using o1 w1(1) s1(1) Cons.prems(2)
    by (cases "translate r e") (simp_all add: PollEvents_try_push_def)
  show ?case
  proof (rule Cons.IH [of ?dest "observed + 1" w1 s1], goal_cases)
    case (1 observed' wakes' stale')
    show ?case
      by (rule Cons.prems(1) [of observed' wakes' stale'])
        (use 1 step o1 w1(2) s1(2) in \<open>simp_all add: wakes_in_def stale_in_def map_filter_simps split: option.split\<close>)
  qed (use Cons.prems o1 w1(2) s1(2) in \<open>auto split: option.split\<close>)
qed

lemma delivered_count:
  "length (List.map_filter (translate r) events) + stale_in r events = length events \<and>
   wakes_in events \<le> length (List.map_filter (translate r) events)"
proof (induction events)
  case (Cons e events)
  then show ?case
    using wake_translates [of e r]
    by (cases "translate r e") (auto simp: stale_in_def wakes_in_def map_filter_simps)
qed (simp add: stale_in_def wakes_in_def List.map_filter_def)

text \<open>
  What a poll owes an event, in terms of the history alone. It is attributed when it carries the wake
  token, or the token of a registration that was made and not given up since; then what it delivers is
  a wake, or that registration's resource with the readiness the backend reported.
\<close>

definition event_flags :: "mio_event \<Rightarrow> nat set" where
  "event_flags e =
     {n. n < 8 \<and> [ev_readable e, ev_writable e, ev_read_closed e, ev_write_closed e, ev_error e, ev_priority e,
        ev_aio e, ev_lio e] ! n}"

definition attributed :: "mio_history \<Rightarrow> mio_event \<Rightarrow> bool" where
  "attributed h e \<longleftrightarrow>
     ev_token e = 0 \<or> ev_token e \<in> fst ` set (mh_log h) \<and> ev_token e \<notin> set (mh_removed h)"

fun delivers :: "mio_history \<Rightarrow> mio_event \<Rightarrow> poll_event \<Rightarrow> bool" where
  "delivers h e PollWake \<longleftrightarrow> ev_token e = 0"
| "delivers h e (PollResource token readiness) \<longleftrightarrow>
     ev_token e \<noteq> 0 \<and> (ev_token e, token) \<in> set (mh_log h) \<and> ev_token e \<notin> set (mh_removed h) \<and>
     flags readiness = event_flags e"

lemma event_readiness_event_flags: "flags (event_readiness e) = event_flags e"
proof -
  have "flags (event_readiness e) \<subseteq> {0, 1, 2, 3, 4, 5, 6, 7}"
    by (simp add: event_readiness_def Let_def Readiness_union_def Readiness_EMPTY_def)
  then have "flags (event_readiness e) = {n. n < 8 \<and> n \<in> flags (event_readiness e)}"
    by auto
  moreover have "n \<in> flags (event_readiness e) \<longleftrightarrow> n \<in> event_flags e" if "n < 8" for n
  proof -
    have "n = 0 \<or> n = 1 \<or> n = 2 \<or> n = 3 \<or> n = 4 \<or> n = 5 \<or> n = 6 \<or> n = 7"
      using that by presburger
    then show ?thesis
      using event_readiness_flags [of e] unfolding readiness_tests event_flags_def by (elim disjE) simp_all
  qed
  ultimately show ?thesis
    by (auto simp: event_flags_def)
qed

lemma translate_attributed:
  assumes "history_inv h"
  shows "case translate (mh_regs h) e of None \<Rightarrow> \<not> attributed h e | Some d \<Rightarrow> attributed h e \<and> delivers h e d"
proof (cases "ev_token e = WAKE_TOKEN")
  case True
  then show ?thesis
    by (simp add: translate_def attributed_def WAKE_TOKEN_def)
next
  case False
  have regs: "regs_inv (mh_regs h)"
    using assms by (simp add: history_inv_def)
  show ?thesis
  proof (cases "Registrations_resource (mh_regs h) (ev_token e)")
    case None
    then have "\<forall>t. (ev_token e, t) \<notin> live (mh_regs h)"
      by (simp add: Registrations_resource_None_iff [OF regs])
    then show ?thesis
      using False None unfolding history_live [OF assms]
      by (auto simp: translate_def attributed_def WAKE_TOKEN_def)
  next
    case (Some t)
    then have "(ev_token e, t) \<in> set (mh_log h)" "ev_token e \<notin> set (mh_removed h)"
      unfolding Registrations_resource_iff [OF regs] history_live [OF assms] by simp_all
    moreover from this(1) have "ev_token e \<in> fst ` set (mh_log h)"
      by force
    ultimately show ?thesis
      using False Some by (simp add: translate_def attributed_def WAKE_TOKEN_def event_readiness_event_flags)
  qed
qed

lemma translated_attributed:
  assumes inv: "history_inv h"
  shows "list_all2 (delivers h) (filter (attributed h) events) (List.map_filter (translate (mh_regs h)) events) \<and>
    stale_in (mh_regs h) events = length (filter (\<lambda>e. \<not> attributed h e) events)"
proof (induction events)
  case (Cons e events)
  then show ?case
    using translate_attributed [OF inv, of e]
    by (cases "translate (mh_regs h) e") (simp_all add: map_filter_simps stale_in_def)
qed (simp add: stale_in_def List.map_filter_def)

lemma poll_once_translates:
  assumes "case answer of Inl _ \<Rightarrow> True | Inr events \<Rightarrow> length events \<le> unat (mpl_events (rgs_limits r))"
  shows "\<exists>dest result. MioPoller_poll_once r destination (answer :: 'io + mio_event list) = Ret (dest, result) \<and>
    (if pe_capacity destination < mpl_events (rgs_limits r)
     then pe_events dest = [] \<and> result = Inl (MioDestinationTooSmall (mpl_events (rgs_limits r)) (pe_capacity destination))
     else case answer of
       Inl e \<Rightarrow> pe_events dest = [] \<and> result = Inl (MioIo e)
     | Inr events \<Rightarrow>
         pe_events dest = List.map_filter (translate r) events \<and>
         (\<exists>report. result = Inr report \<and> unat (prp_observed report) = length events \<and>
            unat (prp_delivered report) = length (pe_events dest) \<and> unat (prp_wakes report) = wakes_in events \<and>
            unat (prp_stale report) = stale_in r events \<and>
            (prp_saturated report \<longleftrightarrow> length events = unat (mpl_events (rgs_limits r)))))"
proof (cases "\<exists>events. answer = Inr events \<and> \<not> pe_capacity destination < mpl_events (rgs_limits r)")
  case False
  then show ?thesis
    by (cases answer; cases "pe_capacity destination < mpl_events (rgs_limits r)")
      (simp_all add: MioPoller_poll_once_def PollEvents_clear_def)
next
  case True
  then obtain events where events: "answer = Inr events" and room: "\<not> pe_capacity destination < mpl_events (rgs_limits r)"
    by blast
  let ?cleared = "PollEvents_clear destination" and ?limit = "mpl_events (rgs_limits r)"
  have limit: "length events \<le> unat ?limit"
    using assms events by simp
  have cap: "length (pe_events ?cleared) + length events \<le> unat (pe_capacity ?cleared)"
    using limit room by (simp add: PollEvents_clear_def not_less word_le_nat_alt)
  have small: "length events < 2 ^ 64"
    using limit unat_less_exp [of ?limit] by simp
  obtain observed wakes stale where loop: "poll_loop r events ?cleared 0 0 0 =
      Ret (?cleared \<lparr> pe_events := List.map_filter (translate r) events \<rparr>, observed, wakes, stale)"
      "unat observed = length events" "unat wakes = wakes_in events" "unat stale = stale_in r events"
    using poll_loop_exact [OF cap, of 0 0 0 r] small by (auto simp: PollEvents_clear_def)
  let ?delivered = "of_nat (length (List.map_filter (translate r) events)) :: usize"
  have delivered: "unat ?delivered = length (List.map_filter (translate r) events)"
    using delivered_count [of r events] small by (simp add: unat_of_nat take_bit_nat_eq_self_iff)
  have le: "wakes \<le> ?delivered"
    using delivered_count [of r events] loop(3) delivered by (simp add: word_le_nat_alt)
  obtain seen where seen: "checked_add ?delivered stale = Some seen" "unat seen = length events"
  proof (cases "checked_add ?delivered stale")
    case None
    then show thesis
      using checked_add_None_iff [of ?delivered stale] delivered loop(4) delivered_count [of r events] small by simp
  next
    case (Some seen)
    then show thesis
      using that checked_add_SomeD [OF Some] delivered loop(4) delivered_count [of r events] by simp
  qed
  have "?limit \<le> observed \<longleftrightarrow> length events = unat ?limit"
    using limit loop(2) by (auto simp: word_le_nat_alt)
  moreover have "MioPoller_poll_once r destination answer =
      Ret (?cleared \<lparr> pe_events := List.map_filter (translate r) events \<rparr>,
        Inr \<lparr> prp_observed = seen, prp_delivered = ?delivered, prp_wakes = wakes, prp_stale = stale,
              prp_saturated = (?limit \<le> observed) \<rparr>)"
    using room events loop(1) le seen(1)
    by (simp add: MioPoller_poll_once_def PollReport_new_def PollEvents_len_def PollEvents_clear_def)
  ultimately show ?thesis
    using room events loop(3,4) seen(2) delivered by simp
qed

section \<open>Theorems\<close>

text \<open>
  C16. Interests are translated exactly or refused. On any target, and whatever the backend's interests
  are, an interest that is not empty and asks only for flags the target supports becomes the backend's
  interests for exactly its flags, joined in order; any other is refused and named; nothing panics.
  In the other direction every readiness flag is set exactly when the backend's event reports it.
\<close>

theorem interest_translation_exact:
  fixes mi :: "'mi mio_interests"
  shows "(into_mio_interest tg mi i :: ('io mio_error + 'mi) run) =
      Ret (if i \<noteq> 0 \<and> flags i \<subseteq> supported_flags tg then Inr (joined mi (backend_interests mi i))
           else Inl (MioUnsupportedInterest i)) \<and>
    flags (event_readiness e) =
      {n. n < 8 \<and> [ev_readable e, ev_writable e, ev_read_closed e, ev_write_closed e, ev_error e, ev_priority e,
        ev_aio e, ev_lio e] ! n}"
  using into_mio_interest_exact [of tg mi i, where ?'io = 'io] event_readiness_event_flags [of e]
  by (simp add: event_flags_def)

text \<open>
  C11. A backend token is never used twice, so an event can only ever be attributed to the resource it
  was registered for. Take any sequence of registrations, reregistrations and deregistrations, with
  any interests, on any target, whatever the selector answers. Nothing panics; the tokens passed to the
  registry for new registrations, the ones it rejected included, are distinct and none is the wake
  token; the ones it accepted are among them; a change of interests goes to the registry under the
  token the resource was registered with; a token resolves to the resource it was registered for
  until that registration is given up, and to nothing ever after; a resource has the one token of
  its live registration, or is reported as not registered; and the live registrations are within
  the limit.
\<close>

theorem backend_tokens_never_reused:
  fixes ops :: "('mi, 'io) mio_op list"
  shows "\<exists>h. mio_run tg mi ops (mio_history_new limits) = Ret h \<and>
    distinct (map fst (mh_log h)) \<and> WAKE_TOKEN \<notin> fst ` set (mh_log h) \<and>
    distinct (mh_offered h) \<and> WAKE_TOKEN \<notin> set (mh_offered h) \<and> fst ` set (mh_log h) \<subseteq> set (mh_offered h) \<and>
    set (mh_reoffered h) \<subseteq> set (mh_log h) \<and>
    (\<forall>b. Registrations_resource (mh_regs h) b =
       (if b \<in> set (mh_removed h) then None else map_of (mh_log h) b)) \<and>
    (\<forall>t. case Registrations_backend (mh_regs h) t :: 'io mio_error + usize of
       Inr b \<Rightarrow> (b, t) \<in> set (mh_log h) \<and> b \<notin> set (mh_removed h)
     | Inl e \<Rightarrow> e = MioNotRegistered t \<and> (\<forall>b. (b, t) \<in> set (mh_log h) \<longrightarrow> b \<in> set (mh_removed h))) \<and>
    length (rgs_entries (mh_regs h)) \<le> unat (mpl_registrations limits)"
proof -
  obtain h where h: "mio_run tg mi ops (mio_history_new limits) = Ret h" "history_inv h"
      "rgs_limits (mh_regs h) = limits"
    by (rule history_run)
  have regs: "regs_inv (mh_regs h)" and dist: "distinct (map fst (mh_log h))" and
    l: "live (mh_regs h) = {(b, t) \<in> set (mh_log h). b \<notin> set (mh_removed h)}"
    using h(2) by (simp_all add: history_inv_def)
  have "Registrations_resource (mh_regs h) b = (if b \<in> set (mh_removed h) then None else map_of (mh_log h) b)" for b
  proof -
    have "Registrations_resource (mh_regs h) b = Some t \<longleftrightarrow> b \<notin> set (mh_removed h) \<and> map_of (mh_log h) b = Some t" for t
      using Registrations_resource_iff [OF regs] l dist by auto
    then show ?thesis
      by (metis (full_types) not_Some_eq)
  qed
  moreover have "case Registrations_backend (mh_regs h) t :: 'io mio_error + usize of
       Inr b \<Rightarrow> (b, t) \<in> set (mh_log h) \<and> b \<notin> set (mh_removed h)
     | Inl e \<Rightarrow> e = MioNotRegistered t \<and> (\<forall>b. (b, t) \<in> set (mh_log h) \<longrightarrow> b \<in> set (mh_removed h))" for t
  proof -
    have "case Registrations_backend (mh_regs h) t :: 'io mio_error + usize of
        Inr b \<Rightarrow> (b, t) \<in> live (mh_regs h) | Inl e \<Rightarrow> e = MioNotRegistered t \<and> (\<forall>b. (b, t) \<notin> live (mh_regs h))"
      by (rule Registrations_backend_cases)
    then show ?thesis
      unfolding l by (simp split: sum.splits)
  qed
  moreover have offered: "WAKE_TOKEN \<notin> set (mh_offered h)" "distinct (mh_offered h)"
      "fst ` set (mh_log h) \<subseteq> set (mh_offered h)" "set (mh_reoffered h) \<subseteq> set (mh_log h)"
    using h(2) by (auto simp: history_inv_def WAKE_TOKEN_def)
  moreover from offered(1,3) have "WAKE_TOKEN \<notin> fst ` set (mh_log h)"
    by blast
  moreover have "length (rgs_entries (mh_regs h)) \<le> unat (mpl_registrations limits)"
    using regs h(3) by (simp add: regs_inv_def)
  ultimately show ?thesis
    using h(1) dist by (intro exI [of _ h] conjI) simp_all
qed

text \<open>
  C15. A poll is exact, after any sequence of registrations, reregistrations and deregistrations. A
  destination smaller than the poller's event limit is refused and a backend failure is passed on, the
  destination left empty both times. Otherwise, when the backend keeps to its limit, nothing panics, and
  the destination holds, in the backend's order, one event for each of the backend's that carries the
  wake token or the token of a registration that was made and not given up since: a wake for the wake
  token, and for a registration the resource it was made for with exactly the readiness flags the
  backend reported. The others are dropped. The report counts the events that were observed, delivered,
  wakes and dropped, and says whether the batch was full.
\<close>

theorem poll_exact:
  fixes answer :: "'io + mio_event list"
  assumes "mio_run tg mi ops (mio_history_new limits) = Ret h"
    and "case answer of Inl _ \<Rightarrow> True | Inr events \<Rightarrow> length events \<le> unat (mpl_events limits)"
  shows "\<exists>dest result. MioPoller_poll_once (mh_regs h) destination answer = Ret (dest, result) \<and>
    (if pe_capacity destination < mpl_events limits
     then pe_events dest = [] \<and> result = Inl (MioDestinationTooSmall (mpl_events limits) (pe_capacity destination))
     else case answer of
       Inl e \<Rightarrow> pe_events dest = [] \<and> result = Inl (MioIo e)
     | Inr events \<Rightarrow>
         list_all2 (delivers h) (filter (attributed h) events) (pe_events dest) \<and>
         (\<exists>report. result = Inr report \<and> unat (prp_observed report) = length events \<and>
            unat (prp_delivered report) = length (filter (attributed h) events) \<and>
            unat (prp_wakes report) = length (filter (\<lambda>e. ev_token e = 0) events) \<and>
            unat (prp_stale report) = length (filter (\<lambda>e. \<not> attributed h e) events) \<and>
            (prp_saturated report \<longleftrightarrow> length events = unat (mpl_events limits))))"
proof -
  have h: "history_inv h" "rgs_limits (mh_regs h) = limits"
    using history_run [of tg mi ops limits] assms(1) by (auto simp del: mio_run.simps)
  note translated = translated_attributed [OF h(1)]
  have "length (filter (attributed h) events) = length (List.map_filter (translate (mh_regs h)) events)" for events
    using translated [of events] list_all2_lengthD by blast
  then show ?thesis
    using poll_once_translates [where answer = answer and r = "mh_regs h" and destination = destination] assms(2) translated
    unfolding h(2) wakes_in_def WAKE_TOKEN_def by (auto split: sum.splits if_splits)
qed

text \<open>Two sources: one is given up before its last event arrives.\<close>

definition mio_limits_demo :: mio_poller_limits where
  "mio_limits_demo = \<lparr> mpl_events = 4, mpl_registrations = 2 \<rparr>"

definition mio_interests_demo :: "nat mio_interests" where
  "mio_interests_demo = \<lparr> mi_readable = 1, mi_writable = 2, mi_priority = 4, mi_aio = 8, mi_lio = 16, mi_add = (+) \<rparr>"

definition linux_target :: target where
  "linux_target = \<lparr> tg_priority = True, tg_aio = False, tg_lio = False \<rparr>"

definition mio_demo :: "(nat, unit) mio_op list" where
  "mio_demo =
     [MioRegister (ResourceToken 0 0 0) 3 (\<lambda>_ _. Inr ()), MioRegister (ResourceToken 0 1 0) 1 (\<lambda>_ _. Inr ()),
      MioDeregister (ResourceToken 0 0 0) (Inr ())]"

definition event_demo :: "usize \<Rightarrow> mio_event" where
  "event_demo token = \<lparr> ev_token = token, ev_readable = True, ev_writable = False, ev_read_closed = False,
     ev_write_closed = False, ev_error = False, ev_priority = False, ev_aio = False, ev_lio = False \<rparr>"

lemma mio_demo_run:
  "case mio_run linux_target mio_interests_demo mio_demo (mio_history_new mio_limits_demo) of
     Panic \<Rightarrow> False
   | Ret h \<Rightarrow> mh_log h = [(1, ResourceToken 0 0 0), (2, ResourceToken 0 1 0)] \<and> mh_removed h = [1]"
  by code_simp

theorem backend_tokens_never_reused_witness:
  "\<exists>h. mio_run linux_target mio_interests_demo mio_demo (mio_history_new mio_limits_demo) = Ret h \<and>
     Registrations_resource (mh_regs h) 1 = None \<and> Registrations_resource (mh_regs h) 2 = Some (ResourceToken 0 1 0)"
proof -
  obtain h where h: "mio_run linux_target mio_interests_demo mio_demo (mio_history_new mio_limits_demo) = Ret h"
    "mh_log h = [(1, ResourceToken 0 0 0), (2, ResourceToken 0 1 0)]" "mh_removed h = [1]"
    using mio_demo_run by (auto split: run.splits)
  have "\<forall>b. Registrations_resource (mh_regs h) b = (if b \<in> set (mh_removed h) then None else map_of (mh_log h) b)"
    using backend_tokens_never_reused [of linux_target mio_interests_demo mio_demo mio_limits_demo] h(1) by auto
  then show ?thesis
    using h by simp
qed

text \<open>A wake, an event of the source that is registered, and a late event of the one that was given up.\<close>

theorem poll_exact_witness:
  "\<exists>h dest report. mio_run linux_target mio_interests_demo mio_demo (mio_history_new mio_limits_demo) = Ret h \<and>
     MioPoller_poll_once (mh_regs h) (PollEvents_new 4)
       (Inr [event_demo 0, event_demo 1, event_demo 2] :: unit + mio_event list) = Ret (dest, Inr report) \<and>
     (\<exists>ready. pe_events dest = [PollWake, PollResource (ResourceToken 0 1 0) ready] \<and> flags ready = {0}) \<and>
     unat (prp_stale report) = 1"
proof -
  let ?events = "[event_demo 0, event_demo 1, event_demo 2]"
  obtain h where h: "mio_run linux_target mio_interests_demo mio_demo (mio_history_new mio_limits_demo) = Ret h"
    "mh_log h = [(1, ResourceToken 0 0 0), (2, ResourceToken 0 1 0)]" "mh_removed h = [1]"
    using mio_demo_run by (auto split: run.splits)
  have seen: "attributed h (event_demo 0)" "\<not> attributed h (event_demo 1)" "attributed h (event_demo 2)"
    by (simp_all add: attributed_def event_demo_def h(2,3))
  have "event_flags (event_demo 2) = {0}"
    by (auto simp: event_flags_def event_demo_def less_Suc_eq numeral_eq_Suc)
  then have delivered: "delivers h (event_demo 0) d \<longleftrightarrow> d = PollWake"
    "delivers h (event_demo 2) d \<longleftrightarrow> (\<exists>ready. d = PollResource (ResourceToken 0 1 0) ready \<and> flags ready = {0})" for d
    by (cases d; auto simp: event_demo_def h(2,3))+
  obtain dest report where "MioPoller_poll_once (mh_regs h) (PollEvents_new 4) (Inr ?events :: unit + _) = Ret (dest, Inr report)"
    "list_all2 (delivers h) (filter (attributed h) ?events) (pe_events dest)"
    "unat (prp_stale report) = length (filter (\<lambda>e. \<not> attributed h e) ?events)"
    using poll_exact [OF h(1), where answer = "Inr ?events :: unit + mio_event list" and destination = "PollEvents_new 4"]
    by (auto simp: mio_limits_demo_def PollEvents_new_def)
  then show ?thesis
    using h(1) by (auto simp: seen list_all2_Cons1 delivered)
qed

end
