(* ===== verification/Spec2Isabelle.thy ===== *)
theory Spec2Isabelle
  imports Prelude Ledger Next_Turn Batch Resource BTree Timer Simulation_Laws Trace Script Wake Mailbox
    Completion Shutdown Host Reactor Group_Progress Io_Events Mio
begin

text \<open>
  Calandria: bounded single-owner reactors (\<open>crates/calandria\<close>), a deterministic simulation of such
  owners (\<open>crates/calandria-sim\<close>) and an adapter to the operating system's readiness selector
  (\<open>crates/calandria-mio\<close>).

  \<^bold>\<open>How the program is put together.\<close> An owner (a \<open>Duty\<close>) does bounded work in turns and reports what
  it needs next (\<open>Next_Turn\<close>: run again, wait for a wake, wait for a deadline, stop). A host runs the
  turns and bounds the waits: embedded in a caller's loop (\<open>Host\<close>), on a thread of its own (\<open>Reactor\<close>),
  or as one of a fixed group of such threads with a shared routed ingress and a supervisor
  (\<open>Group_Ingress\<close>, \<open>Group_Spawn\<close>, \<open>Group\<close>). Work reaches an owner through a bounded two-lane mailbox (\<open>Mailbox\<close>)
  whose senders wake the owner through a coalescing handle (\<open>Wake\<close>); answers go back through one-shot
  completions (\<open>Completion\<close>), and many parties await one shutdown (\<open>Shutdown\<close>). Readiness comes from a
  poller (\<open>Io_Events\<close>, \<open>Mio\<close>). An owner keeps its work in bounded batches (\<open>Batch\<close>), its resources in a
  generational slot table (\<open>Resource\<close>) and its deadlines in a timer queue (\<open>Timer\<close>); all of them
  charge retained bytes to a ledger (\<open>Ledger\<close>). The simulation replaces clock, scheduler and peers by a
  timeline of routed events (\<open>Timeline\<close>, \<open>Context\<close>, \<open>Schedulers\<close>, \<open>Simulation\<close>), records runs (\<open>Trace\<close>)
  and answers requests from finite scripts (\<open>Script\<close>).

  \<^bold>\<open>How the model is written.\<close> A struct is a record, an enum a datatype, each with its fields or
  variants in the source's order; a method \<open>f\<close> of a type \<open>T\<close> is the definition \<open>T_f\<close>, which takes the
  receiver first and returns the receiver updated. A newtype over a \<open>u64\<close> is the word itself. A \<open>u64\<close>
  or \<open>usize\<close> is a \<open>64 word\<close>, with Rust's checked and saturating arithmetic (\<open>Prelude\<close>) and with the
  wrap-around of the rest; a vector's length is a natural number, compared through \<open>unat\<close>. A
  \<open>Result\<close> is a sum, the error left; code that may panic returns a \<open>run\<close>. Consumer code (a model's
  callbacks, a measuring function, a monitor, a backend) is an argument. The standard library's
  ordered map and binary heap are the theories \<open>BTree\<close> and \<open>Heap\<close>, each behind a locale that states
  what its users rely on.

  \<^bold>\<open>Concurrency.\<close> Where the code takes a lock, one critical section is one step; where it uses an
  atomic, one access is one step. A theorem about such a component quantifies over every reachable
  state of the transition system, so over every interleaving. Two machines carry history variables that no
  step reads: the wake handle records the backend's successes, the reactor what the host was handed
  over as; theorems use them to say what an answer or an outcome rests on.

  \<^bold>\<open>Theories and sources.\<close>
  \<^item> \<open>Prelude\<close>, \<open>Search\<close>: words, checked arithmetic, \<open>run\<close>, searches in vectors.
  \<^item> \<open>Ledger\<close> (\<open>retained.rs\<close>): byte counts; the locale \<open>byte_ledger\<close> that every byte-charging structure
    interprets, with the exactness of its ledger.
  \<^item> \<open>Clock_Time\<close> (\<open>time.rs\<close>), \<open>Next_Turn\<close> (\<open>turn.rs\<close>): moments, spans, deadlines; turns and their merge.
  \<^item> \<open>Batch\<close> (\<open>batch/\<close>): the bounded event batch and its drain from both ends.
  \<^item> \<open>Resource\<close> (\<open>resource/\<close>): the slot table; a refinement to a map from tokens, and the fact that a
    removed token is never valid again.
  \<^item> \<open>Heap\<close>, \<open>Timer\<close> (\<open>timer/\<close>): the timer queue over a binary heap.
  \<^item> \<open>BTree\<close>, \<open>Event_Store\<close>, \<open>Sim_Event\<close> (\<open>event.rs\<close>, \<open>plan.rs\<close>, \<open>clock.rs\<close>, \<open>entropy.rs\<close>, \<open>action.rs\<close>),
    \<open>Timeline\<close> (\<open>timeline/\<close>): events in canonical order.
  \<^item> \<open>Context\<close> (\<open>model/\<close>): what a callback may do, transactionally. \<open>Schedulers\<close> (\<open>scheduler/\<close>).
  \<^item> \<open>Simulation\<close>, \<open>Simulation_Laws\<close> (\<open>simulation/\<close>): construction, injection, steps, runs.
  \<^item> \<open>Trace\<close> (\<open>trace/\<close>): recording and exact replay. \<open>Script\<close> (\<open>script/\<close>).
  \<^item> \<open>Wake\<close> (\<open>wake.rs\<close>), \<open>Mailbox\<close> (\<open>mailbox/\<close>), \<open>Completion\<close> (\<open>completion/\<close>), \<open>Shutdown\<close> (\<open>shutdown/\<close>, over the
    completions): no wake and no work is lost; every answer and every subscriber is settled once.
  \<^item> \<open>Host\<close> (\<open>host/\<close>): the embedded host's steps. \<open>Reactor\<close> (\<open>reactor/*.rs\<close>): the run loop as a machine
    with its control, started on any host in any phase; its outcome tells the truth about termination,
    which comes promptly.
  \<^item> \<open>Group_Ingress\<close> (\<open>group/admission.rs\<close>, \<open>port.rs\<close>, \<open>identity.rs\<close>, \<open>limits.rs\<close>, \<open>send_error.rs\<close>): routed
    sends and the fence of a close. \<open>Group_Spawn\<close> (\<open>spawn.rs\<close>, \<open>gate.rs\<close>, \<open>member.rs\<close>, \<open>spawn_error.rs\<close>):
    all threads or none, with every part handed back. \<open>Group\<close>, \<open>Group_Progress\<close> (\<open>worker.rs\<close>,
    \<open>termination.rs\<close>, \<open>supervisor.rs\<close>, \<open>exit.rs\<close>, \<open>owner.rs\<close>): the running group and its lifecycle,
    composed of the machines of \<open>Reactor\<close> and \<open>Group_Ingress\<close>.
  \<^item> \<open>Io_Events\<close> (\<open>io/\<close>): interests, readiness, poll reports. \<open>Mio\<close> (\<open>calandria-mio\<close>): registrations
    and polling, with the operating system's selector as an argument that answers each call it is
    passed; what a poll delivers is stated over the history of those calls.

  \<^bold>\<open>Termination and fuel.\<close> Loops over data are structural recursions. The run loops of the simulation
  are partial functions whose value \<open>None\<close> is not returning; the action limit is the measure by which
  \<open>runs_return\<close> shows that they return. The spin loop of a wake call is a transition system, with a
  bound on the accesses it needs once the thread inside the backend has finished. The run loop of a
  reactor is a transition system as well: after a termination request its owner exits within a
  bounded number of its own steps. A running group has no step at which everybody waits. Only the
  witnesses use finite lists of steps.

  \<^bold>\<open>Not modelled.\<close> The operating system's threads, clock and selector and the \<open>mio\<close> crate are
  arguments or answers; a panic's payload is not kept. Memory is unbounded: running out of it, and the
  panic of \<open>Vec::with_capacity\<close> on a capacity near the largest \<open>usize\<close>, are outside the model. A condition
  variable is a wait that is enabled by its condition, so the \<open>notify\<close> calls are not steps. \<open>Display\<close>, \<open>Debug\<close> and \<open>Error\<close> implementations (text only); the selection between
  standard and loom primitives (\<open>sync.rs\<close>); the programs under \<open>examples/\<close> and the tests; memory
  orderings weaker than sequential consistency, which the single atomic of a wake handle and the
  locks elsewhere make unobservable.
\<close>

end
